(* ===== verification/Prelude.thy ===== *)
theory Prelude
  imports Main "HOL-Library.Word" "HOL-Library.Monad_Syntax"
begin

text \<open>
  Prelude: the machine-integer types shared by the labs, the reading of C's undefined
  behaviour as \<^term>\<open>None\<close> of an outer \<open>option\<close>, the little-endian byte image of a 64-bit
  value, and the lemma collections the component theories extend.
\<close>

unbundle bit_operations_syntax

section \<open>Machine integers\<close>

type_synonym byte = "8 word"
type_synonym i32 = "32 word"
type_synonym i64 = "64 word"

text \<open>
  A C function whose execution can leave the defined part of the language (here always: an
  array access outside the array) returns \<open>'a ub\<close>; \<^term>\<open>None\<close> means that the access happens.
\<close>

type_synonym 'a ub = "'a option"

named_theorems word_bytes \<open>reading words byte by byte\<close>
named_theorems wf_intros \<open>well-formedness of the components' states\<close>

text \<open>The values of \<^verbatim>\<open>int\<close>, and the conversion of a wider value to \<^verbatim>\<open>int\<close>.\<close>

definition int_ok :: "int \<Rightarrow> bool" where
  "int_ok x \<longleftrightarrow> - (2 ^ 31) \<le> x \<and> x < 2 ^ 31"

definition to_int :: "int \<Rightarrow> int" where
  "to_int x = signed_take_bit 31 x"

lemma to_int_id [simp]: "int_ok x \<Longrightarrow> to_int x = x"
  by (simp add: to_int_def int_ok_def signed_take_bit_int_eq_self)

section \<open>Arrays as lists\<close>

text \<open>An array read and write at an \<open>int\<close> index, out of range included.\<close>

definition arr_get :: "'a list \<Rightarrow> int \<Rightarrow> 'a ub" where
  "arr_get xs i = (if 0 \<le> i \<and> i < int (length xs) then Some (xs ! nat i) else None)"

definition arr_set :: "'a list \<Rightarrow> int \<Rightarrow> 'a \<Rightarrow> 'a list ub" where
  "arr_set xs i v = (if 0 \<le> i \<and> i < int (length xs) then Some (xs[nat i := v]) else None)"

lemma arr_get_in [simp]: "0 \<le> i \<Longrightarrow> i < int (length xs) \<Longrightarrow> arr_get xs i = Some (xs ! nat i)"
  by (simp add: arr_get_def)

lemma arr_get_out: "i < 0 \<or> int (length xs) \<le> i \<Longrightarrow> arr_get xs i = None"
  by (auto simp: arr_get_def)

lemma arr_set_in [simp]: "0 \<le> i \<Longrightarrow> i < int (length xs) \<Longrightarrow> arr_set xs i v = Some (xs[nat i := v])"
  by (simp add: arr_set_def)

lemma arr_set_out: "i < 0 \<or> int (length xs) \<le> i \<Longrightarrow> arr_set xs i v = None"
  by (auto simp: arr_set_def)

lemma arr_set_length: "arr_set xs i v = Some ys \<Longrightarrow> length ys = length xs"
  by (auto simp: arr_set_def split: if_splits)

section \<open>The little-endian bytes of a 64-bit value\<close>

definition long_byte :: "i64 \<Rightarrow> nat \<Rightarrow> byte" where
  "long_byte v i = ucast (drop_bit (8 * i) v)"

definition long_bytes :: "i64 \<Rightarrow> byte list" where
  "long_bytes v = map (long_byte v) [0..<8]"

definition bytes_long :: "byte list \<Rightarrow> i64" where
  "bytes_long bs = fold (\<lambda>i val. val OR push_bit (8 * i) (ucast (bs ! i))) [0..<8] 0"

lemma length_long_bytes [simp]: "length (long_bytes v) = 8"
  by (simp add: long_bytes_def)

lemma nth_long_bytes [simp]: "i < 8 \<Longrightarrow> long_bytes v ! i = long_byte v i"
  by (simp add: long_bytes_def)

lemma upt_8: "[0..<8] = [0, 1, 2, 3, 4, 5, 6, 7::nat]"
  by (simp add: upt_rec)

lemma bit_long_byte [word_bytes]: "bit (long_byte v i) n \<longleftrightarrow> n < 8 \<and> bit v (8 * i + n)"
  by (auto simp: long_byte_def bit_simps)

lemma bit_push_byte:
  "bit (push_bit (8 * i) (ucast (b :: byte)) :: i64) n \<longleftrightarrow>
   n < 64 \<and> i = n div 8 \<and> bit b (n mod 8)"
proof (cases "i = n div 8")
  case True
  then have "8 * i \<le> n" "n - 8 * i = n mod 8" by (auto simp: minus_mult_div_eq_mod)
  with True show ?thesis by (auto simp: bit_simps)
next
  case False
  then have "\<not> (8 * i \<le> n \<and> n - 8 * i < 8)" by auto
  then have "\<not> (8 * i \<le> n \<and> bit b (n - 8 * i))"
    using bit_imp_le_length [of b "n - 8 * i"] by auto
  with False show ?thesis by (auto simp: bit_simps)
qed

lemma bit_push_bytes:
  "bit (fold (\<lambda>i val. val OR push_bit (8 * i) (ucast (bs ! i))) [0..<k] (0 :: i64)) n \<longleftrightarrow>
   n < 64 \<and> n div 8 < k \<and> bit (bs ! (n div 8) :: byte) (n mod 8)"
  by (induction k) (auto simp: bit_or_iff bit_push_byte less_Suc_eq)

lemma bit_bytes_long:
  "bit (bytes_long bs) n \<longleftrightarrow> n < 64 \<and> bit (bs ! (n div 8)) (n mod 8)"
  unfolding bytes_long_def bit_push_bytes by auto

lemma bytes_long_of_long_bytes [simp]: "bytes_long (long_bytes v) = v"
proof (rule bit_word_eqI)
  fix n assume "n < LENGTH(64)"
  then show "bit (bytes_long (long_bytes v)) n \<longleftrightarrow> bit v n"
    by (simp add: bit_bytes_long bit_long_byte)
qed

lemma long_bytes_of_bytes_long: "length bs = 8 \<Longrightarrow> long_bytes (bytes_long bs) = bs"
proof (rule nth_equalityI)
  fix i assume "length bs = 8" and "i < length (long_bytes (bytes_long bs))"
  then have "i < 8" by simp
  then have "long_byte (bytes_long bs) i = bs ! i"
    by (intro bit_word_eqI) (auto simp: bit_long_byte bit_bytes_long)
  with \<open>i < 8\<close> show "long_bytes (bytes_long bs) ! i = bs ! i" by simp
qed simp

lemma bytes_long_take [simp]: "bytes_long (take 8 bs) = bytes_long bs"
  by (simp add: bytes_long_def upt_8)

lemma bytes_long_cong: "take 8 xs = take 8 ys \<Longrightarrow> bytes_long xs = bytes_long ys"
  by (metis bytes_long_take)

section \<open>Splicing a list\<close>

definition splice_at :: "nat \<Rightarrow> 'a list \<Rightarrow> 'a list \<Rightarrow> 'a list" where
  "splice_at i ys xs = take i xs @ ys @ drop (i + length ys) xs"

lemma length_splice_at [simp]:
  "i + length ys \<le> length xs \<Longrightarrow> length (splice_at i ys xs) = length xs"
  by (simp add: splice_at_def)

lemma nth_splice_at:
  "i + length ys \<le> length xs \<Longrightarrow> k < length xs \<Longrightarrow>
   splice_at i ys xs ! k = (if i \<le> k \<and> k < i + length ys then ys ! (k - i) else xs ! k)"
  by (auto simp: splice_at_def nth_append)

lemma splice_at_same [simp]:
  "i + length ys \<le> length xs \<Longrightarrow> take (length ys) (drop i (splice_at i ys xs)) = ys"
  by (simp add: splice_at_def)

lemma splice_at_other:
  assumes "i + length ys \<le> length xs" and "j + n \<le> i \<or> i + length ys \<le> j" and "j + n \<le> length xs"
  shows "take n (drop j (splice_at i ys xs)) = take n (drop j xs)"
proof (rule nth_equalityI)
  show "length (take n (drop j (splice_at i ys xs))) = length (take n (drop j xs))"
    using assms by simp
next
  fix k assume "k < length (take n (drop j (splice_at i ys xs)))"
  with assms show "take n (drop j (splice_at i ys xs)) ! k = take n (drop j xs) ! k"
    by (auto simp: nth_splice_at)
qed

lemma splice_at_snoc:
  "i + length ys < length xs \<Longrightarrow>
   (splice_at i ys xs)[i + length ys := y] = splice_at i (ys @ [y]) xs"
  by (rule nth_equalityI) (auto simp: nth_splice_at nth_list_update nth_append)

lemma splice_at_Nil [simp]: "splice_at i [] xs = xs"
  by (simp add: splice_at_def)

end
