(* ===== verification/Y64_Mem.thy ===== *)
theory Y64_Mem
  imports Prelude
begin

text \<open>
  Memory and register images of the Y64 simulator (\<^verbatim>\<open>lab4/y64sim.c\<close>): \<^verbatim>\<open>mem_t\<close> with its byte and
  64-bit accessors, \<^verbatim>\<open>init_mem\<close>, \<^verbatim>\<open>dup_mem\<close>, the register file kept in a \<^verbatim>\<open>mem_t\<close>, and the
  comparison behind the final report.  An accessor's result is \<^term>\<open>Some (Some x)\<close> for TRUE,
  \<^term>\<open>Some None\<close> for FALSE and \<^term>\<open>None\<close> when the C code indexes outside \<^verbatim>\<open>m->data\<close>.
\<close>

section \<open>Memory images\<close>

record mem_t =
  mlen :: int
  mdata :: "byte list"

definition BLK_SIZE :: int where "BLK_SIZE = 32"
definition MEM_SIZE :: int where "MEM_SIZE = 8192"
definition REG_SIZE :: int where "REG_SIZE = 15 * 8"

definition get_byte_val :: "mem_t \<Rightarrow> i64 \<Rightarrow> byte option ub" where
  "get_byte_val m addr =
     (if sint addr < 0 \<or> sint addr \<ge> mlen m then Some None
      else map_option Some (arr_get (mdata m) (sint addr)))"

function get_long_loop :: "mem_t \<Rightarrow> i64 \<Rightarrow> nat \<Rightarrow> i64 \<Rightarrow> i64 ub" where
  "get_long_loop m addr i val =
     (if i < 8
      then case arr_get (mdata m) (sint (addr + of_nat i)) of
             None \<Rightarrow> None
           | Some b \<Rightarrow> get_long_loop m addr (Suc i) (val OR push_bit (8 * i) (ucast b))
      else Some val)"
  by pat_completeness auto
termination by (relation "measure (\<lambda>(m, addr, i, val). 8 - i)") auto

declare get_long_loop.simps [simp del]

definition get_long_val :: "mem_t \<Rightarrow> i64 \<Rightarrow> i64 option ub" where
  "get_long_val m addr =
     (if sint addr < 0 \<or> sint (addr + 8) > mlen m then Some None
      else map_option Some (get_long_loop m addr 0 0))"

definition set_byte_val :: "mem_t \<Rightarrow> i64 \<Rightarrow> byte \<Rightarrow> mem_t option ub" where
  "set_byte_val m addr val =
     (if sint addr < 0 \<or> sint addr \<ge> mlen m then Some None
      else map_option (\<lambda>d. Some (m\<lparr>mdata := d\<rparr>)) (arr_set (mdata m) (sint addr) val))"

text \<open>The loop stores the low byte and shifts \<^verbatim>\<open>val\<close> right arithmetically.\<close>

function set_long_loop :: "byte list \<Rightarrow> i64 \<Rightarrow> nat \<Rightarrow> i64 \<Rightarrow> byte list ub" where
  "set_long_loop d addr i val =
     (if i < 8
      then case arr_set d (sint (addr + of_nat i)) (ucast (val AND 0xFF)) of
             None \<Rightarrow> None
           | Some d' \<Rightarrow> set_long_loop d' addr (Suc i) (signed_drop_bit 8 val)
      else Some d)"
  by pat_completeness auto
termination by (relation "measure (\<lambda>(d, addr, i, val). 8 - i)") auto

declare set_long_loop.simps [simp del]

definition set_long_val :: "mem_t \<Rightarrow> i64 \<Rightarrow> i64 \<Rightarrow> mem_t option ub" where
  "set_long_val m addr val =
     (if sint addr < 0 \<or> sint (addr + 8) > mlen m then Some None
      else map_option (\<lambda>d. Some (m\<lparr>mdata := d\<rparr>)) (set_long_loop (mdata m) addr 0 val))"

text \<open>\<^verbatim>\<open>calloc\<close> zeroes the bytes; the length is rounded up to a block.\<close>

definition init_mem :: "int \<Rightarrow> mem_t" where
  "init_mem len =
     (let len = ((len + BLK_SIZE - 1) div BLK_SIZE) * BLK_SIZE
      in \<lparr>mlen = len, mdata = replicate (nat len) 0\<rparr>)"

definition dup_mem :: "mem_t \<Rightarrow> mem_t" where
  "dup_mem oldm =
     (let newm = init_mem (mlen oldm)
      in newm\<lparr>mdata := splice_at 0 (take (nat (mlen oldm)) (mdata oldm)) (mdata newm)\<rparr>)"

section \<open>Registers\<close>

definition REG_NONE :: nat where "REG_NONE = 15"
definition REG_RSP :: nat where "REG_RSP = 4"

definition get_reg_val :: "mem_t \<Rightarrow> nat \<Rightarrow> i64 ub" where
  "get_reg_val r rid =
     (if rid \<ge> REG_NONE then Some 0
      else map_option (\<lambda>v. case v of None \<Rightarrow> 0 | Some x \<Rightarrow> x) (get_long_val r (of_nat (rid * 8))))"

definition set_reg_val :: "mem_t \<Rightarrow> nat \<Rightarrow> i64 \<Rightarrow> mem_t ub" where
  "set_reg_val r rid val =
     (if rid < REG_NONE
      then map_option (\<lambda>r'. case r' of None \<Rightarrow> r | Some x \<Rightarrow> x) (set_long_val r (of_nat (rid * 8)) val)
      else Some r)"

definition init_reg :: mem_t where
  "init_reg = init_mem REG_SIZE"

definition dup_reg :: "mem_t \<Rightarrow> mem_t" where
  "dup_reg oldr = dup_mem oldr"

section \<open>Comparing two images\<close>

text \<open>
  \<^verbatim>\<open>diff_mem\<close> walks the common length in steps of eight and reports, for each position whose
  values differ, the line \<open>(pos, ov, nv)\<close>; with no output file it stops at the first.  A refused
  read leaves the 0 the variable was initialised with.
\<close>

function diff_loop :: "mem_t \<Rightarrow> mem_t \<Rightarrow> bool \<Rightarrow> int \<Rightarrow> int \<Rightarrow> bool \<Rightarrow> (int \<times> i64 \<times> i64) list \<Rightarrow>
    (bool \<times> (int \<times> i64 \<times> i64) list) ub" where
  "diff_loop oldm newm outfile len pos diff out =
     (if (\<not> diff \<or> outfile) \<and> pos < len
      then do {
        ov \<leftarrow> map_option (\<lambda>v. case v of None \<Rightarrow> 0 | Some x \<Rightarrow> x) (get_long_val oldm (word_of_int pos));
        nv \<leftarrow> map_option (\<lambda>v. case v of None \<Rightarrow> 0 | Some x \<Rightarrow> x) (get_long_val newm (word_of_int pos));
        diff_loop oldm newm outfile len (pos + 8)
          (if nv \<noteq> ov then True else diff)
          (if nv \<noteq> ov \<and> outfile then out @ [(pos, ov, nv)] else out)
      }
      else Some (diff, out))"
  by pat_completeness auto
termination by (relation "measure (\<lambda>(om, nm, f, len, pos, d, out). nat (len - pos))") auto

declare diff_loop.simps [simp del]

definition diff_mem :: "mem_t \<Rightarrow> mem_t \<Rightarrow> bool \<Rightarrow> (bool \<times> (int \<times> i64 \<times> i64) list) ub" where
  "diff_mem oldm newm outfile =
     (let len = (if mlen newm < mlen oldm then mlen newm else mlen oldm)
      in diff_loop oldm newm outfile len 0 False [])"

definition diff_reg :: "mem_t \<Rightarrow> mem_t \<Rightarrow> bool \<Rightarrow> (bool \<times> (int \<times> i64 \<times> i64) list) ub" where
  "diff_reg oldr newr outfile =
     (let len = (if mlen newr < mlen oldr then mlen newr else mlen oldr)
      in diff_loop oldr newr outfile len 0 False [])"

section \<open>Well-formed images\<close>

text \<open>
  \<^verbatim>\<open>len\<close> is the number of allocated bytes, a positive \<^verbatim>\<open>int\<close>, and a whole number of blocks.
  Every image the simulator makes is one (\<^verbatim>\<open>init_mem\<close> of a positive length).
\<close>

definition wf_mem :: "mem_t \<Rightarrow> bool" where
  "wf_mem m \<longleftrightarrow> mlen m = int (length (mdata m)) \<and> 0 < mlen m \<and> mlen m < 2 ^ 31 \<and>
     mlen m mod BLK_SIZE = 0"

text \<open>The range in which \<^verbatim>\<open>addr + 8\<close> exceeds the 64-bit range.\<close>

definition wraps :: "i64 \<Rightarrow> bool" where
  "wraps addr \<longleftrightarrow> sint addr \<ge> 2 ^ 63 - 8"

definition in_long :: "mem_t \<Rightarrow> i64 \<Rightarrow> bool" where
  "in_long m addr \<longleftrightarrow> 0 \<le> sint addr \<and> sint addr + 8 \<le> mlen m"

section \<open>Address arithmetic\<close>

lemma sint_add_small:
  fixes a :: i64
  assumes "0 \<le> sint a" and "0 \<le> k" and "sint a + k < 2 ^ 63"
  shows "sint (a + word_of_int k) = sint a + k"
proof -
  have "sint (word_of_int k :: i64) = k"
    using assms by (simp add: sint_sbintrunc' signed_take_bit_int_eq_self)
  then show ?thesis
    using assms by (simp add: sint_word_add signed_take_bit_int_eq_self)
qed

lemma sint_add_of_nat:
  fixes a :: i64
  assumes "0 \<le> sint a" and "sint a + int k < 2 ^ 63"
  shows "sint (a + of_nat k) = sint a + int k"
  using sint_add_small [of a "int k"] assms by simp

lemma sint_add_8:
  fixes a :: i64
  assumes "0 \<le> sint a"
  shows "sint (a + 8) = (if wraps a then sint a + 8 - 2 ^ 64 else sint a + 8)"
proof (cases "wraps a")
  case False
  then show ?thesis
    using sint_add_small [of a 8] assms by (simp add: wraps_def)
next
  case True
  have *: "sint a < 2 ^ 63" using sint_lt [of a] by simp
  have "a + 8 = word_of_int (sint a) + word_of_int 8 - word_of_int (2 ^ 64)"
    by simp
  also have "\<dots> = word_of_int (sint a + 8 - 2 ^ 64)"
    by (simp only: wi_hom_add wi_hom_sub)
  finally have "sint (a + 8) = signed_take_bit 63 (sint a + 8 - 2 ^ 64)"
    by (simp only: sint_sbintrunc') simp
  also have "\<dots> = sint a + 8 - 2 ^ 64"
    using True * by (intro signed_take_bit_int_eq_self) (auto simp: wraps_def)
  finally show ?thesis using True by simp
qed

lemma sint_of_nat_small:
  "int k < 2 ^ 63 \<Longrightarrow> sint (of_nat k :: i64) = int k"
  using sint_add_of_nat [of 0 k] by simp

lemma in_long_not_wraps: "wf_mem m \<Longrightarrow> in_long m a \<Longrightarrow> \<not> wraps a"
  by (auto simp: in_long_def wraps_def wf_mem_def)

section \<open>What the accessors do on a well-formed image\<close>

lemma get_byte_val_wf:
  "wf_mem m \<Longrightarrow> get_byte_val m a =
     Some (if 0 \<le> sint a \<and> sint a < mlen m then Some (mdata m ! nat (sint a)) else None)"
  by (auto simp: get_byte_val_def wf_mem_def)

lemma set_byte_val_wf:
  "wf_mem m \<Longrightarrow> set_byte_val m a b =
     Some (if 0 \<le> sint a \<and> sint a < mlen m
           then Some (m\<lparr>mdata := (mdata m)[nat (sint a) := b]\<rparr>) else None)"
  by (auto simp: set_byte_val_def wf_mem_def)

lemma get_long_loop_in:
  assumes "wf_mem m" and "in_long m a" and "i \<le> 8"
  shows "get_long_loop m a i val =
    Some (fold (\<lambda>j v. v OR push_bit (8 * j) (ucast (drop (nat (sint a)) (mdata m) ! j))) [i..<8] val)"
  using assms
proof (induction m a i val rule: get_long_loop.induct)
  case (1 m a i val)
  show ?case
  proof (cases "i < 8")
    case False
    with 1 show ?thesis by (subst get_long_loop.simps) simp
  next
    case True
    have s: "sint (a + of_nat i) = sint a + int i"
      using 1 True by (intro sint_add_of_nat) (auto simp: in_long_def wf_mem_def)
    have n: "nat (sint a + int i) = nat (sint a) + i"
      using 1 by (simp add: in_long_def nat_add_distrib)
    have g: "arr_get (mdata m) (sint (a + of_nat i)) = Some (drop (nat (sint a)) (mdata m) ! i)"
    proof -
      have "sint a + int i < int (length (mdata m))" "0 \<le> sint a"
        using 1 True by (auto simp: in_long_def wf_mem_def)
      then show ?thesis unfolding s by (simp add: n nat_le_iff)
    qed
    have "get_long_loop m a i val = get_long_loop m a (Suc i)
        (val OR push_bit (8 * i) (ucast (drop (nat (sint a)) (mdata m) ! i)))"
      using True by (subst get_long_loop.simps) (simp add: g)
    also have "\<dots> = Some (fold (\<lambda>j v. v OR push_bit (8 * j) (ucast (drop (nat (sint a)) (mdata m) ! j)))
        [Suc i..<8] (val OR push_bit (8 * i) (ucast (drop (nat (sint a)) (mdata m) ! i))))"
      using 1 True g by simp
    finally show ?thesis using True by (simp add: upt_conv_Cons)
  qed
qed

lemma get_long_val_in:
  assumes "wf_mem m" and "in_long m a"
  shows "get_long_val m a = Some (Some (bytes_long (drop (nat (sint a)) (mdata m))))"
  using assms in_long_not_wraps [OF assms]
  by (auto simp: get_long_val_def get_long_loop_in sint_add_8 in_long_def bytes_long_def)

lemma get_long_val_refused:
  assumes "wf_mem m" and "\<not> in_long m a" and "\<not> wraps a"
  shows "get_long_val m a = Some None"
  using assms sint_add_8 [of a] by (cases "sint a < 0") (auto simp: get_long_val_def in_long_def)

lemma get_long_val_wraps:
  assumes "wf_mem m" and "wraps a"
  shows "get_long_val m a = None"
proof -
  have "0 \<le> sint a" "sint a < 2 ^ 63" using assms sint_lt [of a] by (auto simp: wraps_def)
  then have "sint (a + 8) < 0" using assms by (simp add: sint_add_8)
  moreover have "arr_get (mdata m) (sint a) = None"
    using assms by (intro arr_get_out) (auto simp: wf_mem_def wraps_def)
  then have "get_long_loop m a 0 0 = None" by (simp add: get_long_loop.simps)
  ultimately show ?thesis using assms \<open>0 \<le> sint a\<close> by (simp add: get_long_val_def wf_mem_def)
qed

lemma signed_shift_bytes:
  "i < 8 \<Longrightarrow> ucast (signed_drop_bit (8 * i) v AND 0xFF :: i64) = long_byte v i"
  by (rule bit_word_eqI)
     (auto simp: bit_simps long_byte_def less_Suc_eq numeral_eq_Suc)

text \<open>The low byte of the value shifted right \<open>i\<close> times by eight is its \<open>i\<close>-th byte.\<close>

lemma set_long_loop_in:
  assumes "wf_mem m" and "in_long m a" and "i \<le> 8"
  shows "set_long_loop (splice_at (nat (sint a)) (map (long_byte v) [0..<i]) (mdata m)) a i
           (signed_drop_bit (8 * i) v) =
         Some (splice_at (nat (sint a)) (long_bytes v) (mdata m))"
  using assms(3)
proof (induction i rule: inc_induct)
  case base
  show ?case by (simp add: set_long_loop.simps long_bytes_def)
next
  case (step i)
  let ?n = "nat (sint a)" and ?ys = "map (long_byte v) [0..<i]"
  have b: "0 \<le> sint a" "sint a + 8 \<le> int (length (mdata m))" "mlen m < 2 ^ 31"
    using assms by (auto simp: in_long_def wf_mem_def)
  have s: "sint (a + of_nat i) = sint a + int i"
    using b step assms by (intro sint_add_of_nat) (auto simp: wf_mem_def)
  have n: "nat (sint a + int i) = ?n + length ?ys" using b by simp
  have "?n + length ?ys < length (mdata m)" using b step by simp
  then have "arr_set (splice_at ?n ?ys (mdata m)) (sint (a + of_nat i)) (long_byte v i) =
     Some (splice_at ?n (?ys @ [long_byte v i]) (mdata m))"
    using b step unfolding s by (simp add: n [simplified] splice_at_snoc [of ?n ?ys, simplified])
  moreover have "signed_drop_bit 8 (signed_drop_bit (8 * i) v) = signed_drop_bit (8 * Suc i) v"
    by simp
  ultimately show ?case
    using step by (subst set_long_loop.simps) (simp add: signed_shift_bytes)
qed

lemma set_long_val_in:
  assumes "wf_mem m" and "in_long m a"
  shows "set_long_val m a v =
    Some (Some (m\<lparr>mdata := splice_at (nat (sint a)) (long_bytes v) (mdata m)\<rparr>))"
  using set_long_loop_in [OF assms, of 0 v] assms in_long_not_wraps [OF assms]
  by (auto simp: set_long_val_def sint_add_8 in_long_def)

lemma set_long_val_refused:
  assumes "wf_mem m" and "\<not> in_long m a" and "\<not> wraps a"
  shows "set_long_val m a v = Some None"
  using assms sint_add_8 [of a] by (cases "sint a < 0") (auto simp: set_long_val_def in_long_def)

lemma set_long_val_wraps:
  assumes "wf_mem m" and "wraps a"
  shows "set_long_val m a v = None"
proof -
  have "0 \<le> sint a" "sint a < 2 ^ 63" using assms sint_lt [of a] by (auto simp: wraps_def)
  then have "sint (a + 8) < 0" using assms by (simp add: sint_add_8)
  moreover have "arr_set (mdata m) (sint a) b = None" for b
    using assms by (intro arr_set_out) (auto simp: wf_mem_def wraps_def)
  then have "set_long_loop (mdata m) a 0 v = None" by (simp add: set_long_loop.simps)
  ultimately show ?thesis using assms \<open>0 \<le> sint a\<close> by (simp add: set_long_val_def wf_mem_def)
qed

lemmas mem_access =
  get_long_val_in get_long_val_refused get_long_val_wraps
  set_long_val_in set_long_val_refused set_long_val_wraps

lemma splice_in_long:
  "wf_mem m \<Longrightarrow> in_long m a \<Longrightarrow>
   length (splice_at (nat (sint a)) (long_bytes v) (mdata m)) = length (mdata m)"
  by (subst length_splice_at) (auto simp: in_long_def wf_mem_def)

lemma set_long_val_wf [wf_intros]:
  assumes "wf_mem m" and "set_long_val m a v = Some (Some m')"
  shows "wf_mem m' \<and> mlen m' = mlen m"
proof -
  have "in_long m a"
    using assms mem_access(4-6) [of m a v] by fastforce
  with assms set_long_val_in [of m a v] show ?thesis
    by (auto simp: wf_mem_def splice_in_long)
qed

lemma init_mem_wf [wf_intros]:
  "0 < len \<Longrightarrow> len < 2 ^ 31 - 31 \<Longrightarrow> wf_mem (init_mem len)"
  by (auto simp: wf_mem_def init_mem_def Let_def BLK_SIZE_def)

lemma dup_mem_eq: "wf_mem m \<Longrightarrow> dup_mem m = m"
proof -
  assume wf: "wf_mem m"
  then have "32 dvd mlen m" by (auto simp: wf_mem_def BLK_SIZE_def)
  then obtain k where k: "mlen m = 32 * k" by (elim dvdE)
  then have "(mlen m + 32 - 1) div 32 * 32 = mlen m" by simp
  with wf show ?thesis
    by (simp add: wf_mem_def dup_mem_def init_mem_def Let_def BLK_SIZE_def splice_at_def)
qed

section \<open>Registers\<close>

definition wf_reg :: "mem_t \<Rightarrow> bool" where
  "wf_reg r \<longleftrightarrow> wf_mem r \<and> mlen r = 128"

text \<open>The register file read as a function of the register number.\<close>

definition reg_at :: "mem_t \<Rightarrow> nat \<Rightarrow> i64" where
  "reg_at r k = (if k < REG_NONE then bytes_long (drop (8 * k) (mdata r)) else 0)"

lemma reg_in_long: "wf_reg r \<Longrightarrow> k < REG_NONE \<Longrightarrow> in_long r (of_nat (k * 8)) \<and>
    nat (sint (of_nat (k * 8) :: i64)) = 8 * k"
  using sint_of_nat_small [of "k * 8"] by (simp add: wf_reg_def REG_NONE_def in_long_def)

lemma get_reg_val_wf: "wf_reg r \<Longrightarrow> get_reg_val r k = Some (reg_at r k)"
  using reg_in_long [of r k]
  by (auto simp: get_reg_val_def reg_at_def get_long_val_in wf_reg_def)

lemma set_reg_val_wf:
  assumes "wf_reg r"
  obtains r' where "set_reg_val r k v = Some r'" and "wf_reg r'"
    and "\<And>j. reg_at r' j = (if j = k \<and> k < REG_NONE then v else reg_at r j)"
proof (cases "k < REG_NONE")
  case False
  with assms that [of r] show ?thesis by (simp add: set_reg_val_def)
next
  case True
  let ?r' = "r\<lparr>mdata := splice_at (8 * k) (long_bytes v) (mdata r)\<rparr>"
  have w: "wf_mem r" and in_l: "in_long r (of_nat (k * 8))"
    and n: "nat (sint (of_nat (k * 8) :: i64)) = 8 * k"
    using assms True reg_in_long by (auto simp: wf_reg_def)
  have set: "set_long_val r (of_nat (k * 8)) v = Some (Some ?r')"
    using set_long_val_in [OF w in_l] by (simp only: n)
  have len: "length (mdata r) = 128" using assms by (simp add: wf_reg_def wf_mem_def)
  have self: "bytes_long (drop (8 * k) (mdata ?r')) = v"
  proof -
    have "take 8 (drop (8 * k) (mdata ?r')) = take 8 (long_bytes v)"
      using len True splice_at_same [of "8 * k" "long_bytes v" "mdata r"] by (simp add: REG_NONE_def)
    from bytes_long_cong [OF this] show ?thesis by simp
  qed
  have other: "bytes_long (drop (8 * j) (mdata ?r')) = bytes_long (drop (8 * j) (mdata r))"
    if "j < REG_NONE" "j \<noteq> k" for j
  proof (rule bytes_long_cong)
    show "take 8 (drop (8 * j) (mdata ?r')) = take 8 (drop (8 * j) (mdata r))"
      using that True len unfolding REG_NONE_def
      by (simp, intro splice_at_other) auto
  qed
  have "reg_at ?r' j = (if j = k then v else reg_at r j)" for j
    using self other [of j] True by (auto simp: reg_at_def)
  with True set show ?thesis
    using that [of ?r'] set_long_val_wf [OF w set] assms
    by (simp add: set_reg_val_def wf_reg_def)
qed

section \<open>The comparison\<close>

text \<open>The 64-bit value of an image at the eight-byte position \<open>k\<close>.\<close>

definition long_at :: "mem_t \<Rightarrow> nat \<Rightarrow> i64" where
  "long_at m k = bytes_long (drop (8 * k) (mdata m))"

lemma read_at_pos:
  assumes "wf_mem m" and "0 \<le> pos" and "pos + 8 \<le> mlen m" and "pos = 8 * int k"
  shows "get_long_val m (word_of_int pos) = Some (Some (long_at m k))"
proof -
  have s: "sint (word_of_int pos :: i64) = pos"
    using sint_add_small [of 0 pos] assms by (simp add: wf_mem_def)
  have "nat pos = 8 * k" using assms by simp
  with s show ?thesis
    using get_long_val_in [of m "word_of_int pos"] assms by (simp add: in_long_def long_at_def)
qed

lemma diff_loop_flag:
  assumes "wf_mem m" and "wf_mem m'" and "mlen m' = mlen m" and "pos = 8 * int k"
    and "int n * 8 = mlen m - pos"
  shows "\<exists>out'. diff_loop m m' f (mlen m) pos d out =
    Some (d \<or> (\<exists>j. k \<le> j \<and> j < k + n \<and> long_at m j \<noteq> long_at m' j), out')"
  using assms(4,5)
proof (induction n arbitrary: k pos d out)
  case 0
  have "\<not> (\<exists>j. k \<le> j \<and> j < k + 0 \<and> long_at m j \<noteq> long_at m' j)" by auto
  with 0 show ?case by (subst diff_loop.simps) (simp del: not_ex)
next
  case (Suc n)
  show ?case
  proof (cases "\<not> d \<or> f")
    case False
    then show ?thesis by (simp add: diff_loop.simps)
  next
    case True
    have p: "pos + 8 = 8 * int (Suc k)" "int n * 8 = mlen m - (pos + 8)" using Suc.prems by auto
    have rd: "get_long_val x (word_of_int pos) = Some (Some (long_at x k))"
      if "wf_mem x" "mlen x = mlen m" for x
      by (rule read_at_pos) (use Suc.prems that in auto)
    note rd = rd [OF assms(1) refl] rd [OF assms(2,3)]
    have range: "(\<exists>j. k \<le> j \<and> j < k + Suc n \<and> long_at m j \<noteq> long_at m' j) \<longleftrightarrow>
       long_at m k \<noteq> long_at m' k \<or> (\<exists>j. Suc k \<le> j \<and> j < Suc k + n \<and> long_at m j \<noteq> long_at m' j)"
      by (metis Suc_le_eq add_Suc_right add_Suc_shift le_eq_less_or_eq less_add_Suc1)
    have "pos < mlen m" using Suc.prems by simp
    let ?ne = "long_at m' k \<noteq> long_at m k"
    have "diff_loop m m' f (mlen m) pos d out =
       diff_loop m m' f (mlen m) (pos + 8) (d \<or> ?ne)
         (if ?ne \<and> f then out @ [(pos, long_at m k, long_at m' k)] else out)"
      using True rd \<open>pos < mlen m\<close> by (subst diff_loop.simps) auto
    moreover have "d \<or> (\<exists>j. k \<le> j \<and> j < k + Suc n \<and> long_at m j \<noteq> long_at m' j) \<longleftrightarrow>
       (d \<or> ?ne) \<or> (\<exists>j. Suc k \<le> j \<and> j < Suc k + n \<and> long_at m j \<noteq> long_at m' j)"
      unfolding range by (cases "long_at m' k = long_at m k") simp_all
    ultimately show ?thesis using Suc.IH [OF p] by (simp only:)
  qed
qed

lemma longs_eq_data:
  assumes "wf_mem m" and "wf_mem m'" and "mlen m' = mlen m" and "8 * int n = mlen m"
    and eq: "\<And>j. j < n \<Longrightarrow> long_at m j = long_at m' j"
  shows "mdata m = mdata m'"
proof (rule nth_equalityI)
  show len: "length (mdata m) = length (mdata m')" using assms by (simp add: wf_mem_def)
  fix i assume i: "i < length (mdata m)"
  define j where "j = i div 8"
  have j: "j < n" and sum: "i = 8 * j + i mod 8" using i assms by (auto simp: wf_mem_def j_def)
  have l: "8 * j + 8 \<le> length (mdata m)" using j assms by (simp add: wf_mem_def)
  have byte: "mdata x ! i = long_bytes (long_at x j) ! (i mod 8)"
    if "length (mdata x) = length (mdata m)" for x
  proof -
    have "long_bytes (bytes_long (take 8 (drop (8 * j) (mdata x)))) = take 8 (drop (8 * j) (mdata x))"
      using l that by (intro long_bytes_of_bytes_long) simp
    then show ?thesis
      using sum that l by (simp add: long_at_def)
  qed
  from byte [of m] byte [of m'] eq [OF j] len show "mdata m ! i = mdata m' ! i" by simp
qed

lemma diff_mem_wf:
  assumes "wf_mem m" and "wf_mem m'" and "mlen m' = mlen m"
  shows "\<exists>out. diff_mem m m' f = Some (mdata m \<noteq> mdata m', out)"
proof -
  from assms(1) have "8 dvd mlen m" unfolding wf_mem_def BLK_SIZE_def by presburger
  then obtain k where k: "mlen m = 8 * k" by (elim dvdE)
  define n where "n = nat k"
  have n: "8 * int n = mlen m" using k assms(1) by (simp add: n_def wf_mem_def)
  obtain out where
    out: "diff_mem m m' f = Some (\<exists>j<n. long_at m j \<noteq> long_at m' j, out)"
    using diff_loop_flag [OF assms, of 0 0 n f False "[]"] n assms(3)
    by (auto simp: diff_mem_def)
  have "(\<exists>j<n. long_at m j \<noteq> long_at m' j) \<longleftrightarrow> mdata m \<noteq> mdata m'"
    using longs_eq_data [OF assms n] by (auto simp: long_at_def)
  with out show ?thesis by auto
qed

end
