(* ===== verification/Y64_Sim.thy ===== *)
theory Y64_Sim
  imports Y64_Mem
begin

text \<open>
  The Y64 instruction-set simulator (\<^verbatim>\<open>lab4/y64sim.c\<close>): condition codes, the ALU, \<^verbatim>\<open>nexti\<close> (one
  instruction, with every early return), \<^verbatim>\<open>load_binfile\<close> and the step loop of \<^verbatim>\<open>main\<close>.
\<close>

section \<open>Encodings of \<^verbatim>\<open>y64sim.h\<close>\<close>

definition GET_ZF :: "byte \<Rightarrow> byte" where "GET_ZF cc = drop_bit 2 cc AND 1"
definition GET_SF :: "byte \<Rightarrow> byte" where "GET_SF cc = drop_bit 1 cc AND 1"
definition GET_OF :: "byte \<Rightarrow> byte" where "GET_OF cc = drop_bit 0 cc AND 1"

definition PACK_CC :: "bool \<Rightarrow> bool \<Rightarrow> bool \<Rightarrow> byte" where
  "PACK_CC z s v = push_bit 2 (of_bool z) OR push_bit 1 (of_bool s) OR push_bit 0 (of_bool v)"

definition DEFAULT_CC :: byte where "DEFAULT_CC = PACK_CC True False False"

definition HIGH :: "byte \<Rightarrow> nat" where "HIGH pack = unat (drop_bit 4 pack AND 0xF)"
definition LOW :: "byte \<Rightarrow> nat" where "LOW pack = unat (pack AND 0xF)"
definition HPACK :: "nat \<Rightarrow> nat \<Rightarrow> byte" where
  "HPACK hi lo = push_bit 4 (of_nat hi AND 0xF) OR (of_nat lo AND 0xF)"

text \<open>The enumerations \<^verbatim>\<open>itype_t\<close>, \<^verbatim>\<open>alu_t\<close> and \<^verbatim>\<open>cond_t\<close> by their values.\<close>

abbreviation (input) "I_HALT \<equiv> 0::nat"
abbreviation (input) "I_NOP \<equiv> 1::nat"
abbreviation (input) "I_RRMOVQ \<equiv> 2::nat"
abbreviation (input) "I_IRMOVQ \<equiv> 3::nat"
abbreviation (input) "I_RMMOVQ \<equiv> 4::nat"
abbreviation (input) "I_MRMOVQ \<equiv> 5::nat"
abbreviation (input) "I_ALU \<equiv> 6::nat"
abbreviation (input) "I_JMP \<equiv> 7::nat"
abbreviation (input) "I_CALL \<equiv> 8::nat"
abbreviation (input) "I_RET \<equiv> 9::nat"
abbreviation (input) "I_PUSHQ \<equiv> 10::nat"
abbreviation (input) "I_POPQ \<equiv> 11::nat"

abbreviation (input) "A_ADD \<equiv> 0::nat"
abbreviation (input) "A_SUB \<equiv> 1::nat"
abbreviation (input) "A_AND \<equiv> 2::nat"
abbreviation (input) "A_XOR \<equiv> 3::nat"
abbreviation (input) "A_NONE \<equiv> 4::nat"

abbreviation (input) "C_YES \<equiv> 0::nat"
abbreviation (input) "C_LE \<equiv> 1::nat"
abbreviation (input) "C_L \<equiv> 2::nat"
abbreviation (input) "C_E \<equiv> 3::nat"
abbreviation (input) "C_NE \<equiv> 4::nat"
abbreviation (input) "C_GE \<equiv> 5::nat"
abbreviation (input) "C_G \<equiv> 6::nat"

datatype stat_t = STAT_AOK | STAT_HLT | STAT_ADR | STAT_INS

record y64sim =
  sim_pc :: i64
  sim_r :: mem_t
  sim_m :: mem_t
  sim_cc :: byte

definition new_y64sim :: "int \<Rightarrow> y64sim" where
  "new_y64sim slen = \<lparr>sim_pc = 0, sim_r = init_reg, sim_m = init_mem slen, sim_cc = DEFAULT_CC\<rparr>"

section \<open>ALU and condition codes\<close>

definition compute_alu :: "nat \<Rightarrow> i64 \<Rightarrow> i64 \<Rightarrow> i64" where
  "compute_alu op argA argB =
     (if op = A_ADD then argA + argB
      else if op = A_SUB then argB - argA
      else if op = A_AND then argA AND argB
      else if op = A_XOR then argA XOR argB
      else 0)"

text \<open>The C cast \<^verbatim>\<open>(int)x\<close> of a 64-bit value: its low 32 bits, read as signed.\<close>

definition int_of_long :: "i64 \<Rightarrow> int" where
  "int_of_long x = sint (ucast x :: i32)"

definition compute_cc :: "nat \<Rightarrow> i64 \<Rightarrow> i64 \<Rightarrow> i64 \<Rightarrow> byte" where
  "compute_cc op argA argB val =
     (let zero = (val = 0);
          sign = (int_of_long val < 0);
          ovf = (if op = A_ADD then
                   (int_of_long argA < 0 \<and> int_of_long argB < 0 \<and> int_of_long val > 0) \<or>
                   (int_of_long argA > 0 \<and> int_of_long argB > 0 \<and> int_of_long val < 0)
                 else if op = A_SUB then
                   (int_of_long argA < 0 \<and> int_of_long argB > 0 \<and> int_of_long val < 0) \<or>
                   (int_of_long argA > 0 \<and> int_of_long argB < 0 \<and> int_of_long val > 0)
                 else False)
      in PACK_CC zero sign ovf)"

definition cond_doit :: "byte \<Rightarrow> nat \<Rightarrow> bool" where
  "cond_doit flags cond =
     (let ZF = GET_ZF flags; SF = GET_SF flags; OF = GET_OF flags
      in if cond = C_YES then True
         else if cond = C_LE then ((SF XOR OF) OR ZF) \<noteq> 0
         else if cond = C_L then (SF XOR OF) \<noteq> 0
         else if cond = C_E then ZF \<noteq> 0
         else if cond = C_NE then ZF = 0
         else if cond = C_GE then (SF XOR OF) = 0
         else if cond = C_G then (SF XOR OF) = 0 \<and> ZF = 0
         else False)"

section \<open>One instruction\<close>

text \<open>The second byte (register numbers) and the immediate, when the instruction has them.\<close>

definition fetch_regs :: "y64sim \<Rightarrow> nat \<Rightarrow> i64 \<Rightarrow> (nat \<times> nat \<times> i64) option ub" where
  "fetch_regs sim icode next_pc =
     (if icode \<in> {I_HALT, I_NOP, I_JMP, I_CALL, I_RET} then Some (Some (0, 0, next_pc))
      else map_option (map_option (\<lambda>b. (HIGH b, LOW b, next_pc + 1))) (get_byte_val (sim_m sim) next_pc))"

definition fetch_imm :: "y64sim \<Rightarrow> nat \<Rightarrow> i64 \<Rightarrow> (i64 \<times> i64) option ub" where
  "fetch_imm sim icode next_pc =
     (if icode \<in> {I_IRMOVQ, I_RMMOVQ, I_MRMOVQ, I_JMP, I_CALL}
      then map_option (map_option (\<lambda>a. (a, next_pc + 8))) (get_long_val (sim_m sim) next_pc)
      else Some (Some (0, next_pc)))"

definition finish :: "y64sim \<Rightarrow> i64 \<Rightarrow> (stat_t \<times> y64sim) ub" where
  "finish sim next_pc = Some (STAT_AOK, sim\<lparr>sim_pc := next_pc\<rparr>)"

definition do_rrmovq :: "y64sim \<Rightarrow> nat \<Rightarrow> nat \<Rightarrow> nat \<Rightarrow> i64 \<Rightarrow> (stat_t \<times> y64sim) ub" where
  "do_rrmovq sim ifun raid rbid next_pc =
     (if cond_doit (sim_cc sim) ifun
      then do {
        rA_val \<leftarrow> get_reg_val (sim_r sim) raid;
        r' \<leftarrow> set_reg_val (sim_r sim) rbid rA_val;
        finish (sim\<lparr>sim_r := r'\<rparr>) next_pc
      }
      else finish sim next_pc)"

definition do_irmovq :: "y64sim \<Rightarrow> nat \<Rightarrow> i64 \<Rightarrow> i64 \<Rightarrow> (stat_t \<times> y64sim) ub" where
  "do_irmovq sim rbid addr next_pc = do {
     r' \<leftarrow> set_reg_val (sim_r sim) rbid addr;
     finish (sim\<lparr>sim_r := r'\<rparr>) next_pc
   }"

definition do_rmmovq :: "y64sim \<Rightarrow> nat \<Rightarrow> nat \<Rightarrow> i64 \<Rightarrow> i64 \<Rightarrow> (stat_t \<times> y64sim) ub" where
  "do_rmmovq sim raid rbid addr next_pc = do {
     rA_val \<leftarrow> get_reg_val (sim_r sim) raid;
     rB_val \<leftarrow> get_reg_val (sim_r sim) rbid;
     let rE_val = compute_alu A_ADD rB_val addr;
     mo \<leftarrow> set_long_val (sim_m sim) rE_val rA_val;
     (case mo of None \<Rightarrow> Some (STAT_ADR, sim)
               | Some m' \<Rightarrow> finish (sim\<lparr>sim_m := m'\<rparr>) next_pc)
   }"

definition do_mrmovq :: "y64sim \<Rightarrow> nat \<Rightarrow> nat \<Rightarrow> i64 \<Rightarrow> i64 \<Rightarrow> (stat_t \<times> y64sim) ub" where
  "do_mrmovq sim raid rbid addr next_pc = do {
     rB_val \<leftarrow> get_reg_val (sim_r sim) rbid;
     let rE_val = compute_alu A_ADD rB_val addr;
     vo \<leftarrow> get_long_val (sim_m sim) rE_val;
     (case vo of None \<Rightarrow> Some (STAT_ADR, sim)
               | Some rB_mval \<Rightarrow> do {
                   r' \<leftarrow> set_reg_val (sim_r sim) raid rB_mval;
                   finish (sim\<lparr>sim_r := r'\<rparr>) next_pc
                 })
   }"

definition do_alu :: "y64sim \<Rightarrow> nat \<Rightarrow> nat \<Rightarrow> nat \<Rightarrow> i64 \<Rightarrow> (stat_t \<times> y64sim) ub" where
  "do_alu sim ifun raid rbid next_pc =
     (if A_NONE \<le> ifun then Some (STAT_INS, sim)
      else do {
        rA_val \<leftarrow> get_reg_val (sim_r sim) raid;
        rB_val \<leftarrow> get_reg_val (sim_r sim) rbid;
        let rE_val = compute_alu ifun rA_val rB_val;
        let cc' = compute_cc ifun rA_val rB_val rE_val;
        r' \<leftarrow> set_reg_val (sim_r sim) rbid rE_val;
        finish (sim\<lparr>sim_cc := cc', sim_r := r'\<rparr>) next_pc
      })"

definition do_jmp :: "y64sim \<Rightarrow> nat \<Rightarrow> i64 \<Rightarrow> i64 \<Rightarrow> (stat_t \<times> y64sim) ub" where
  "do_jmp sim ifun addr next_pc =
     (if C_G < ifun then Some (STAT_INS, sim)
      else finish sim (if cond_doit (sim_cc sim) ifun then addr else next_pc))"

text \<open>\<^verbatim>\<open>%rsp\<close> is written before the store is tried, so it stays changed when the store is refused.\<close>

definition do_call :: "y64sim \<Rightarrow> i64 \<Rightarrow> i64 \<Rightarrow> (stat_t \<times> y64sim) ub" where
  "do_call sim addr next_pc = do {
     rsp \<leftarrow> get_reg_val (sim_r sim) REG_RSP;
     let rE_val = compute_alu A_SUB 8 rsp;
     r' \<leftarrow> set_reg_val (sim_r sim) REG_RSP rE_val;
     let sim' = sim\<lparr>sim_r := r'\<rparr>;
     mo \<leftarrow> set_long_val (sim_m sim') rE_val next_pc;
     (case mo of None \<Rightarrow> Some (STAT_ADR, sim')
               | Some m' \<Rightarrow> finish (sim'\<lparr>sim_m := m'\<rparr>) addr)
   }"

definition do_ret :: "y64sim \<Rightarrow> (stat_t \<times> y64sim) ub" where
  "do_ret sim = do {
     rsp \<leftarrow> get_reg_val (sim_r sim) REG_RSP;
     vo \<leftarrow> get_long_val (sim_m sim) rsp;
     (case vo of None \<Rightarrow> Some (STAT_ADR, sim)
               | Some next_pc \<Rightarrow> do {
                   let rE_val = compute_alu A_ADD 8 rsp;
                   r' \<leftarrow> set_reg_val (sim_r sim) REG_RSP rE_val;
                   finish (sim\<lparr>sim_r := r'\<rparr>) next_pc
                 })
   }"

definition do_pushq :: "y64sim \<Rightarrow> nat \<Rightarrow> i64 \<Rightarrow> (stat_t \<times> y64sim) ub" where
  "do_pushq sim raid next_pc = do {
     rA_val \<leftarrow> get_reg_val (sim_r sim) raid;
     rsp \<leftarrow> get_reg_val (sim_r sim) REG_RSP;
     let rE_val = compute_alu A_SUB 8 rsp;
     r' \<leftarrow> set_reg_val (sim_r sim) REG_RSP rE_val;
     let sim' = sim\<lparr>sim_r := r'\<rparr>;
     mo \<leftarrow> set_long_val (sim_m sim') rE_val rA_val;
     (case mo of None \<Rightarrow> Some (STAT_ADR, sim')
               | Some m' \<Rightarrow> finish (sim'\<lparr>sim_m := m'\<rparr>) next_pc)
   }"

definition do_popq :: "y64sim \<Rightarrow> nat \<Rightarrow> i64 \<Rightarrow> (stat_t \<times> y64sim) ub" where
  "do_popq sim raid next_pc = do {
     rsp \<leftarrow> get_reg_val (sim_r sim) REG_RSP;
     vo \<leftarrow> get_long_val (sim_m sim) rsp;
     (case vo of None \<Rightarrow> Some (STAT_ADR, sim)
               | Some rsp_mval \<Rightarrow> do {
                   let rE_val = compute_alu A_ADD 8 rsp;
                   r' \<leftarrow> set_reg_val (sim_r sim) REG_RSP rE_val;
                   r'' \<leftarrow> set_reg_val r' raid rsp_mval;
                   finish (sim\<lparr>sim_r := r''\<rparr>) next_pc
                 })
   }"

definition execute ::
  "y64sim \<Rightarrow> nat \<Rightarrow> nat \<Rightarrow> nat \<Rightarrow> nat \<Rightarrow> i64 \<Rightarrow> i64 \<Rightarrow> (stat_t \<times> y64sim) ub" where
  "execute sim icode ifun raid rbid addr next_pc =
     (if icode = I_HALT then Some (STAT_HLT, sim)
      else if icode = I_NOP then finish sim next_pc
      else if icode = I_RRMOVQ then do_rrmovq sim ifun raid rbid next_pc
      else if icode = I_IRMOVQ then do_irmovq sim rbid addr next_pc
      else if icode = I_RMMOVQ then do_rmmovq sim raid rbid addr next_pc
      else if icode = I_MRMOVQ then do_mrmovq sim raid rbid addr next_pc
      else if icode = I_ALU then do_alu sim ifun raid rbid next_pc
      else if icode = I_JMP then do_jmp sim ifun addr next_pc
      else if icode = I_CALL then do_call sim addr next_pc
      else if icode = I_RET then do_ret sim
      else if icode = I_PUSHQ then do_pushq sim raid next_pc
      else if icode = I_POPQ then do_popq sim raid next_pc
      else Some (STAT_INS, sim))"

definition nexti :: "y64sim \<Rightarrow> (stat_t \<times> y64sim) ub" where
  "nexti sim = do {
     bo \<leftarrow> get_byte_val (sim_m sim) (sim_pc sim);
     (case bo of
        None \<Rightarrow> Some (STAT_ADR, sim)
      | Some codefun \<Rightarrow> do {
          let icode = HIGH codefun;
          let ifun = LOW codefun;
          ro \<leftarrow> fetch_regs sim icode (sim_pc sim + 1);
          (case ro of
             None \<Rightarrow> Some (STAT_ADR, sim)
           | Some (raid, rbid, next_pc) \<Rightarrow> do {
               ao \<leftarrow> fetch_imm sim icode next_pc;
               (case ao of
                  None \<Rightarrow> Some (STAT_ADR, sim)
                | Some (addr, next_pc') \<Rightarrow> execute sim icode ifun raid rbid addr next_pc')
             })
        })
   }"

section \<open>Loading and running\<close>

text \<open>
  \<^verbatim>\<open>fread\<close> asks for \<^verbatim>\<open>m->len\<close> bytes of the file's \<open>content\<close>; end of file is seen only when the
  file has fewer.  \<open>ferr\<close> is \<^verbatim>\<open>ferror(f)\<close>.
\<close>

definition load_binfile :: "mem_t \<Rightarrow> byte list \<Rightarrow> bool \<Rightarrow> int \<times> mem_t" where
  "load_binfile mem content ferr =
     (let got = take (nat (mlen mem)) content;
          mem' = mem\<lparr>mdata := splice_at 0 got (mdata mem)\<rparr>;
          eof = int (length content) < mlen mem
      in if ferr then (-1, mem') else if \<not> eof then (-1, mem') else (0, mem'))"

function run_loop :: "y64sim \<Rightarrow> int \<Rightarrow> int \<Rightarrow> stat_t \<Rightarrow> (int \<times> stat_t \<times> y64sim) ub" where
  "run_loop sim step max_steps e =
     (if step < max_steps \<and> e = STAT_AOK
      then case nexti sim of
             None \<Rightarrow> None
           | Some (e', sim') \<Rightarrow> run_loop sim' (step + 1) max_steps e'
      else Some (step, e, sim))"
  by pat_completeness auto
termination by (relation "measure (\<lambda>(sim, step, max_steps, e). nat (max_steps - step))") auto

declare run_loop.simps [simp del]

record sim_report =
  rep_steps :: int
  rep_stat :: stat_t
  rep_sim :: y64sim
  rep_regs :: "(int \<times> i64 \<times> i64) list"
  rep_mem :: "(int \<times> i64 \<times> i64) list"

text \<open>
  \<^verbatim>\<open>main\<close> once the options are read and the file is open: load, save the initial images, run, and
  report.  \<^term>\<open>Some None\<close> is the exit after a failed load.
\<close>

definition sim_main :: "byte list \<Rightarrow> bool \<Rightarrow> int \<Rightarrow> sim_report option ub" where
  "sim_main content ferr max_steps =
     (let sim = new_y64sim MEM_SIZE;
          (rc, mem) = load_binfile (sim_m sim) content ferr;
          sim = sim\<lparr>sim_m := mem\<rparr>
      in if rc < 0 then Some None
         else do {
           let saver = dup_reg (sim_r sim);
           let savem = dup_mem (sim_m sim);
           (step, e, sim') \<leftarrow> run_loop sim 0 max_steps STAT_AOK;
           (_, regs) \<leftarrow> diff_reg saver (sim_r sim') True;
           (_, mems) \<leftarrow> diff_mem savem (sim_m sim') True;
           Some (Some \<lparr>rep_steps = step, rep_stat = e, rep_sim = sim',
                       rep_regs = regs, rep_mem = mems\<rparr>)
         })"

end
