(* ===== verification/Y64_Isa.thy ===== *)
theory Y64_Isa
  imports Y64_Sim
begin

text \<open>
  The instruction set as a specification: a decoder on bytes and a step function over a register
  function, a byte list and the flags.  \<^verbatim>\<open>nexti\<close> implements it step by step wherever its execution
  is defined.  The flags are compared with the architectural ones (two's-complement zero, sign and
  signed overflow at 64 bits).
\<close>

section \<open>Specification\<close>

datatype y64_instr =
    Halt | Nop
  | Rrmov (cmov_cond: nat) nat nat
  | Irmov i64 nat
  | Rmmov nat i64 nat
  | Mrmov i64 nat nat
  | Alu nat nat nat
  | Jmp nat i64
  | Call i64
  | Ret
  | Push nat
  | Pop nat
  | Illegal

record isa =
  ipc :: i64
  iregs :: "nat \<Rightarrow> i64"
  imem :: "byte list"
  icc :: byte

definition rd8 :: "byte list \<Rightarrow> i64 \<Rightarrow> byte option" where
  "rd8 mem a = (if 0 \<le> sint a \<and> sint a < int (length mem) then Some (mem ! nat (sint a)) else None)"

definition rd64 :: "byte list \<Rightarrow> i64 \<Rightarrow> i64 option" where
  "rd64 mem a = (if 0 \<le> sint a \<and> sint a + 8 \<le> int (length mem)
                 then Some (bytes_long (drop (nat (sint a)) mem)) else None)"

definition wr64 :: "byte list \<Rightarrow> i64 \<Rightarrow> i64 \<Rightarrow> byte list option" where
  "wr64 mem a v = (if 0 \<le> sint a \<and> sint a + 8 \<le> int (length mem)
                   then Some (splice_at (nat (sint a)) (long_bytes v) mem) else None)"

text \<open>Decoding: the instruction at an address and the address after it.\<close>

definition decode :: "byte list \<Rightarrow> i64 \<Rightarrow> (y64_instr \<times> i64) option" where
  "decode mem a = do {
     b0 \<leftarrow> rd8 mem a;
     let c = HIGH b0;
     let f = LOW b0;
     (if c = I_HALT then Some (Halt, a + 1)
      else if c = I_NOP then Some (Nop, a + 1)
      else if c = I_RET then Some (Ret, a + 1)
      else if c = I_JMP then do { d \<leftarrow> rd64 mem (a + 1); Some (Jmp f d, a + 9) }
      else if c = I_CALL then do { d \<leftarrow> rd64 mem (a + 1); Some (Call d, a + 9) }
      else do {
        b1 \<leftarrow> rd8 mem (a + 1);
        let ra = HIGH b1;
        let rb = LOW b1;
        (if c = I_RRMOVQ then Some (Rrmov f ra rb, a + 2)
         else if c = I_ALU then Some (Alu f ra rb, a + 2)
         else if c = I_PUSHQ then Some (Push ra, a + 2)
         else if c = I_POPQ then Some (Pop ra, a + 2)
         else if c = I_IRMOVQ then do { d \<leftarrow> rd64 mem (a + 2); Some (Irmov d rb, a + 10) }
         else if c = I_RMMOVQ then do { d \<leftarrow> rd64 mem (a + 2); Some (Rmmov ra d rb, a + 10) }
         else if c = I_MRMOVQ then do { d \<leftarrow> rd64 mem (a + 2); Some (Mrmov d rb ra, a + 10) }
         else Some (Illegal, a + 2))
      })
   }"

definition wr_reg :: "nat \<Rightarrow> i64 \<Rightarrow> (nat \<Rightarrow> i64) \<Rightarrow> nat \<Rightarrow> i64" where
  "wr_reg k v rs = (if k < REG_NONE then rs(k := v) else rs)"

fun isa_exec :: "y64_instr \<Rightarrow> i64 \<Rightarrow> isa \<Rightarrow> stat_t \<times> isa" where
  "isa_exec Halt nx s = (STAT_HLT, s)"
| "isa_exec Nop nx s = (STAT_AOK, s\<lparr>ipc := nx\<rparr>)"
| "isa_exec (Rrmov c a b) nx s =
     (STAT_AOK, (if cond_doit (icc s) c then s\<lparr>iregs := wr_reg b (iregs s a) (iregs s)\<rparr> else s)\<lparr>ipc := nx\<rparr>)"
| "isa_exec (Irmov v b) nx s = (STAT_AOK, s\<lparr>iregs := wr_reg b v (iregs s), ipc := nx\<rparr>)"
| "isa_exec (Rmmov a d b) nx s =
     (case wr64 (imem s) (iregs s b + d) (iregs s a) of
        None \<Rightarrow> (STAT_ADR, s) | Some mem \<Rightarrow> (STAT_AOK, s\<lparr>imem := mem, ipc := nx\<rparr>))"
| "isa_exec (Mrmov d b a) nx s =
     (case rd64 (imem s) (iregs s b + d) of
        None \<Rightarrow> (STAT_ADR, s) | Some v \<Rightarrow> (STAT_AOK, s\<lparr>iregs := wr_reg a v (iregs s), ipc := nx\<rparr>))"
| "isa_exec (Alu f a b) nx s =
     (if A_NONE \<le> f then (STAT_INS, s)
      else let v = compute_alu f (iregs s a) (iregs s b)
           in (STAT_AOK, s\<lparr>icc := compute_cc f (iregs s a) (iregs s b) v,
                           iregs := wr_reg b v (iregs s), ipc := nx\<rparr>))"
| "isa_exec (Jmp c d) nx s =
     (if C_G < c then (STAT_INS, s)
      else (STAT_AOK, s\<lparr>ipc := if cond_doit (icc s) c then d else nx\<rparr>))"
| "isa_exec (Call d) nx s =
     (let sp = iregs s REG_RSP - 8; s' = s\<lparr>iregs := wr_reg REG_RSP sp (iregs s)\<rparr>
      in case wr64 (imem s) sp nx of
           None \<Rightarrow> (STAT_ADR, s') | Some mem \<Rightarrow> (STAT_AOK, s'\<lparr>imem := mem, ipc := d\<rparr>))"
| "isa_exec Ret nx s =
     (let sp = iregs s REG_RSP
      in case rd64 (imem s) sp of
           None \<Rightarrow> (STAT_ADR, s)
         | Some d \<Rightarrow> (STAT_AOK, s\<lparr>iregs := wr_reg REG_RSP (sp + 8) (iregs s), ipc := d\<rparr>))"
| "isa_exec (Push a) nx s =
     (let sp = iregs s REG_RSP - 8; s' = s\<lparr>iregs := wr_reg REG_RSP sp (iregs s)\<rparr>
      in case wr64 (imem s) sp (iregs s a) of
           None \<Rightarrow> (STAT_ADR, s') | Some mem \<Rightarrow> (STAT_AOK, s'\<lparr>imem := mem, ipc := nx\<rparr>))"
| "isa_exec (Pop a) nx s =
     (let sp = iregs s REG_RSP
      in case rd64 (imem s) sp of
           None \<Rightarrow> (STAT_ADR, s)
         | Some v \<Rightarrow> (STAT_AOK, s\<lparr>iregs := wr_reg a v (wr_reg REG_RSP (sp + 8) (iregs s)), ipc := nx\<rparr>))"
| "isa_exec Illegal nx s = (STAT_INS, s)"

definition isa_step :: "isa \<Rightarrow> stat_t \<times> isa" where
  "isa_step s = (case decode (imem s) (ipc s) of
     None \<Rightarrow> (STAT_ADR, s) | Some (i, nx) \<Rightarrow> isa_exec i nx s)"

section \<open>Refinement\<close>

definition wf_sim :: "y64sim \<Rightarrow> bool" where
  "wf_sim s \<longleftrightarrow> wf_reg (sim_r s) \<and> wf_mem (sim_m s)"

definition isa_of :: "y64sim \<Rightarrow> isa" where
  "isa_of s = \<lparr>ipc = sim_pc s, iregs = reg_at (sim_r s), imem = mdata (sim_m s), icc = sim_cc s\<rparr>"

lemma isa_of_sel [simp]:
  "ipc (isa_of s) = sim_pc s" "iregs (isa_of s) = reg_at (sim_r s)"
  "imem (isa_of s) = mdata (sim_m s)" "icc (isa_of s) = sim_cc s"
  by (simp_all add: isa_of_def)

lemma isa_of_upd:
  "isa_of (s\<lparr>sim_pc := p\<rparr>) = isa_of s\<lparr>ipc := p\<rparr>"
  "isa_of (s\<lparr>sim_cc := c\<rparr>) = isa_of s\<lparr>icc := c\<rparr>"
  "isa_of (s\<lparr>sim_r := x\<rparr>) = isa_of s\<lparr>iregs := reg_at x\<rparr>"
  "isa_of (s\<lparr>sim_m := y\<rparr>) = isa_of s\<lparr>imem := mdata y\<rparr>"
  by (simp_all add: isa_of_def)

lemma wf_sim_upd [wf_intros]:
  "wf_sim (s\<lparr>sim_pc := p\<rparr>) = wf_sim s" "wf_sim (s\<lparr>sim_cc := c\<rparr>) = wf_sim s"
  "wf_sim (s\<lparr>sim_r := x\<rparr>) \<longleftrightarrow> wf_reg x \<and> wf_mem (sim_m s)"
  "wf_sim (s\<lparr>sim_m := y\<rparr>) \<longleftrightarrow> wf_reg (sim_r s) \<and> wf_mem y"
  by (simp_all add: wf_sim_def)

text \<open>The accessors against the specification's reads and writes.\<close>

lemma rd8_spec: "wf_mem x \<Longrightarrow> get_byte_val x a = Some (rd8 (mdata x) a)"
  using get_byte_val_wf [of x a] by (auto simp: rd8_def wf_mem_def)

lemma rd64_spec:
  assumes "wf_mem x"
  shows "get_long_val x a = (if wraps a then None else Some (rd64 (mdata x) a))"
proof -
  have "in_long x a \<longleftrightarrow> 0 \<le> sint a \<and> sint a + 8 \<le> int (length (mdata x))"
    using assms by (simp add: in_long_def wf_mem_def)
  then show ?thesis
    using mem_access(1-3) [OF assms] in_long_not_wraps [OF assms, of a]
    by (auto simp: rd64_def)
qed

lemma wr64_spec:
  assumes "wf_mem x"
  shows "set_long_val x a v =
    (if wraps a then None else Some (map_option (\<lambda>d. x\<lparr>mdata := d\<rparr>) (wr64 (mdata x) a v)))"
proof -
  have "in_long x a \<longleftrightarrow> 0 \<le> sint a \<and> sint a + 8 \<le> int (length (mdata x))"
    using assms by (simp add: in_long_def wf_mem_def)
  then show ?thesis
    using mem_access(4-6) [OF assms, of a v] in_long_not_wraps [OF assms, of a]
    by (auto simp: wr64_def)
qed

lemma wr64_wf: "wf_mem x \<Longrightarrow> wr64 (mdata x) a v = Some d \<Longrightarrow> wf_mem (x\<lparr>mdata := d\<rparr>)"
  using set_long_val_wf [of x a v "x\<lparr>mdata := d\<rparr>"] wr64_spec [of x a v]
  by (cases "wraps a") (auto simp: wf_mem_def wr64_def wraps_def split: if_splits)

text \<open>A register write succeeds, keeps the file well formed and is the function update.\<close>

lemma set_reg_spec:
  assumes "wf_reg x"
  shows "\<exists>y. set_reg_val x k v = Some y \<and> wf_reg y \<and> reg_at y = wr_reg k v (reg_at x)"
proof -
  obtain y where y: "set_reg_val x k v = Some y" "wf_reg y"
    "\<And>j. reg_at y j = (if j = k \<and> k < REG_NONE then v else reg_at x j)"
    using set_reg_val_wf [OF assms, of k v] by metis
  then have "reg_at y = wr_reg k v (reg_at x)" by (auto simp: fun_eq_iff wr_reg_def)
  with y show ?thesis by blast
qed

lemmas spec_access = rd8_spec rd64_spec wr64_spec get_reg_val_wf

text \<open>Each instruction body implements its case of the specification.\<close>

definition implements :: "(stat_t \<times> y64sim) ub \<Rightarrow> stat_t \<times> isa \<Rightarrow> bool" where
  "implements res spec \<longleftrightarrow>
     (\<forall>st s'. res = Some (st, s') \<longrightarrow> spec = (st, isa_of s') \<and> wf_sim s')"

lemma implements_None [simp, intro]: "implements None spec"
  by (simp add: implements_def)

lemma implements_finish:
  "wf_sim s \<Longrightarrow> spec = (STAT_AOK, isa_of s\<lparr>ipc := p\<rparr>) \<Longrightarrow> implements (finish s p) spec"
  by (auto simp: implements_def finish_def isa_of_upd wf_sim_upd)

lemma implements_stop:
  "wf_sim s \<Longrightarrow> spec = (st, isa_of s) \<Longrightarrow> implements (Some (st, s)) spec"
  by (auto simp: implements_def)

lemma set_reg_cases:
  assumes "wf_reg x"
  obtains y where "set_reg_val x k v = Some y" "wf_reg y" "reg_at y = wr_reg k v (reg_at x)"
  using set_reg_spec [OF assms] by blast

lemma wf_simD: "wf_sim s \<Longrightarrow> wf_reg (sim_r s)" "wf_sim s \<Longrightarrow> wf_mem (sim_m s)"
  by (simp_all add: wf_sim_def)

lemma do_rrmovq_spec:
  assumes "wf_sim s"
  shows "implements (do_rrmovq s f a b nx) (isa_exec (Rrmov f a b) nx (isa_of s))"
proof -
  obtain y where y: "set_reg_val (sim_r s) b (reg_at (sim_r s) a) = Some y" "wf_reg y"
    "reg_at y = wr_reg b (reg_at (sim_r s) a) (reg_at (sim_r s))"
    using set_reg_cases [OF wf_simD(1) [OF assms]] by metis
  then show ?thesis
    using assms
    by (auto simp: do_rrmovq_def spec_access wf_simD wf_sim_upd isa_of_upd intro!: implements_finish)
qed

lemma do_irmovq_spec:
  assumes "wf_sim s"
  shows "implements (do_irmovq s b v nx) (isa_exec (Irmov v b) nx (isa_of s))"
proof -
  obtain y where y: "set_reg_val (sim_r s) b v = Some y" "wf_reg y"
    "reg_at y = wr_reg b v (reg_at (sim_r s))"
    using set_reg_cases [OF wf_simD(1) [OF assms]] by metis
  then show ?thesis
    using assms
    by (auto simp: do_irmovq_def wf_simD wf_sim_upd isa_of_upd intro!: implements_finish)
qed

lemma do_rmmovq_spec:
  assumes "wf_sim s"
  shows "implements (do_rmmovq s a b d nx) (isa_exec (Rmmov a d b) nx (isa_of s))"
  using assms wr64_wf [OF wf_simD(2) [OF assms]]
  by (auto simp: do_rmmovq_def compute_alu_def Let_def spec_access wf_simD wf_sim_upd isa_of_upd
      intro!: implements_finish implements_stop split: option.splits)

lemma do_mrmovq_spec:
  assumes "wf_sim s"
  shows "implements (do_mrmovq s a b d nx) (isa_exec (Mrmov d b a) nx (isa_of s))"
proof (cases "rd64 (mdata (sim_m s)) (reg_at (sim_r s) b + d)")
  case None
  then show ?thesis
    using assms by (auto simp: do_mrmovq_def compute_alu_def Let_def spec_access wf_simD intro!: implements_stop)
next
  case (Some v)
  obtain y where y: "set_reg_val (sim_r s) a v = Some y" "wf_reg y"
    "reg_at y = wr_reg a v (reg_at (sim_r s))"
    using set_reg_cases [OF wf_simD(1) [OF assms]] by metis
  with Some show ?thesis
    using assms by (auto simp: do_mrmovq_def compute_alu_def Let_def spec_access wf_simD wf_sim_upd isa_of_upd
        intro!: implements_finish)
qed

lemma do_alu_spec:
  assumes "wf_sim s"
  shows "implements (do_alu s f a b nx) (isa_exec (Alu f a b) nx (isa_of s))"
proof -
  let ?v = "compute_alu f (reg_at (sim_r s) a) (reg_at (sim_r s) b)"
  obtain y where y: "set_reg_val (sim_r s) b ?v = Some y" "wf_reg y"
    "reg_at y = wr_reg b ?v (reg_at (sim_r s))"
    using set_reg_cases [OF wf_simD(1) [OF assms]] by metis
  then show ?thesis
    using assms
    by (auto simp: do_alu_def Let_def spec_access wf_simD wf_sim_upd isa_of_upd
        intro!: implements_finish implements_stop)
qed

lemma do_jmp_spec:
  "wf_sim s \<Longrightarrow> implements (do_jmp s f d nx) (isa_exec (Jmp f d) nx (isa_of s))"
  by (auto simp: do_jmp_def intro!: implements_finish implements_stop)

lemma do_call_spec:
  assumes "wf_sim s"
  shows "implements (do_call s d nx) (isa_exec (Call d) nx (isa_of s))"
proof -
  let ?sp = "reg_at (sim_r s) REG_RSP - 8"
  obtain y where y: "set_reg_val (sim_r s) REG_RSP ?sp = Some y" "wf_reg y"
    "reg_at y = wr_reg REG_RSP ?sp (reg_at (sim_r s))"
    using set_reg_cases [OF wf_simD(1) [OF assms]] by metis
  then show ?thesis
    using assms wr64_wf [OF wf_simD(2) [OF assms]]
    by (auto simp: do_call_def compute_alu_def Let_def spec_access wf_simD wf_sim_upd isa_of_upd
        intro!: implements_finish implements_stop split: option.splits)
qed

lemma do_ret_spec:
  assumes "wf_sim s"
  shows "implements (do_ret s) (isa_exec Ret nx (isa_of s))"
proof -
  let ?sp = "reg_at (sim_r s) REG_RSP + 8"
  obtain y where y: "set_reg_val (sim_r s) REG_RSP ?sp = Some y" "wf_reg y"
    "reg_at y = wr_reg REG_RSP ?sp (reg_at (sim_r s))"
    using set_reg_cases [OF wf_simD(1) [OF assms]] by metis
  then show ?thesis
    using assms
    by (auto simp: do_ret_def compute_alu_def Let_def spec_access wf_simD wf_sim_upd isa_of_upd
        add.commute [of 8] intro!: implements_finish implements_stop split: option.splits)
qed

lemma do_pushq_spec:
  assumes "wf_sim s"
  shows "implements (do_pushq s a nx) (isa_exec (Push a) nx (isa_of s))"
proof -
  let ?sp = "reg_at (sim_r s) REG_RSP - 8"
  obtain y where y: "set_reg_val (sim_r s) REG_RSP ?sp = Some y" "wf_reg y"
    "reg_at y = wr_reg REG_RSP ?sp (reg_at (sim_r s))"
    using set_reg_cases [OF wf_simD(1) [OF assms]] by metis
  then show ?thesis
    using assms wr64_wf [OF wf_simD(2) [OF assms]]
    by (auto simp: do_pushq_def compute_alu_def Let_def spec_access wf_simD wf_sim_upd isa_of_upd
        intro!: implements_finish implements_stop split: option.splits)
qed

lemma do_popq_spec:
  assumes "wf_sim s"
  shows "implements (do_popq s a nx) (isa_exec (Pop a) nx (isa_of s))"
proof (cases "rd64 (mdata (sim_m s)) (reg_at (sim_r s) REG_RSP)")
  case None
  then show ?thesis
    using assms by (auto simp: do_popq_def spec_access wf_simD intro!: implements_stop)
next
  case (Some v)
  let ?sp = "reg_at (sim_r s) REG_RSP + 8"
  obtain y where y: "set_reg_val (sim_r s) REG_RSP ?sp = Some y" "wf_reg y"
    "reg_at y = wr_reg REG_RSP ?sp (reg_at (sim_r s))"
    using set_reg_cases [OF wf_simD(1) [OF assms]] by metis
  obtain z where z: "set_reg_val y a v = Some z" "wf_reg z" "reg_at z = wr_reg a v (reg_at y)"
    using set_reg_cases [OF y(2)] by metis
  show ?thesis
    using assms Some y z
    by (auto simp: do_popq_def compute_alu_def Let_def spec_access wf_simD wf_sim_upd isa_of_upd
        add.commute [of 8] intro!: implements_finish)
qed

lemmas do_specs = do_rrmovq_spec do_irmovq_spec do_rmmovq_spec do_mrmovq_spec do_alu_spec do_jmp_spec
  do_call_spec do_ret_spec do_pushq_spec do_popq_spec

declare isa_exec.simps [simp del]

lemmas isa_exec_plain [simp] = isa_exec.simps(1) isa_exec.simps(2) isa_exec.simps(13)

text \<open>The operands handed to \<open>execute\<close> are the ones the decoder finds.\<close>

lemma fetch_spec:
  "wf_sim s \<Longrightarrow> fetch_regs s c p =
     Some (if c \<in> {I_HALT, I_NOP, I_JMP, I_CALL, I_RET} then Some (0, 0, p)
           else map_option (\<lambda>b. (HIGH b, LOW b, p + 1)) (rd8 (mdata (sim_m s)) p))"
  "wf_sim s \<Longrightarrow> fetch_imm s c p =
     (if c \<in> {I_IRMOVQ, I_RMMOVQ, I_MRMOVQ, I_JMP, I_CALL}
      then if wraps p then None
           else Some (map_option (\<lambda>a. (a, p + 8)) (rd64 (mdata (sim_m s)) p))
      else Some (Some (0, p)))"
  by (auto simp: fetch_regs_def fetch_imm_def spec_access wf_simD)

lemma nexti_refines:
  assumes wf: "wf_sim s"
  shows "implements (nexti s) (isa_step (isa_of s))"
proof (cases "rd8 (mdata (sim_m s)) (sim_pc s)")
  case None
  then show ?thesis
    using wf by (auto simp: nexti_def isa_step_def decode_def spec_access wf_simD intro!: implements_stop)
next
  case (Some b0)
  define c where "c = HIGH b0"
  have "c \<in> set [0..<12] \<or> c > 11" by auto
  then consider "c = 0" | "c = 1" | "c = 2" | "c = 3" | "c = 4" | "c = 5" | "c = 6" | "c = 7" | "c = 8"
    | "c = 9" | "c = 10" | "c = 11" | "c > 11" by (auto simp: upt_rec)
  then show ?thesis
    using wf Some
    by cases
      (auto simp: nexti_def isa_step_def decode_def spec_access wf_simD fetch_spec execute_def
        c_def [symmetric] add.assoc
        intro!: implements_stop implements_finish do_specs split: option.splits)
qed

section \<open>Where a step is defined\<close>

text \<open>The data address an instruction reads or writes.\<close>

fun data_addr :: "y64_instr \<Rightarrow> isa \<Rightarrow> i64 option" where
  "data_addr (Rmmov a d b) s = Some (iregs s b + d)"
| "data_addr (Mrmov d b a) s = Some (iregs s b + d)"
| "data_addr (Call d) s = Some (iregs s REG_RSP - 8)"
| "data_addr (Push a) s = Some (iregs s REG_RSP - 8)"
| "data_addr Ret s = Some (iregs s REG_RSP)"
| "data_addr (Pop a) s = Some (iregs s REG_RSP)"
| "data_addr _ s = None"

definition bad_access :: "isa \<Rightarrow> bool" where
  "bad_access s \<longleftrightarrow> (case decode (imem s) (ipc s) of
     None \<Rightarrow> False
   | Some (i, nx) \<Rightarrow> (case data_addr i s of None \<Rightarrow> False | Some a \<Rightarrow> wraps a))"

lemma rd8_no_wraps:
  "wf_mem x \<Longrightarrow> rd8 (mdata x) a = Some b \<Longrightarrow> \<not> wraps (a + 1) \<and> \<not> wraps (a + 2)"
proof -
  assume "wf_mem x" and "rd8 (mdata x) a = Some b"
  then have "0 \<le> sint a" "sint a < 2 ^ 31" by (auto simp: rd8_def wf_mem_def split: if_splits)
  then show ?thesis
    using sint_add_small [of a 1] sint_add_small [of a 2] by (simp add: wraps_def)
qed

lemma set_reg_Some: "wf_reg x \<Longrightarrow> \<exists>y. set_reg_val x k v = Some y \<and> wf_reg y"
  using set_reg_spec by blast

lemma do_None:
  assumes "wf_sim s"
  shows "do_rrmovq s f a b nx \<noteq> None" "do_irmovq s b v nx \<noteq> None"
    "do_rmmovq s a b d nx = None \<longleftrightarrow> wraps (reg_at (sim_r s) b + d)"
    "do_mrmovq s a b d nx = None \<longleftrightarrow> wraps (reg_at (sim_r s) b + d)"
    "do_alu s f a b nx \<noteq> None" "do_jmp s f d nx \<noteq> None"
    "do_call s d nx = None \<longleftrightarrow> wraps (reg_at (sim_r s) REG_RSP - 8)"
    "do_ret s = None \<longleftrightarrow> wraps (reg_at (sim_r s) REG_RSP)"
    "do_pushq s a nx = None \<longleftrightarrow> wraps (reg_at (sim_r s) REG_RSP - 8)"
    "do_popq s a nx = None \<longleftrightarrow> wraps (reg_at (sim_r s) REG_RSP)"
proof -
  have reg: "\<exists>y. set_reg_val (sim_r s) k v = Some y \<and> wf_reg y" for k v
    using set_reg_Some wf_simD(1) [OF assms] by blast
  have reg2: "wf_reg y \<Longrightarrow> set_reg_val y k v \<noteq> None" for y k v
    using set_reg_Some by blast
  have reg3: "set_reg_val (sim_r s) k v \<noteq> None" for k v
    using reg [of k v] by auto
  obtain w where w: "\<And>k v. set_reg_val (sim_r s) k v = Some (w k v)" using reg by metis
  note acc = compute_alu_def Let_def spec_access wf_simD [OF assms] finish_def Option.bind_eq_None_conv
  show "do_rrmovq s f a b nx \<noteq> None" "do_irmovq s b v nx \<noteq> None"
    "do_alu s f a b nx \<noteq> None" "do_jmp s f d nx \<noteq> None"
    by (auto simp: w do_rrmovq_def do_irmovq_def do_alu_def do_jmp_def acc)
  show "do_rmmovq s a b d nx = None \<longleftrightarrow> wraps (reg_at (sim_r s) b + d)"
    by (auto simp: do_rmmovq_def acc split: option.splits)
  show "do_mrmovq s a b d nx = None \<longleftrightarrow> wraps (reg_at (sim_r s) b + d)"
    by (auto simp: w do_mrmovq_def acc split: option.splits)
  obtain y where y: "set_reg_val (sim_r s) REG_RSP (reg_at (sim_r s) REG_RSP - 8) = Some y" "wf_reg y"
    using reg by blast
  show "do_call s d nx = None \<longleftrightarrow> wraps (reg_at (sim_r s) REG_RSP - 8)"
    using y by (auto simp: do_call_def acc split: option.splits)
  show "do_pushq s a nx = None \<longleftrightarrow> wraps (reg_at (sim_r s) REG_RSP - 8)"
    using y by (auto simp: do_pushq_def acc split: option.splits)
  show "do_ret s = None \<longleftrightarrow> wraps (reg_at (sim_r s) REG_RSP)"
    by (auto simp: w do_ret_def acc split: option.splits)
  obtain z where z: "set_reg_val (sim_r s) REG_RSP (8 + reg_at (sim_r s) REG_RSP) = Some z" "wf_reg z"
    using reg by blast
  show "do_popq s a nx = None \<longleftrightarrow> wraps (reg_at (sim_r s) REG_RSP)"
  proof -
    define w' where "w' = (\<lambda>k v. the (set_reg_val z k v))"
    have "set_reg_val z k v = Some (w' k v)" for k v
      using reg2 [OF z(2), of k v] by (simp add: w'_def)
    then show ?thesis using z by (auto simp: do_popq_def acc split: option.splits)
  qed
qed

lemma nexti_None:
  assumes wf: "wf_sim s"
  shows "nexti s = None \<longleftrightarrow> bad_access (isa_of s)"
proof (cases "rd8 (mdata (sim_m s)) (sim_pc s)")
  case None
  then show ?thesis
    using wf by (auto simp: nexti_def bad_access_def decode_def spec_access wf_simD)
next
  case (Some b0)
  define c where "c = HIGH b0"
  have nw: "\<not> wraps (sim_pc s + 1)" "\<not> wraps (sim_pc s + 2)"
    using rd8_no_wraps [OF wf_simD(2) [OF wf] Some] by auto
  have "c \<in> set [0..<12] \<or> c > 11" by auto
  then consider "c = 0" | "c = 1" | "c = 2" | "c = 3" | "c = 4" | "c = 5" | "c = 6" | "c = 7" | "c = 8"
    | "c = 9" | "c = 10" | "c = 11" | "c > 11" by (auto simp: upt_rec)
  then show ?thesis
    using wf Some nw
    by cases
      (auto simp: nexti_def bad_access_def decode_def spec_access wf_simD fetch_spec execute_def
        c_def [symmetric] add.assoc do_None finish_def split: option.splits)
qed

section \<open>Runs\<close>

text \<open>At most \<open>n\<close> steps, stopping at the first status other than AOK; the number of steps taken.\<close>

fun isa_run :: "nat \<Rightarrow> stat_t \<Rightarrow> isa \<Rightarrow> nat \<times> stat_t \<times> isa" where
  "isa_run 0 e s = (0, e, s)"
| "isa_run (Suc n) e s =
     (if e = STAT_AOK
      then (let (e', s') = isa_step s; (k, e'', s'') = isa_run n e' s' in (Suc k, e'', s''))
      else (0, e, s))"

lemma run_loop_spec:
  assumes "wf_sim s" and "nat (mx - k) = n" and "run_loop s k mx e = Some (k', e', s')"
  shows "wf_sim s' \<and> k \<le> k' \<and> isa_run n e (isa_of s) = (nat (k' - k), e', isa_of s')"
  using assms
proof (induction n arbitrary: s k e)
  case 0
  then have "run_loop s k mx e = Some (k, e, s)" by (subst run_loop.simps) auto
  with 0 show ?case by simp
next
  case (Suc n)
  show ?case
  proof (cases "e = STAT_AOK")
    case False
    then have "run_loop s k mx e = Some (k, e, s)" by (subst run_loop.simps) simp
    with Suc False show ?thesis by simp
  next
    case True
    have "run_loop s k mx STAT_AOK = Some (k', e', s')" and "k < mx" using Suc.prems True by auto
    then obtain e1 s1 where one: "nexti s = Some (e1, s1)"
      and rest: "run_loop s1 (k + 1) mx e1 = Some (k', e', s')"
      by (subst (asm) run_loop.simps) (auto split: option.splits prod.splits)
    have spec: "isa_step (isa_of s) = (e1, isa_of s1)" and "wf_sim s1"
      using nexti_refines [OF Suc.prems(1)] one by (auto simp: implements_def)
    moreover have "nat (mx - (k + 1)) = n" using Suc.prems by simp
    ultimately have ih: "wf_sim s' \<and> k + 1 \<le> k' \<and>
        isa_run n e1 (isa_of s1) = (nat (k' - (k + 1)), e', isa_of s')"
      using Suc.IH rest by blast
    then have "Suc (nat (k' - (k + 1))) = nat (k' - k)" by arith
    with True spec ih show ?thesis by simp
  qed
qed

lemma isa_run_le: "isa_run n e s = (k, e', s') \<Longrightarrow> k \<le> n"
  by (induction n arbitrary: e s k) (auto split: if_splits prod.splits)

section \<open>The flags\<close>

text \<open>The architectural flags of an ALU operation at 64 bits.\<close>

definition arch_cc :: "nat \<Rightarrow> i64 \<Rightarrow> i64 \<Rightarrow> i64 \<Rightarrow> byte" where
  "arch_cc op a b v = PACK_CC (v = 0) (sint v < 0)
     (if op = A_ADD then sint a + sint b \<noteq> sint v
      else if op = A_SUB then sint b - sint a \<noteq> sint v else False)"

definition fits_int :: "i64 \<Rightarrow> bool" where
  "fits_int x \<longleftrightarrow> - (2 ^ 31) \<le> sint x \<and> sint x < 2 ^ 31"

lemma int_of_long_take: "int_of_long x = signed_take_bit 31 (sint x)"
proof (rule bit_eqI)
  fix n :: nat
  consider "n < 31" | "n = 31" | "n > 31" by linarith
  then show "bit (int_of_long x) n \<longleftrightarrow> bit (signed_take_bit 31 (sint x)) n"
    by cases (simp_all add: int_of_long_def bit_sint_iff bit_signed_take_bit_iff bit_ucast_iff min_def)
qed

lemma int_of_long_fits [simp]: "fits_int x \<Longrightarrow> int_of_long x = sint x"
  by (simp add: int_of_long_take fits_int_def signed_take_bit_int_eq_self)

lemma int_of_long_neg: "int_of_long x < 0 \<longleftrightarrow> bit x 31"
  by (simp add: int_of_long_take bit_sint_iff)

lemma sint_neg: "sint (x :: i64) < 0 \<longleftrightarrow> bit x 63"
  using bit_last_iff [of x] by simp

lemma compute_alu_sint:
  assumes "fits_int a" and "fits_int b"
  shows "sint (a + b) = sint a + sint b" "sint (b - a) = sint b - sint a"
  using assms by (simp_all add: fits_int_def sint_word_add sint_word_diff signed_take_bit_int_eq_self)

lemma sint_eq_0: "sint (x :: i64) = 0 \<longleftrightarrow> x = 0"
  by (rule signed_eq_0_iff)

lemma compute_cc_arch:
  assumes "fits_int a" and "fits_int b" and "fits_int (compute_alu op a b)"
  shows "compute_cc op a b (compute_alu op a b) = arch_cc op a b (compute_alu op a b)"
proof -
  have no_add: "(x < 0 \<and> y < 0 \<and> 0 < x + y \<or> 0 < x \<and> 0 < y \<and> x + y < 0) = False" for x y :: int
    by auto
  have no_sub: "(x < 0 \<and> 0 < y \<and> y < x \<or> 0 < x \<and> y < 0 \<and> x < y) = False" for x y :: int
    by auto
  consider (add) "op = A_ADD" | (sub) "op = A_SUB" | (logic) "op \<noteq> A_ADD" "op \<noteq> A_SUB" by auto
  then show ?thesis
  proof cases
    case add
    then have "fits_int (a + b)" using assms(3) by (simp add: compute_alu_def)
    with add assms compute_alu_sint [OF assms(1,2)] show ?thesis
      by (simp add: no_add compute_cc_def arch_cc_def compute_alu_def)
  next
    case sub
    then have "fits_int (b - a)" using assms(3) by (simp add: compute_alu_def)
    with sub assms compute_alu_sint [OF assms(1,2)] show ?thesis
      by (simp add: no_sub compute_cc_def arch_cc_def compute_alu_def)
  next
    case logic
    then show ?thesis using assms(3) by (simp add: compute_cc_def arch_cc_def)
  qed
qed

lemma GET_PACK [simp]:
  "GET_ZF (PACK_CC z s v) = of_bool z" "GET_SF (PACK_CC z s v) = of_bool s"
  "GET_OF (PACK_CC z s v) = of_bool v"
  by (cases z; cases s; cases v; simp add: GET_ZF_def GET_SF_def GET_OF_def PACK_CC_def)+

lemma cond_doit_pack:
  "cond_doit (PACK_CC z s v) C_LE \<longleftrightarrow> (s \<noteq> v) \<or> z" "cond_doit (PACK_CC z s v) C_L \<longleftrightarrow> s \<noteq> v"
  "cond_doit (PACK_CC z s v) C_E \<longleftrightarrow> z" "cond_doit (PACK_CC z s v) C_NE \<longleftrightarrow> \<not> z"
  "cond_doit (PACK_CC z s v) C_GE \<longleftrightarrow> s = v" "cond_doit (PACK_CC z s v) C_G \<longleftrightarrow> s = v \<and> \<not> z"
  by (cases z; cases s; cases v; simp add: cond_doit_def)+

lemma arch_sub_pack:
  "arch_cc A_SUB a b (b - a) = PACK_CC (b = a) (sint (b - a) < 0) (sint b - sint a \<noteq> sint (b - a))"
  by (simp add: arch_cc_def)

end
