(* ===== verification/Y64_Props.thy ===== *)
theory Y64_Props
  imports Y64_Isa
begin

text \<open>
  The properties of the Y64 simulator: refinement of the instruction-set specification by one step
  and by whole runs, exactly when a step leaves the defined part of C, the accessors' round trip,
  and what the condition codes are worth.
\<close>

lemma bytes_long_append: "bytes_long (long_bytes v @ xs) = v"
  using bytes_long_cong [of "long_bytes v @ xs" "long_bytes v"] by simp

section \<open>Loading\<close>

lemma splice_0: "length ys \<le> length xs \<Longrightarrow> splice_at 0 ys xs = ys @ drop (length ys) xs"
  by (simp add: splice_at_def)

lemma load_binfile_spec:
  assumes "wf_mem x"
  shows "wf_mem (snd (load_binfile x content ferr)) \<and> mlen (snd (load_binfile x content ferr)) = mlen x"
  using assms by (auto simp: load_binfile_def Let_def wf_mem_def)

lemma load_binfile_ok:
  assumes "wf_mem x" and "int (length content) < mlen x"
  shows "load_binfile x content False =
    (0, x\<lparr>mdata := content @ drop (length content) (mdata x)\<rparr>)"
  using assms by (simp add: load_binfile_def Let_def wf_mem_def splice_0)

text \<open>The state from which \<^verbatim>\<open>main\<close> starts to execute a program.\<close>

definition boot :: "byte list \<Rightarrow> y64sim" where
  "boot content = \<lparr>sim_pc = 0, sim_r = init_reg,
     sim_m = \<lparr>mlen = 8192, mdata = content @ replicate (8192 - length content) 0\<rparr>,
     sim_cc = DEFAULT_CC\<rparr>"

lemma new_sim_wf: "wf_sim (new_y64sim MEM_SIZE)"
  by (auto simp: wf_sim_def new_y64sim_def wf_reg_def init_reg_def REG_SIZE_def MEM_SIZE_def
      BLK_SIZE_def init_mem_def Let_def wf_mem_def)

lemma boot_wf: "length content < 8192 \<Longrightarrow> wf_sim (boot content)"
  using new_sim_wf by (auto simp: wf_sim_def boot_def new_y64sim_def wf_mem_def BLK_SIZE_def)

lemma sim_main_boot:
  assumes "length content < 8192"
  shows "sim_main content False mx = do {
     (step, e, sim') \<leftarrow> run_loop (boot content) 0 mx STAT_AOK;
     (_, regs) \<leftarrow> diff_reg (sim_r (boot content)) (sim_r sim') True;
     (_, mems) \<leftarrow> diff_mem (sim_m (boot content)) (sim_m sim') True;
     Some (Some \<lparr>rep_steps = step, rep_stat = e, rep_sim = sim', rep_regs = regs, rep_mem = mems\<rparr>)
   }"
proof -
  have "load_binfile (sim_m (new_y64sim MEM_SIZE)) content False =
      (0, sim_m (new_y64sim MEM_SIZE)
        \<lparr>mdata := content @ drop (length content) (mdata (sim_m (new_y64sim MEM_SIZE)))\<rparr>)"
    using new_sim_wf assms
    by (intro load_binfile_ok) (auto simp: wf_sim_def new_y64sim_def init_mem_def MEM_SIZE_def BLK_SIZE_def)
  then have ld: "load_binfile (sim_m (new_y64sim MEM_SIZE)) content False = (0, sim_m (boot content))"
    by (simp add: new_y64sim_def init_mem_def MEM_SIZE_def BLK_SIZE_def boot_def)
  have upd: "(new_y64sim MEM_SIZE)\<lparr>sim_m := sim_m (boot content)\<rparr> = boot content"
    by (simp add: new_y64sim_def boot_def)
  have regs: "sim_r (new_y64sim MEM_SIZE) = sim_r (boot content)"
    by (simp add: new_y64sim_def boot_def)
  have dup: "dup_mem (sim_r (boot content)) = sim_r (boot content)"
    "dup_mem (sim_m (boot content)) = sim_m (boot content)"
    using boot_wf [OF assms] by (auto simp: wf_sim_def wf_reg_def intro!: dup_mem_eq)
  show ?thesis by (simp add: sim_main_def Let_def ld upd regs dup dup_reg_def)
qed

lemma sim_main_refused:
  assumes "ferr \<or> 8192 \<le> length content"
  shows "sim_main content ferr mx = Some None"
proof -
  have "mlen (sim_m (new_y64sim MEM_SIZE)) = 8192"
    by (simp add: new_y64sim_def init_mem_def MEM_SIZE_def BLK_SIZE_def)
  then show ?thesis using assms by (auto simp: sim_main_def load_binfile_def Let_def)
qed

section \<open>A step keeps the sizes\<close>

lemma isa_step_mem_length: "isa_step s = (st, s') \<Longrightarrow> length (imem s') = length (imem s)"
  by (auto simp: isa_step_def isa_exec.simps(3-12) wr64_def Let_def
      split: option.splits prod.splits if_splits y64_instr.splits elim!: isa_exec.elims)

lemma isa_run_mem_length: "isa_run n e s = (k, e', s') \<Longrightarrow> length (imem s') = length (imem s)"
  by (induction n arbitrary: e s k)
     (auto dest: isa_step_mem_length split: if_splits prod.splits)

lemma isa_run_full: "isa_run n e s = (k, STAT_AOK, s') \<Longrightarrow> k = n"
  by (induction n arbitrary: e s k) (auto split: if_splits prod.splits)

lemma isa_run_first: "isa_run j e s = (j, STAT_AOK, s') \<Longrightarrow> e = STAT_AOK"
  by (induction j arbitrary: s) (auto split: if_splits)

lemma ex_less_Suc_split: "(\<exists>j<Suc n. P j) \<longleftrightarrow> P 0 \<or> (\<exists>j<n. P (Suc j))"
  using less_Suc_eq_0_disj by auto

lemma wf_mlen: "wf_mem x \<Longrightarrow> mlen x = int (length (mdata x))"
  by (simp add: wf_mem_def)

lemma run_loop_diffs:
  assumes "wf_sim s" and "run_loop s 0 mx STAT_AOK = Some (k, e, s')"
  shows "\<exists>out. diff_reg (sim_r s) (sim_r s') True = Some (mdata (sim_r s) \<noteq> mdata (sim_r s'), out)"
    and "\<exists>out. diff_mem (sim_m s) (sim_m s') True = Some (mdata (sim_m s) \<noteq> mdata (sim_m s'), out)"
proof -
  have run: "wf_sim s'" "isa_run (nat mx) STAT_AOK (isa_of s) = (nat k, e, isa_of s')"
    using run_loop_spec [OF assms(1) refl assms(2)] by auto
  then have "length (mdata (sim_m s')) = length (mdata (sim_m s))"
    using isa_run_mem_length by fastforce
  then have "mlen (sim_m s') = mlen (sim_m s)"
    using wf_simD(2) [OF run(1)] wf_simD(2) [OF assms(1)] by (simp add: wf_mem_def)
  then show "\<exists>out. diff_mem (sim_m s) (sim_m s') True = Some (mdata (sim_m s) \<noteq> mdata (sim_m s'), out)"
    using diff_mem_wf wf_simD(2) [OF run(1)] wf_simD(2) [OF assms(1)] by blast
  have "mlen (sim_r s') = mlen (sim_r s)"
    using wf_simD(1) [OF run(1)] wf_simD(1) [OF assms(1)] by (simp add: wf_reg_def)
  then show "\<exists>out. diff_reg (sim_r s) (sim_r s') True = Some (mdata (sim_r s) \<noteq> mdata (sim_r s'), out)"
    using diff_mem_wf [of "sim_r s" "sim_r s'" True] wf_simD(1) [OF run(1)] wf_simD(1) [OF assms(1)]
    unfolding diff_reg_def diff_mem_def by (simp add: wf_reg_def)
qed

section \<open>Properties\<close>

text \<open>C1: one call of \<^verbatim>\<open>nexti\<close> on a well-formed image that does not leave the defined part of C
  returns the status and the state of the instruction-set specification, on every instruction and
  every early return, and keeps the image well formed.\<close>

theorem nexti_implements_isa:
  assumes "wf_sim s" and "nexti s = Some (st, s')"
  shows "isa_step (isa_of s) = (st, isa_of s') \<and> wf_sim s'"
  using nexti_refines [OF assms(1)] assms(2) by (simp add: implements_def)

theorem nexti_implements_isa_witness:
  "wf_sim (boot [0x10]) \<and>
   (\<exists>s'. nexti (boot [0x10]) = Some (STAT_AOK, s') \<and>
         isa_step (isa_of (boot [0x10])) = (STAT_AOK, isa_of s') \<and> sim_pc s' = 1)"
proof -
  have wf: "wf_sim (boot [0x10])" by (rule boot_wf) simp
  have "\<not> bad_access (isa_of (boot [0x10]))"
    by (simp add: bad_access_def decode_def rd8_def boot_def HIGH_def)
  then obtain st s' where st: "nexti (boot [0x10]) = Some (st, s')"
    using nexti_None [OF wf] by (cases "nexti (boot [0x10])") auto
  have "isa_step (isa_of (boot [0x10])) = (STAT_AOK, isa_of (boot [0x10])\<lparr>ipc := 1\<rparr>)"
    by (simp add: isa_step_def decode_def rd8_def boot_def HIGH_def)
  with nexti_implements_isa [OF wf st] have "st = STAT_AOK" "isa_of s' = isa_of (boot [0x10])\<lparr>ipc := 1\<rparr>"
    by auto
  moreover from this(2) have "sim_pc s' = 1" using isa_of_sel(1) [of s'] by simp
  ultimately show ?thesis
    using wf st nexti_implements_isa [OF wf st] by auto
qed


text \<open>A program that reaches that situation: \<^verbatim>\<open>irmovq $0x7ffffffffffffff8, %rax; mrmovq (%rax), %rbx\<close>.\<close>

definition wrap_prog :: "byte list" where
  "wrap_prog = [0x30, 0xF0, 0xF8, 0xFF, 0xFF, 0xFF, 0xFF, 0xFF, 0xFF, 0x7F,
                0x50, 0x30, 0, 0, 0, 0, 0, 0, 0, 0]"

definition wrap_sim :: y64sim where
  "wrap_sim = (boot wrap_prog)\<lparr>sim_pc := 10,
     sim_r := \<lparr>mlen = 128, mdata = long_bytes 0x7FFFFFFFFFFFFFF8 @ replicate 120 0\<rparr>\<rparr>"

lemma wrap_sim_wf: "wf_sim wrap_sim"
proof -
  have "wf_mem (sim_m (boot wrap_prog))"
    using boot_wf [of wrap_prog] by (simp add: wf_sim_def wrap_prog_def)
  then have "wf_mem (sim_m wrap_sim)" by (simp add: wrap_sim_def)
  moreover have "wf_reg (sim_r wrap_sim)"
    by (simp add: wrap_sim_def wf_reg_def wf_mem_def BLK_SIZE_def)
  ultimately show ?thesis by (simp add: wf_sim_def)
qed

lemma wrap_sim_decode:
  "decode (mdata (sim_m wrap_sim)) (sim_pc wrap_sim) = Some (Mrmov 0 0 3, 20)"
  by (simp add: decode_def rd8_def rd64_def wrap_sim_def boot_def wrap_prog_def HIGH_def LOW_def
      bytes_long_def upt_8)


lemma run_loop_None:
  assumes "wf_sim s" and "nat (mx - k) = n"
  shows "run_loop s k mx e = None \<longleftrightarrow>
    e = STAT_AOK \<and> (\<exists>j<n. \<exists>s'. isa_run j e (isa_of s) = (j, STAT_AOK, s') \<and> bad_access s')"
  using assms
proof (induction n arbitrary: s k e)
  case 0
  then show ?case by (subst run_loop.simps) auto
next
  case (Suc n)
  show ?case
  proof (cases "e = STAT_AOK")
    case False
    then show ?thesis by (subst run_loop.simps) simp
  next
    case True
    have "k < mx" using Suc.prems by auto
    show ?thesis
    proof (cases "nexti s")
      case None
      with nexti_None [OF Suc.prems(1)] have "bad_access (isa_of s)" by simp
      then have "\<exists>j<Suc n. \<exists>s'. isa_run j e (isa_of s) = (j, STAT_AOK, s') \<and> bad_access s'"
        using True by (intro exI [of _ 0]) simp
      with None True \<open>k < mx\<close> show ?thesis by (subst run_loop.simps) simp
    next
      case (Some p)
      obtain e1 s1 where p: "p = (e1, s1)" by (cases p)
      have step: "isa_step (isa_of s) = (e1, isa_of s1)" "wf_sim s1"
        using nexti_refines [OF Suc.prems(1)] Some p by (auto simp: implements_def)
      have nb: "\<not> bad_access (isa_of s)" using nexti_None [OF Suc.prems(1)] Some by simp
      have "run_loop s k mx e = run_loop s1 (k + 1) mx e1"
        using True Some p \<open>k < mx\<close> by (subst run_loop.simps) simp
      also have "\<dots> = None \<longleftrightarrow> e1 = STAT_AOK \<and>
          (\<exists>j<n. \<exists>s'. isa_run j e1 (isa_of s1) = (j, STAT_AOK, s') \<and> bad_access s')"
        using Suc.prems by (intro Suc.IH step) auto
      also have "\<dots> \<longleftrightarrow> (\<exists>j<n. \<exists>s'. isa_run (Suc j) e (isa_of s) = (Suc j, STAT_AOK, s') \<and> bad_access s')"
      proof -
        have "isa_run (Suc j) e (isa_of s) = (Suc j, STAT_AOK, s') \<longleftrightarrow>
            isa_run j e1 (isa_of s1) = (j, STAT_AOK, s')" for j s'
          using True step(1) by (cases "isa_run j e1 (isa_of s1)") simp
        then show ?thesis using isa_run_first by blast
      qed
      also have "\<dots> \<longleftrightarrow> (\<exists>j<Suc n. \<exists>s'. isa_run j e (isa_of s) = (j, STAT_AOK, s') \<and> bad_access s')"
        using nb by (subst ex_less_Suc_split) simp
      finally show ?thesis using True by simp
    qed
  qed
qed

lemma sim_main_facts:
  shows "ferr \<or> 8192 \<le> length content \<Longrightarrow> sim_main content ferr mx = Some None"
    and "length content < 8192 \<Longrightarrow> sim_main content False mx = None \<longleftrightarrow>
      (\<exists>j<nat mx. \<exists>s. isa_run j STAT_AOK (isa_of (boot content)) = (j, STAT_AOK, s) \<and> bad_access s)"
    and "length content < 8192 \<Longrightarrow> sim_main content False mx = Some rep \<Longrightarrow>
      \<exists>rp. rep = Some rp \<and> 0 \<le> rep_steps rp \<and> nat (rep_steps rp) \<le> nat mx \<and>
        isa_run (nat mx) STAT_AOK (isa_of (boot content)) =
          (nat (rep_steps rp), rep_stat rp, isa_of (rep_sim rp)) \<and>
        (rep_stat rp = STAT_AOK \<longrightarrow> int (nat mx) = rep_steps rp)"
proof -
  show "ferr \<or> 8192 \<le> length content \<Longrightarrow> sim_main content ferr mx = Some None"
    by (rule sim_main_refused)
next
  assume len: "length content < 8192"
  have "sim_main content False mx = None \<longleftrightarrow> run_loop (boot content) 0 mx STAT_AOK = None"
  proof (cases "run_loop (boot content) 0 mx STAT_AOK")
    case None
    then show ?thesis by (simp add: sim_main_boot [OF len])
  next
    case (Some p)
    obtain k e s' where p: "p = (k, e, s')" by (cases p)
    from run_loop_diffs [OF boot_wf [OF len] Some [unfolded p]] Some p
    show ?thesis by (auto simp: sim_main_boot [OF len])
  qed
  with run_loop_None [OF boot_wf [OF len], of mx 0 "nat mx" STAT_AOK]
  show "sim_main content False mx = None \<longleftrightarrow>
      (\<exists>j<nat mx. \<exists>s. isa_run j STAT_AOK (isa_of (boot content)) = (j, STAT_AOK, s) \<and> bad_access s)"
    by simp
next
  assume len: "length content < 8192" and main: "sim_main content False mx = Some rep"
  from main obtain k e s' where run: "run_loop (boot content) 0 mx STAT_AOK = Some (k, e, s')"
    unfolding sim_main_boot [OF len] by (auto simp: bind_eq_Some_conv)
  from run_loop_diffs [OF boot_wf [OF len] run] main run
  obtain rp where rp: "rep = Some rp" "rep_steps rp = k" "rep_stat rp = e" "rep_sim rp = s'"
    unfolding sim_main_boot [OF len] by auto
  note spec = run_loop_spec [OF boot_wf [OF len] refl run]
  then have isa: "isa_run (nat mx) STAT_AOK (isa_of (boot content)) = (nat k, e, isa_of s')" by simp
  from isa_run_le [OF isa] have "nat k \<le> nat mx" .
  moreover have "e = STAT_AOK \<Longrightarrow> nat k = nat mx"
    using isa isa_run_full by metis
  ultimately show "\<exists>rp. rep = Some rp \<and> 0 \<le> rep_steps rp \<and> nat (rep_steps rp) \<le> nat mx \<and>
        isa_run (nat mx) STAT_AOK (isa_of (boot content)) =
          (nat (rep_steps rp), rep_stat rp, isa_of (rep_sim rp)) \<and>
        (rep_stat rp = STAT_AOK \<longrightarrow> int (nat mx) = rep_steps rp)"
    using rp isa spec by auto
qed



lemma long_store_facts:
  assumes "wf_mem x" and "set_long_val x a v = Some (Some x')"
  shows "get_long_val x' a = Some (Some v)" and "wf_mem x' \<and> mlen x' = mlen x"
    and "\<forall>b. sint b + 8 \<le> sint a \<or> sint a + 8 \<le> sint b \<longrightarrow> get_long_val x' b = get_long_val x b"
    and "\<forall>b. sint b < sint a \<or> sint a + 8 \<le> sint b \<longrightarrow> get_byte_val x' b = get_byte_val x b"
proof -
  have w: "wr64 (mdata x) a v = Some (mdata x')" "x' = x\<lparr>mdata := mdata x'\<rparr>" "\<not> wraps a"
    using assms by (auto simp: wr64_spec split: if_splits)
  then have rng: "0 \<le> sint a" "nat (sint a) + 8 \<le> length (mdata x)"
    and d: "mdata x' = splice_at (nat (sint a)) (long_bytes v) (mdata x)"
    by (auto simp: wr64_def split: if_splits)
  show wf: "wf_mem x' \<and> mlen x' = mlen x" using set_long_val_wf [OF assms] .
  have len: "length (mdata x') = length (mdata x)" using rng d by simp
  have "bytes_long (drop (nat (sint a)) (mdata x')) = v"
    using bytes_long_cong [of "drop (nat (sint a)) (mdata x')" "long_bytes v"]
      splice_at_same [of "nat (sint a)" "long_bytes v" "mdata x"] rng d by simp
  then show "get_long_val x' a = Some (Some v)"
    using wf w rng len by (auto simp: rd64_spec rd64_def)
  show "\<forall>b. sint b + 8 \<le> sint a \<or> sint a + 8 \<le> sint b \<longrightarrow> get_long_val x' b = get_long_val x b"
  proof (intro allI impI)
    fix b :: i64
    assume b: "sint b + 8 \<le> sint a \<or> sint a + 8 \<le> sint b"
    show "get_long_val x' b = get_long_val x b"
    proof (cases "0 \<le> sint b \<and> sint b + 8 \<le> int (length (mdata x))")
      case True
      then have "take 8 (drop (nat (sint b)) (mdata x')) = take 8 (drop (nat (sint b)) (mdata x))"
        unfolding d using b rng by (intro splice_at_other) auto
      then have "bytes_long (drop (nat (sint b)) (mdata x')) = bytes_long (drop (nat (sint b)) (mdata x))"
        by (rule bytes_long_cong)
      then show ?thesis using True wf assms(1) len by (simp add: rd64_spec rd64_def)
    next
      case False
      then have "rd64 (mdata x') b = None" "rd64 (mdata x) b = None" using len by (auto simp: rd64_def)
      then show ?thesis using wf assms(1) by (simp add: rd64_spec)
    qed
  qed
  show "\<forall>b. sint b < sint a \<or> sint a + 8 \<le> sint b \<longrightarrow> get_byte_val x' b = get_byte_val x b"
    using wf assms(1) len rng by (auto simp: rd8_spec rd8_def d nth_splice_at)
qed

text \<open>C10: a 64-bit store is read back unchanged, leaves every disjoint 64-bit location and every
  byte outside its eight bytes as it was, and keeps the image well formed; both are refused at the
  same addresses.\<close>

theorem long_store_load:
  assumes "wf_mem x" and "set_long_val x a v = Some (Some x')"
  shows "get_long_val x' a = Some (Some v) \<and> wf_mem x' \<and> mlen x' = mlen x \<and>
    (\<forall>b. sint b + 8 \<le> sint a \<or> sint a + 8 \<le> sint b \<longrightarrow> get_long_val x' b = get_long_val x b) \<and>
    (\<forall>b. sint b < sint a \<or> sint a + 8 \<le> sint b \<longrightarrow> get_byte_val x' b = get_byte_val x b)"
  using long_store_facts [OF assms] by blast

theorem long_store_load_witness:
  "\<exists>x'. set_long_val (init_mem 32) 8 0x1234 = Some (Some x') \<and> get_long_val x' 8 = Some (Some 0x1234)"
proof -
  have wf: "wf_mem (init_mem 32)" by (rule init_mem_wf) auto
  have "set_long_val (init_mem 32) 8 0x1234 =
      Some (Some ((init_mem 32)\<lparr>mdata := splice_at (nat (sint (8::i64))) (long_bytes 0x1234) (mdata (init_mem 32))\<rparr>))"
    by (rule set_long_val_in [OF wf]) (simp add: in_long_def init_mem_def BLK_SIZE_def)
  then show ?thesis using long_store_load [OF wf] by blast
qed

lemma compute_cc_facts:
  assumes "fits_int a" and "fits_int b" and "fits_int (compute_alu op a b)"
  shows "compute_cc op a b (compute_alu op a b) = arch_cc op a b (compute_alu op a b)"
    and "op = A_SUB \<Longrightarrow> flags = compute_cc op a b (b - a) \<Longrightarrow>
      (cond_doit flags C_LE \<longleftrightarrow> sint b \<le> sint a) \<and> (cond_doit flags C_L \<longleftrightarrow> sint b < sint a) \<and>
      (cond_doit flags C_E \<longleftrightarrow> b = a) \<and> (cond_doit flags C_NE \<longleftrightarrow> b \<noteq> a) \<and>
      (cond_doit flags C_GE \<longleftrightarrow> sint b \<ge> sint a) \<and> (cond_doit flags C_G \<longleftrightarrow> sint b > sint a)"
proof -
  show cc: "compute_cc op a b (compute_alu op a b) = arch_cc op a b (compute_alu op a b)"
    by (rule compute_cc_arch [OF assms])
  assume "op = A_SUB" and "flags = compute_cc op a b (b - a)"
  then have f: "flags = arch_cc A_SUB a b (b - a)" using cc by (simp add: compute_alu_def)
  have eq: "sint b = sint a \<longleftrightarrow> b = a" by (metis signed_word_eqI)
  show "(cond_doit flags C_LE \<longleftrightarrow> sint b \<le> sint a) \<and> (cond_doit flags C_L \<longleftrightarrow> sint b < sint a) \<and>
      (cond_doit flags C_E \<longleftrightarrow> b = a) \<and> (cond_doit flags C_NE \<longleftrightarrow> b \<noteq> a) \<and>
      (cond_doit flags C_GE \<longleftrightarrow> sint b \<ge> sint a) \<and> (cond_doit flags C_G \<longleftrightarrow> sint b > sint a)"
    unfolding f arch_sub_pack cond_doit_pack compute_alu_sint [OF assms(1,2)]
    using eq by auto
qed

text \<open>When both operands and the result of an addition, subtraction or logical operation are
  in the range of a 32-bit \<^verbatim>\<open>int\<close>, \<^verbatim>\<open>compute_cc\<close> is the architectural flags, and after
  \<^verbatim>\<open>subq rA, rB\<close> each of the six conditions decides the signed comparison of rB with rA.\<close>

lemma compute_cc_correct_in_range:
  assumes "fits_int a" and "fits_int b" and "fits_int (compute_alu op a b)"
  shows "compute_cc op a b (compute_alu op a b) = arch_cc op a b (compute_alu op a b) \<and>
    (op = A_SUB \<longrightarrow> flags = compute_cc op a b (b - a) \<longrightarrow>
      (cond_doit flags C_LE \<longleftrightarrow> sint b \<le> sint a) \<and> (cond_doit flags C_L \<longleftrightarrow> sint b < sint a) \<and>
      (cond_doit flags C_E \<longleftrightarrow> b = a) \<and> (cond_doit flags C_NE \<longleftrightarrow> b \<noteq> a) \<and>
      (cond_doit flags C_GE \<longleftrightarrow> sint b \<ge> sint a) \<and> (cond_doit flags C_G \<longleftrightarrow> sint b > sint a))"
  using compute_cc_facts [OF assms] by blast

lemma compute_cc_correct_in_range_witness:
  "cond_doit (compute_cc A_SUB 7 5 (5 - 7)) C_L"
proof -
  have "fits_int 7" "fits_int 5" "fits_int (compute_alu A_SUB 7 5)"
    by (simp_all add: fits_int_def compute_alu_def)
  from compute_cc_correct_in_range [OF this, of "compute_cc A_SUB 7 5 (5 - 7)"] show ?thesis by simp
qed

text \<open>C8: the sign flag of \<^verbatim>\<open>compute_cc\<close> is bit 31 of the result, where the architecture's is
  bit 63; so \<^verbatim>\<open>subq\<close> of 1 from 0x80000001 (both positive) takes the less-than branch.\<close>

theorem compute_cc_sign_flag_truncated:
  "(GET_SF (compute_cc op a b v) = of_bool (bit v 31)) \<and>
   (GET_SF (arch_cc op a b v) = of_bool (bit v 63)) \<and>
   cond_doit (compute_cc A_SUB 1 0x80000001 (0x80000001 - 1)) C_L \<and>
   \<not> sint (0x80000001 :: i64) < sint (1 :: i64)"
proof -
  have "GET_SF (compute_cc op a b v) = of_bool (bit v 31)" "GET_SF (arch_cc op a b v) = of_bool (bit v 63)"
    by (simp_all add: compute_cc_def arch_cc_def Let_def int_of_long_neg sint_neg)
  moreover have "cond_doit (compute_cc A_SUB 1 0x80000001 (0x80000001 - 1)) C_L"
    by (simp add: compute_cc_def Let_def int_of_long_def cond_doit_def)
  ultimately show ?thesis by simp
qed

end
