(* ===== verification/CStdio.thy ===== *)
theory CStdio
  imports Prelude "HOL-Library.Char_ord"
begin

text \<open>
  The parts of the C library the labs parse text with: character classes, the digits of
  \<^verbatim>\<open>strtol\<close>-like conversions, \<^verbatim>\<open>fgets\<close> and the string in a \<^verbatim>\<open>char\<close> buffer.
\<close>

section \<open>Characters and numbers\<close>

definition char_between :: "char \<Rightarrow> char \<Rightarrow> char \<Rightarrow> bool" where
  [simp]: "char_between lo hi c \<longleftrightarrow> lo \<le> c \<and> c \<le> hi"

definition dec_char :: "char \<Rightarrow> bool" where
  "dec_char c \<longleftrightarrow> char_between CHR ''0'' CHR ''9'' c"

definition hex_val :: "char \<Rightarrow> nat option" where
  "hex_val c =
     (if dec_char c then Some (of_char c - 48)
      else if char_between CHR ''a'' CHR ''f'' c then Some (of_char c - 87)
      else if char_between CHR ''A'' CHR ''F'' c then Some (of_char c - 55)
      else None)"

definition base_digit :: "nat \<Rightarrow> char \<Rightarrow> bool" where
  "base_digit base c = (case hex_val c of None \<Rightarrow> False | Some d \<Rightarrow> d < base)"

definition digits_val :: "nat \<Rightarrow> string \<Rightarrow> nat" where
  "digits_val base ds = foldl (\<lambda>n c. n * base + the (hex_val c)) 0 ds"

text \<open>The optional sign, then the base prefix, then the digits; out of range saturates.\<close>

fun strtoull_sign :: "string \<Rightarrow> bool \<times> string" where
  "strtoull_sign [] = (False, [])"
| "strtoull_sign (c # s) =
     (if c = CHR ''-'' then (True, s) else if c = CHR ''+'' then (False, s) else (False, c # s))"

fun hex_prefix :: "string \<Rightarrow> bool" where
  "hex_prefix (c # x # h # _) \<longleftrightarrow> c = CHR ''0'' \<and> (x = CHR ''x'' \<or> x = CHR ''X'') \<and> base_digit 16 h"
| "hex_prefix _ \<longleftrightarrow> False"

text \<open>\<^verbatim>\<open>strtol\<close> with base 10 or 16, before saturation.\<close>

definition isspace :: "char \<Rightarrow> bool" where
  "isspace c \<longleftrightarrow> c = CHR '' '' \<or> char_between (CHR 0x09) (CHR 0x0D) c"

definition strto :: "nat \<Rightarrow> string \<Rightarrow> int" where
  "strto base s =
     (let (neg, t) = strtoull_sign (dropWhile isspace s);
          u = (if base = 16 \<and> hex_prefix t then drop 2 t else t);
          n = digits_val base (takeWhile (base_digit base) u)
      in if neg then - int n else int n)"

text \<open>\<^verbatim>\<open>atoi\<close>, undefined out of range.\<close>

definition atoi :: "string \<Rightarrow> int ub" where
  "atoi s = (let v = strto 10 s in if int_ok v then Some v else None)"

section \<open>Lines and strings\<close>

abbreviation (input) "NL \<equiv> CHR 0x0A"
abbreviation (input) "CR \<equiv> CHR 0x0D"

text \<open>\<^verbatim>\<open>fgets(buf, n + 1, in)\<close>: what it stores and what it leaves.\<close>

fun fgets_line :: "nat \<Rightarrow> string \<Rightarrow> string \<times> string" where
  "fgets_line 0 s = ([], s)"
| "fgets_line (Suc n) [] = ([], [])"
| "fgets_line (Suc n) (c # s) =
     (if c = NL then ([c], s) else let (l, r) = fgets_line n s in (c # l, r))"

definition c_str :: "string \<Rightarrow> string" where
  "c_str = takeWhile (\<lambda>c. c \<noteq> CHR 0x00)"

lemma fgets_line_le: "length (snd (fgets_line n s)) \<le> length s"
  by (induction n s rule: fgets_line.induct) (auto split: prod.splits)

lemma fgets_line_length:
  assumes "0 < n" and "s \<noteq> []"
  shows "length (snd (fgets_line n s)) < length s"
proof -
  obtain m c t where "n = Suc m" "s = c # t" using assms by (cases n; cases s) auto
  then show ?thesis using fgets_line_le [of m t] by (auto split: prod.splits)
qed

lemma fgets_whole: "NL \<notin> set s \<Longrightarrow> length s < n \<Longrightarrow> fgets_line n (s @ NL # t) = (s @ [NL], t)"
proof (induction s arbitrary: n)
  case Nil
  then show ?case by (cases n) auto
next
  case (Cons c s)
  then obtain m where "n = Suc m" by (cases n) auto
  then show ?case using Cons by auto
qed

text \<open>A hexadecimal digit is none of the characters the conversions treat specially.\<close>

lemma base_digit_not:
  assumes "base_digit 16 c"
  shows "\<not> isspace c" and "c \<notin> {CHR 0x00, CHR 0x0A, CHR ''-'', CHR ''+'', CHR '','', CHR ''x'', CHR ''X''}"
  using assms by (auto simp: base_digit_def hex_val_def isspace_def dec_char_def less_eq_char_def split: if_splits)

lemma strto_hex:
  assumes "list_all (base_digit 16) ds"
  shows "strto 16 ds = int (digits_val 16 ds)"
proof (cases ds)
  case Nil
  then show ?thesis by (simp add: strto_def digits_val_def)
next
  case (Cons c s)
  then have c: "base_digit 16 c" using assms by simp
  have "\<not> hex_prefix ds"
  proof
    assume "hex_prefix ds"
    then obtain c x h r where "ds = c # x # h # r" "x = CHR ''x'' \<or> x = CHR ''X''"
      by (cases ds rule: hex_prefix.cases) auto
    then show False using assms base_digit_not(2) [of x] by auto
  qed
  moreover have "takeWhile (base_digit 16) ds = ds" using assms by (simp add: list_all_iff)
  moreover have "strtoull_sign (dropWhile isspace ds) = (False, ds)"
    using base_digit_not [OF c] by (auto simp: Cons)
  ultimately show ?thesis by (simp add: strto_def del: takeWhile_eq_all_conv)
qed

section \<open>Decimal numbers\<close>

text \<open>What \<^verbatim>\<open>%d\<close> prints of a number that is not negative.\<close>

function show_nat :: "nat \<Rightarrow> string" where
  "show_nat n = (if n < 10 then [] else show_nat (n div 10)) @ [char_of (n mod 10 + 48)]"
  by pat_completeness auto

termination by (relation "measure id") auto

declare show_nat.simps [simp del]

text \<open>And of any \<^verbatim>\<open>int\<close>.\<close>

definition show_int :: "int \<Rightarrow> string" where
  "show_int n = (if n < 0 then CHR ''-'' # show_nat (nat (- n)) else show_nat (nat n))"

lemma digits_val_snoc: "digits_val b (ds @ [c]) = digits_val b ds * b + the (hex_val c)"
  by (simp add: digits_val_def)

lemma dec_digits_table:
  "list_all (\<lambda>d. dec_char (char_of (d + 48)) \<and> hex_val (char_of (d + 48)) = Some (nat d)) [0, 1, 2, 3, 4, 5, 6, 7, 8, 9 :: int]"
  by code_simp

lemma dec_digit:
  assumes "0 \<le> d" and "d < (10::int)"
  shows "dec_char (char_of (d + 48))" and "hex_val (char_of (d + 48)) = Some (nat d)"
proof -
  have "d \<in> set [0, 1, 2, 3, 4, 5, 6, 7, 8, 9]" unfolding list.set insert_iff empty_iff using assms by arith
  then show "dec_char (char_of (d + 48))" and "hex_val (char_of (d + 48)) = Some (nat d)"
    using dec_digits_table unfolding list_all_iff by blast+
qed

lemma dec_base_digit: "dec_char c \<Longrightarrow> base_digit 10 c \<and> \<not> isspace c \<and> c \<noteq> CHR ''-'' \<and> c \<noteq> CHR ''+''"
  by (auto simp: dec_char_def base_digit_def hex_val_def isspace_def less_eq_char_def)

lemma dec_digits_nat_table:
  "list_all (\<lambda>d. dec_char (char_of (d + 48)) \<and> hex_val (char_of (d + 48)) = Some d) [0, 1, 2, 3, 4, 5, 6, 7, 8, 9 :: nat]"
  by code_simp

lemma show_nat_digits: "list_all dec_char (show_nat n) \<and> show_nat n \<noteq> [] \<and> digits_val 10 (show_nat n) = n"
proof (induction n rule: show_nat.induct)
  case (1 n)
  have "n mod 10 < 10" by simp
  then have "n mod 10 \<in> set [0, 1, 2, 3, 4, 5, 6, 7, 8, 9]" unfolding list.set insert_iff empty_iff by arith
  then have d: "dec_char (char_of (n mod 10 + 48))" "hex_val (char_of (n mod 10 + 48)) = Some (n mod 10)"
    using dec_digits_nat_table unfolding list_all_iff by blast+
  show ?case
  proof (cases "n < 10")
    case True
    then show ?thesis using d by (simp add: show_nat.simps [of n] digits_val_def)
  next
    case False
    then show ?thesis using 1 d by (simp add: show_nat.simps [of n] digits_val_snoc)
  qed
qed

lemma strto_dec:
  assumes "list_all dec_char ds" and "ds \<noteq> [] \<Longrightarrow> s = [] \<or> \<not> base_digit 10 (hd s)" and "ds \<noteq> []"
  shows "strto 10 (ds @ s) = int (digits_val 10 ds)" and "strto 10 (CHR ''-'' # ds @ s) = - int (digits_val 10 ds)"
proof -
  have d: "list_all (base_digit 10) ds" "dropWhile isspace (ds @ s) = ds @ s" "strtoull_sign (ds @ s) = (False, ds @ s)"
    using assms(1,3) dec_base_digit by (cases ds; auto simp: list_all_iff)+
  moreover have "takeWhile (base_digit 10) (ds @ s) = ds"
    using d(1) assms(2,3) by (cases s) (auto simp: list_all_iff)
  moreover have "\<not> isspace CHR ''-''" by (simp add: isspace_def less_eq_char_def)
  ultimately show "strto 10 (ds @ s) = int (digits_val 10 ds)" "strto 10 (CHR ''-'' # ds @ s) = - int (digits_val 10 ds)"
    by (auto simp: strto_def)
qed

lemma strto_show_nat [simp]: "strto 10 (show_nat n) = int n"
  using strto_dec(1) [of "show_nat n" "[]"] show_nat_digits [of n] by simp

end
