(* ===== verification/Y64_Lex.thy ===== *)
theory Y64_Lex
  imports Y64_Sim CStdio "HOL-Library.Sublist"
begin

text \<open>
  The token parsers of the Y64 assembler (\<^verbatim>\<open>lab5/y64asm.c\<close>): the register and instruction tables,
  the character macros and the \<^verbatim>\<open>parse_xxx\<close> functions.  A \<^verbatim>\<open>char *\<close> into the current line is the
  rest of the line from there (\<^term>\<open>[]\<close> at the terminator; the line holds no NUL).  A parser returns
  \<^term>\<open>None\<close> for PARSE_ERR and otherwise the value it stores and the moved pointer.
\<close>

section \<open>Tables\<close>

text \<open>\<^verbatim>\<open>reg_table\<close>: name, id, length of the name.\<close>

definition asm_reg_table :: "(string \<times> nat \<times> nat) list" where
  "asm_reg_table =
    [(''%rax'', 0, 4), (''%rcx'', 1, 4), (''%rdx'', 2, 4), (''%rbx'', 3, 4), (''%rsp'', 4, 4),
     (''%rbp'', 5, 4), (''%rsi'', 6, 4), (''%rdi'', 7, 4), (''%r8'', 8, 3), (''%r9'', 9, 3),
     (''%r10'', 10, 4), (''%r11'', 11, 4), (''%r12'', 12, 4), (''%r13'', 13, 4), (''%r14'', 14, 4)]"

text \<open>\<^verbatim>\<open>strncmp(s, t, n) == 0\<close> on strings without NUL.\<close>

definition strncmp_eq :: "nat \<Rightarrow> string \<Rightarrow> string \<Rightarrow> bool" where
  "strncmp_eq n s t \<longleftrightarrow> take n s = take n t"

definition find_register :: "string \<Rightarrow> (string \<times> nat \<times> nat) option" where
  "find_register name = List.find (\<lambda>(nm, _, len). strncmp_eq len name nm) asm_reg_table"

abbreviation (input) "I_DIRECTIVE \<equiv> 12::nat"
abbreviation (input) "F_NONE \<equiv> 0::nat"
abbreviation (input) "D_DATA \<equiv> 0::nat"
abbreviation (input) "D_POS \<equiv> 1::nat"
abbreviation (input) "D_ALIGN \<equiv> 2::nat"

record instr_t =
  iname :: string
  ilen :: nat
  icode :: byte
  ibytes :: nat

definition mk_instr :: "string \<Rightarrow> nat \<Rightarrow> byte \<Rightarrow> nat \<Rightarrow> instr_t" where
  "mk_instr nm l c n = \<lparr>iname = nm, ilen = l, icode = c, ibytes = n\<rparr>"

definition instr_set :: "instr_t list" where
  "instr_set =
    [mk_instr ''nop'' 3 (HPACK I_NOP F_NONE) 1,
     mk_instr ''halt'' 4 (HPACK I_HALT F_NONE) 1,
     mk_instr ''rrmovq'' 6 (HPACK I_RRMOVQ F_NONE) 2,
     mk_instr ''cmovle'' 6 (HPACK I_RRMOVQ C_LE) 2,
     mk_instr ''cmovl'' 5 (HPACK I_RRMOVQ C_L) 2,
     mk_instr ''cmove'' 5 (HPACK I_RRMOVQ C_E) 2,
     mk_instr ''cmovne'' 6 (HPACK I_RRMOVQ C_NE) 2,
     mk_instr ''cmovge'' 6 (HPACK I_RRMOVQ C_GE) 2,
     mk_instr ''cmovg'' 5 (HPACK I_RRMOVQ C_G) 2,
     mk_instr ''irmovq'' 6 (HPACK I_IRMOVQ F_NONE) 10,
     mk_instr ''rmmovq'' 6 (HPACK I_RMMOVQ F_NONE) 10,
     mk_instr ''mrmovq'' 6 (HPACK I_MRMOVQ F_NONE) 10,
     mk_instr ''addq'' 4 (HPACK I_ALU A_ADD) 2,
     mk_instr ''subq'' 4 (HPACK I_ALU A_SUB) 2,
     mk_instr ''andq'' 4 (HPACK I_ALU A_AND) 2,
     mk_instr ''xorq'' 4 (HPACK I_ALU A_XOR) 2,
     mk_instr ''jmp'' 3 (HPACK I_JMP C_YES) 9,
     mk_instr ''jle'' 3 (HPACK I_JMP C_LE) 9,
     mk_instr ''jl'' 2 (HPACK I_JMP C_L) 9,
     mk_instr ''je'' 2 (HPACK I_JMP C_E) 9,
     mk_instr ''jne'' 3 (HPACK I_JMP C_NE) 9,
     mk_instr ''jge'' 3 (HPACK I_JMP C_GE) 9,
     mk_instr ''jg'' 2 (HPACK I_JMP C_G) 9,
     mk_instr ''call'' 4 (HPACK I_CALL F_NONE) 9,
     mk_instr ''ret'' 3 (HPACK I_RET F_NONE) 1,
     mk_instr ''pushq'' 5 (HPACK I_PUSHQ F_NONE) 2,
     mk_instr ''popq'' 4 (HPACK I_POPQ F_NONE) 2,
     mk_instr ''.byte'' 5 (HPACK I_DIRECTIVE D_DATA) 1,
     mk_instr ''.word'' 5 (HPACK I_DIRECTIVE D_DATA) 2,
     mk_instr ''.long'' 5 (HPACK I_DIRECTIVE D_DATA) 4,
     mk_instr ''.quad'' 5 (HPACK I_DIRECTIVE D_DATA) 8,
     mk_instr ''.pos'' 4 (HPACK I_DIRECTIVE D_POS) 0,
     mk_instr ''.align'' 6 (HPACK I_DIRECTIVE D_ALIGN) 0]"

definition find_instr :: "string \<Rightarrow> instr_t option" where
  "find_instr name = List.find (\<lambda>e. strncmp_eq (ilen e) (iname e) name) instr_set"

section \<open>Character macros\<close>

definition head_is :: "(char \<Rightarrow> bool) \<Rightarrow> string \<Rightarrow> bool" where
  "head_is P s = (case s of [] \<Rightarrow> False | c # _ \<Rightarrow> P c)"

definition digit_char :: "char \<Rightarrow> bool" where
  "digit_char c \<longleftrightarrow> dec_char c \<or> c = CHR ''-'' \<or> c = CHR ''+''"

definition letter_char :: "char \<Rightarrow> bool" where
  "letter_char c \<longleftrightarrow> char_between CHR ''a'' CHR ''z'' c \<or> char_between CHR ''A'' CHR ''Z'' c"

definition blank_char :: "char \<Rightarrow> bool" where
  "blank_char c \<longleftrightarrow> c = CHR '' '' \<or> c = CHR 0x09"

definition IS_DIGIT :: "string \<Rightarrow> bool" where "IS_DIGIT = head_is digit_char"
definition IS_LETTER :: "string \<Rightarrow> bool" where "IS_LETTER = head_is letter_char"
definition IS_COMMENT :: "string \<Rightarrow> bool" where "IS_COMMENT = head_is (\<lambda>c. c = CHR ''#'')"
definition IS_REG :: "string \<Rightarrow> bool" where "IS_REG = head_is (\<lambda>c. c = CHR ''%'')"
definition IS_IMM :: "string \<Rightarrow> bool" where "IS_IMM = head_is (\<lambda>c. c = CHR ''$'')"
definition IS_END :: "string \<Rightarrow> bool" where "IS_END s \<longleftrightarrow> s = []"

fun SKIP_BLANK :: "string \<Rightarrow> string" where
  "SKIP_BLANK [] = []"
| "SKIP_BLANK (c # s) = (if blank_char c then SKIP_BLANK s else c # s)"

text \<open>\<^verbatim>\<open>(*ptr)--\<close> after the pointer moved inside \<open>s\<close> to \<open>t\<close>.\<close>

definition step_back :: "string \<Rightarrow> string \<Rightarrow> string" where
  "step_back s t = drop (length s - Suc (length t)) s"

section \<open>\<^verbatim>\<open>strtoull\<close> with base 0\<close>

definition strtoull_base :: "string \<Rightarrow> nat" where
  "strtoull_base t = (if hex_prefix t then 16 else if head_is (\<lambda>c. c = CHR ''0'') t then 8 else 10)"

definition strtoull0 :: "string \<Rightarrow> i64 \<times> string" where
  "strtoull0 s =
     (let (neg, t) = strtoull_sign s;
          u = (if hex_prefix t then drop 2 t else t);
          ds = takeWhile (base_digit (strtoull_base t)) u;
          n = digits_val (strtoull_base t) ds
      in if ds = [] then (0, s)
         else (if n \<ge> 2 ^ 64 then - 1 else if neg then - of_nat n else of_nat n, drop (length ds) u))"

section \<open>Parsers\<close>

definition parse_instr :: "string \<Rightarrow> (instr_t \<times> string) option" where
  "parse_instr p =
     (let p = SKIP_BLANK p
      in case find_instr p of None \<Rightarrow> None | Some ins \<Rightarrow> Some (ins, drop (ilen ins) p))"

definition parse_delim :: "char \<Rightarrow> string \<Rightarrow> string option" where
  "parse_delim delim p =
     (let p = SKIP_BLANK p
      in case p of [] \<Rightarrow> None | c # p' \<Rightarrow> if c \<noteq> delim then None else Some p')"

definition parse_reg :: "string \<Rightarrow> (nat \<times> string) option" where
  "parse_reg p =
     (let p = SKIP_BLANK p
      in if \<not> IS_REG p then None
         else case find_register p of None \<Rightarrow> None | Some (_, rid, len) \<Rightarrow> Some (rid, drop len p))"

definition sym_char :: "char \<Rightarrow> bool" where
  "sym_char c \<longleftrightarrow> letter_char c \<or> digit_char c"

definition parse_symbol :: "string \<Rightarrow> (string \<times> string) option" where
  "parse_symbol p =
     (let p = SKIP_BLANK p
      in if \<not> IS_LETTER p then None
         else Some (takeWhile sym_char p, dropWhile sym_char p))"

definition parse_digit :: "string \<Rightarrow> (i64 \<times> string) option" where
  "parse_digit p =
     (let p = SKIP_BLANK p in if \<not> IS_DIGIT p then None else Some (strtoull0 p))"

text \<open>An immediate or datum is a number or the name of a symbol.\<close>

datatype operand = Digit i64 | Symbol string

definition parse_imm :: "string \<Rightarrow> (operand \<times> string) option" where
  "parse_imm p =
     (let p = SKIP_BLANK p;
          sym = (\<lambda>q. if IS_LETTER q then map_option (\<lambda>(nm, q'). (Symbol nm, q')) (parse_symbol q) else None)
      in if IS_END p then None
         else if IS_IMM p
         then (case parse_digit (tl p) of
                 Some (v, p') \<Rightarrow> Some (Digit v, p')
               | None \<Rightarrow> sym (step_back p (SKIP_BLANK (tl p))))
         else sym p)"

definition parse_mem :: "i64 \<Rightarrow> string \<Rightarrow> ((i64 \<times> nat) \<times> string) option" where
  "parse_mem value p = do {
     let p = SKIP_BLANK p;
     (value, p) \<leftarrow> (if IS_DIGIT p then parse_digit p else Some (value, p));
     p \<leftarrow> parse_delim CHR ''('' p;
     (rid, p) \<leftarrow> (if \<not> IS_REG p then None else parse_reg p);
     p \<leftarrow> parse_delim CHR '')'' p;
     Some ((value, rid), p)
   }"

definition parse_data :: "string \<Rightarrow> (operand \<times> string) option" where
  "parse_data p =
     (let p = SKIP_BLANK p
      in if IS_END p then None
         else if IS_DIGIT p then map_option (\<lambda>(v, q). (Digit v, q)) (parse_digit p)
         else if IS_LETTER p then map_option (\<lambda>(nm, q). (Symbol nm, q)) (parse_symbol p)
         else None)"

definition parse_label :: "string \<Rightarrow> (string \<times> string) option" where
  "parse_label p =
     (let p = SKIP_BLANK p
      in if \<not> IS_LETTER p then None
         else case parse_delim CHR '':'' (dropWhile sym_char p) of
                None \<Rightarrow> None | Some q \<Rightarrow> Some (takeWhile sym_char p, q))"

section \<open>What every token parser promises\<close>

text \<open>A parser skips blanks first and leaves the pointer further on in the same line.\<close>

locale token_parser =
  fixes parse :: "string \<Rightarrow> ('a \<times> string) option"
  assumes parse_skip: "parse (SKIP_BLANK p) = parse p"
    and parse_suffix: "parse p = Some (v, q) \<Longrightarrow> suffix q p"
begin

lemma shrinks: "parse p = Some (v, q) \<Longrightarrow> length q \<le> length p"
  using parse_suffix by (blast dest: suffix_length_le)

lemma skips: "list_all blank_char b \<Longrightarrow> parse (b @ p) = parse p"
proof -
  assume "list_all blank_char b"
  then have "SKIP_BLANK (b @ p) = SKIP_BLANK p" by (induction b) auto
  then show ?thesis by (metis parse_skip)
qed

lemma keeps_nothing_new: "parse p = Some (v, q) \<Longrightarrow> set q \<subseteq> set p"
  using parse_suffix by (blast dest: set_mono_suffix)

end

lemma SKIP_BLANK_idem [simp]: "SKIP_BLANK (SKIP_BLANK p) = SKIP_BLANK p"
  by (induction p) auto

lemma SKIP_BLANK_suffix: "suffix (SKIP_BLANK p) p"
  by (induction p) (auto simp: suffix_ConsI)

lemma SKIP_BLANK_length: "length (SKIP_BLANK p) \<le> length p"
  using SKIP_BLANK_suffix by (rule suffix_length_le)

lemma suffix_drop': "suffix p q \<Longrightarrow> suffix (drop n p) q"
  using suffix_drop suffix_order.trans by blast

lemma suffix_dropWhile': "suffix p q \<Longrightarrow> suffix (dropWhile P p) q"
  using suffix_dropWhile suffix_order.trans by blast

lemma suffix_tl': "suffix p q \<Longrightarrow> suffix (tl p) q"
  using suffix_tl suffix_order.trans by blast

lemma strtoull_sign_suffix: "suffix (snd (strtoull_sign p)) p"
  by (cases p) (simp_all add: suffix_ConsI)

lemma strtoull0_suffix: "suffix (snd (strtoull0 p)) p"
  using strtoull_sign_suffix [of p]
  by (simp add: strtoull0_def Let_def case_prod_beta suffix_drop')

lemma skip_suffix: "SKIP_BLANK p = q \<Longrightarrow> suffix r q \<Longrightarrow> suffix r p"
  using SKIP_BLANK_suffix suffix_order.trans by blast

interpretation p_instr: token_parser parse_instr
  by unfold_locales
     (auto simp: parse_instr_def Let_def split: option.splits intro: skip_suffix [OF refl] suffix_drop)

interpretation p_reg: token_parser parse_reg
  by unfold_locales
     (auto simp: parse_reg_def Let_def split: option.splits if_splits intro: skip_suffix [OF refl] suffix_drop)

interpretation p_symbol: token_parser parse_symbol
  by unfold_locales
     (auto simp: parse_symbol_def Let_def split: if_splits intro: skip_suffix [OF refl] suffix_dropWhile)

interpretation p_digit: token_parser parse_digit
proof
  fix p v q
  assume "parse_digit p = Some (v, q)"
  then have "q = snd (strtoull0 (SKIP_BLANK p))"
    by (auto simp: parse_digit_def Let_def split: if_splits)
  then show "suffix q p" using strtoull0_suffix by (simp add: skip_suffix [OF refl])
qed (simp add: parse_digit_def)

lemma parse_delim_suffix: "parse_delim d p = Some q \<Longrightarrow> suffix q p \<and> length q < length p"
  using SKIP_BLANK_suffix [of p] SKIP_BLANK_length [of p]
  by (auto simp: parse_delim_def Let_def split: list.splits if_splits
      dest: suffix_ConsD suffix_length_le)

lemma parse_delim_skip: "parse_delim d (SKIP_BLANK p) = parse_delim d p"
  by (simp add: parse_delim_def)

lemma step_back_suffix: "suffix (step_back p q) p"
  by (simp add: step_back_def suffix_drop)

interpretation p_imm: token_parser parse_imm
proof
  fix p v q
  assume "parse_imm p = Some (v, q)"
  then consider w where "parse_digit (tl (SKIP_BLANK p)) = Some (w, q)"
    | w r where "parse_symbol r = Some (w, q)" "suffix r (SKIP_BLANK p)"
    using step_back_suffix
    by (auto simp: parse_imm_def Let_def split: option.splits if_splits)
  then have "suffix q (SKIP_BLANK p)"
    by cases (metis p_digit.parse_suffix suffix_tl suffix_order.trans,
              metis p_symbol.parse_suffix suffix_order.trans)
  then show "suffix q p" using SKIP_BLANK_suffix suffix_order.trans by blast
qed (simp add: parse_imm_def)

interpretation p_data: token_parser parse_data
proof
  fix p v q
  assume "parse_data p = Some (v, q)"
  then have "suffix q (SKIP_BLANK p)"
    by (auto simp: parse_data_def Let_def split: if_splits
        dest: p_digit.parse_suffix p_symbol.parse_suffix)
  then show "suffix q p" using SKIP_BLANK_suffix suffix_order.trans by blast
qed (simp add: parse_data_def)

interpretation p_mem: token_parser "parse_mem dflt" for dflt
proof
  fix p v q
  assume "parse_mem dflt p = Some (v, q)"
  then obtain w r s t u where steps:
    "IS_DIGIT (SKIP_BLANK p) \<and> parse_digit (SKIP_BLANK p) = Some (w, r) \<or> r = SKIP_BLANK p"
    "parse_delim CHR ''('' r = Some s" "parse_reg s = Some (t, u)" "parse_delim CHR '')'' u = Some q"
    by (fastforce simp: parse_mem_def Let_def split: if_splits bind_splits)
  then have "suffix r (SKIP_BLANK p)" "suffix s r" "suffix u s" "suffix q u"
    by (auto dest: p_digit.parse_suffix p_reg.parse_suffix parse_delim_suffix)
  then have "suffix q (SKIP_BLANK p)" by (metis suffix_order.trans)
  then show "suffix q p" using SKIP_BLANK_suffix suffix_order.trans by blast
qed (simp add: parse_mem_def)

interpretation p_label: token_parser parse_label
proof
  fix p v q
  assume "parse_label p = Some (v, q)"
  then have "suffix q (SKIP_BLANK p)"
    by (auto simp: parse_label_def Let_def split: if_splits option.splits
        dest!: parse_delim_suffix intro: suffix_order.trans suffix_dropWhile)
  then show "suffix q p" using SKIP_BLANK_suffix suffix_order.trans by blast
qed (simp add: parse_label_def)

lemma parse_label_shrinks: "parse_label p = Some (nm, q) \<Longrightarrow> length q < length p"
  using SKIP_BLANK_length [of p] length_dropWhile_le [of sym_char "SKIP_BLANK p"]
  by (fastforce simp: parse_label_def Let_def split: if_splits option.splits dest!: parse_delim_suffix)

lemma instr_set_len: "e \<in> set instr_set \<Longrightarrow> ilen e = length (iname e) \<and> 0 < ilen e"
  by (auto simp: instr_set_def mk_instr_def)

lemma find_instr_Some: "find_instr p = Some e \<Longrightarrow> e \<in> set instr_set \<and> take (ilen e) p = iname e"
proof -
  assume f: "find_instr p = Some e"
  then have e: "e \<in> set instr_set" by (auto simp: find_instr_def find_Some_iff)
  from f have "take (ilen e) (iname e) = take (ilen e) p"
    by (auto simp: find_instr_def find_Some_iff strncmp_eq_def)
  with e show ?thesis using instr_set_len [OF e] by auto
qed

lemma parse_instr_shrinks: "parse_instr p = Some (e, q) \<Longrightarrow> length q < length p"
proof -
  assume p: "parse_instr p = Some (e, q)"
  then have "find_instr (SKIP_BLANK p) = Some e" and q: "q = drop (ilen e) (SKIP_BLANK p)"
    by (auto simp: parse_instr_def Let_def split: option.splits)
  then have "take (ilen e) (SKIP_BLANK p) = iname e" "0 < ilen e" "length (iname e) = ilen e"
    using find_instr_Some instr_set_len by metis+
  then have "SKIP_BLANK p \<noteq> []" by auto
  then show ?thesis using q \<open>0 < ilen e\<close> SKIP_BLANK_length [of p]
    by (metis diff_less length_drop length_greater_0_conv order_less_le_trans)
qed

section \<open>Longest match\<close>

lemma find_first:
  assumes "sorted_wrt (\<lambda>x y. \<not> P x \<or> \<not> P y \<or> R x y) xs" and "List.find P xs = Some x"
  shows "\<forall>y \<in> set xs. P y \<longrightarrow> y = x \<or> R x y"
  using assms by (induction xs) (auto split: if_splits)

lemma instr_set_order: "sorted_wrt (\<lambda>x y. \<not> prefix (iname x) (iname y)) instr_set"
  by (simp add: instr_set_def mk_instr_def)

lemma find_instr_match:
  "List.find (\<lambda>e. prefix (iname e) p) instr_set = find_instr p"
proof -
  have "prefix (iname e) p \<longleftrightarrow> strncmp_eq (ilen e) (iname e) p" if "e \<in> set instr_set" for e
    using instr_set_len [OF that] by (auto simp: strncmp_eq_def prefix_def) (metis append_take_drop_id)
  then show ?thesis unfolding find_instr_def by (intro find_cong) auto
qed

lemma find_instr_longest_aux:
  assumes "find_instr p = Some e" and "d \<in> set instr_set" and "prefix (iname d) p"
  shows "d = e \<or> length (iname d) < length (iname e)"
proof -
  have "sorted_wrt (\<lambda>x y. \<not> prefix (iname x) p \<or> \<not> prefix (iname y) p \<or> length (iname y) < length (iname x)) instr_set"
    by (rule sorted_wrt_mono_rel [OF _ instr_set_order])
       (metis prefix_length_prefix not_less)
  from find_first [OF this] show ?thesis
    using assms by (auto simp: find_instr_match)
qed

end
