(* ===== verification/Y64_Asm.thy ===== *)
theory Y64_Asm
  imports Y64_Lex "HOL-Library.Signed_Division"
begin

text \<open>
  The Y64 assembler (\<^verbatim>\<open>lab5/y64asm.c\<close>) above its token parsers: the symbol and relocation tables,
  \<^verbatim>\<open>parse_line\<close>, \<^verbatim>\<open>assemble\<close>, \<^verbatim>\<open>relocate\<close>, \<^verbatim>\<open>binfile\<close>, the listing and \<^verbatim>\<open>main\<close>.  The two tables are
  lists with the newest entry first, as the code links them; a relocation names its line by the
  line's position, which stands for the address of the line's \<^verbatim>\<open>bin_t\<close>.
\<close>

section \<open>State\<close>

datatype type_t = TYPE_COMM | TYPE_INS | TYPE_ERR

record line_t =
  l_type :: type_t
  l_addr :: i64
  l_codes :: "byte list"
  l_bytes :: nat
  l_asm :: string

text \<open>\<^verbatim>\<open>malloc\<close> and \<^verbatim>\<open>memset\<close> to zero, then the fields \<^verbatim>\<open>assemble\<close> sets.\<close>

definition new_line :: "string \<Rightarrow> line_t" where
  "new_line s = \<lparr>l_type = TYPE_COMM, l_addr = 0, l_codes = replicate 10 0, l_bytes = 0, l_asm = s\<rparr>"

text \<open>The messages of \<^verbatim>\<open>err_print\<close>, logged with the line number.\<close>

datatype asm_msg =
    Dup_symbol string | Invalid_instr | Invalid_Immediate | Invalid_Comma | Invalid_REG | Invalid_MEM
  | Invalid_DEST | Invalid_DATA | Invalid_POS | Invalid_ALIGN | Unknown_symbol string

record asm_t =
  as_lines :: "line_t list"
  as_lineno :: int
  as_vmaddr :: i64
  as_symtab :: "(string \<times> i64) list"
  as_reltab :: "(string \<times> nat) list"
  as_errs :: "(int \<times> asm_msg) list"

definition asm_init :: asm_t where
  "asm_init = \<lparr>as_lines = [], as_lineno = 0, as_vmaddr = 0, as_symtab = [], as_reltab = [], as_errs = []\<rparr>"

definition err_print :: "asm_msg \<Rightarrow> asm_t \<Rightarrow> asm_t" where
  "err_print msg a = a\<lparr>as_errs := as_errs a @ [(as_lineno a, msg)]\<rparr>"

section \<open>Tables\<close>

fun find_symbol :: "string \<Rightarrow> (string \<times> i64) list \<Rightarrow> i64 option" where
  "find_symbol name [] = None"
| "find_symbol name ((nm, addr) # tab) = (if nm = name then Some addr else find_symbol name tab)"

definition add_symbol :: "string \<Rightarrow> asm_t \<Rightarrow> int \<times> asm_t" where
  "add_symbol name a =
     (if find_symbol name (as_symtab a) \<noteq> None then (- 1, a)
      else (0, a\<lparr>as_symtab := (name, as_vmaddr a) # as_symtab a\<rparr>))"

definition add_reloc :: "string \<Rightarrow> nat \<Rightarrow> asm_t \<Rightarrow> asm_t" where
  "add_reloc name k a = a\<lparr>as_reltab := (name, k) # as_reltab a\<rparr>"

text \<open>\<^verbatim>\<open>addressMemory(ptr, value, bytes)\<close> with \<^verbatim>\<open>ptr\<close> at offset \<open>off\<close> of the line's codes.\<close>

fun addressMemory :: "byte list \<Rightarrow> nat \<Rightarrow> i64 \<Rightarrow> nat \<Rightarrow> byte list" where
  "addressMemory codes off v 0 = codes"
| "addressMemory codes off v (Suc n) = (addressMemory codes off v n)[off + n := long_byte v n]"

section \<open>\<^verbatim>\<open>parse_line\<close>\<close>

text \<open>The variables of \<^verbatim>\<open>parse_line\<close>: the rest of the line, \<^verbatim>\<open>value\<close>, which keeps its content from one
  instruction of the line to the next, and the line and tables they fill.\<close>

record pl_t =
  pl_ptr :: string
  pl_value :: i64
  pl_line :: line_t
  pl_asm :: asm_t

text \<open>\<open>Inl\<close>: a message was printed and the function returns TYPE_ERR; \<open>Inr\<close>: \<^verbatim>\<open>continue\<close>.\<close>

type_synonym pl_result = "asm_t + pl_t"

definition expect :: "asm_msg \<Rightarrow> asm_t \<Rightarrow> 'a option \<Rightarrow> ('a \<Rightarrow> pl_result) \<Rightarrow> pl_result" where
  "expect msg a r k = (case r of None \<Rightarrow> Inl (err_print msg a) | Some x \<Rightarrow> k x)"

definition code_reg :: "nat \<Rightarrow> nat \<Rightarrow> line_t \<Rightarrow> line_t" where
  "code_reg ra rb l = l\<lparr>l_codes := (l_codes l)[1 := HPACK ra rb]\<rparr>"

definition code_long :: "nat \<Rightarrow> i64 \<Rightarrow> nat \<Rightarrow> line_t \<Rightarrow> line_t" where
  "code_long off v n l = l\<lparr>l_codes := addressMemory (l_codes l) off v n\<rparr>"

text \<open>The value and tables after \<^verbatim>\<open>parse_imm\<close> or \<^verbatim>\<open>parse_data\<close>: a number is stored in \<^verbatim>\<open>value\<close>, a
  symbol leaves it and is added to the relocations.\<close>

fun take_operand :: "operand \<Rightarrow> nat \<Rightarrow> i64 \<Rightarrow> asm_t \<Rightarrow> i64 \<times> asm_t" where
  "take_operand (Digit v) k v0 a = (v, a)"
| "take_operand (Symbol name) k v0 a = (v0, add_reloc name k a)"

definition pl_irmovq :: "nat \<Rightarrow> pl_t \<Rightarrow> pl_result" where
  "pl_irmovq k s =
     expect Invalid_Immediate (pl_asm s) (parse_imm (pl_ptr s)) (\<lambda>(x, p).
     let (v, a) = take_operand x k (pl_value s) (pl_asm s) in
     expect Invalid_Comma a (parse_delim CHR '','' p) (\<lambda>p.
     expect Invalid_REG a (parse_reg p) (\<lambda>(regB, p).
     Inr (s\<lparr>pl_ptr := p, pl_value := v, pl_asm := a,
            pl_line := code_long 2 v 8 (code_reg 0xF regB (pl_line s))\<rparr>))))"

definition pl_rmmovq :: "pl_t \<Rightarrow> pl_result" where
  "pl_rmmovq s = (let a = pl_asm s in
     expect Invalid_REG a (parse_reg (pl_ptr s)) (\<lambda>(regA, p).
     expect Invalid_Comma a (parse_delim CHR '','' p) (\<lambda>p.
     expect Invalid_MEM a (parse_mem (pl_value s) p) (\<lambda>((v, regB), p).
     Inr (s\<lparr>pl_ptr := p, pl_value := v,
            pl_line := code_long 2 v 8 (code_reg regA regB (pl_line s))\<rparr>)))))"

definition pl_mrmovq :: "pl_t \<Rightarrow> pl_result" where
  "pl_mrmovq s = (let a = pl_asm s in
     expect Invalid_MEM a (parse_mem (pl_value s) (pl_ptr s)) (\<lambda>((v, regB), p).
     expect Invalid_Comma a (parse_delim CHR '','' p) (\<lambda>p.
     expect Invalid_REG a (parse_reg p) (\<lambda>(regA, p).
     Inr (s\<lparr>pl_ptr := p, pl_value := v,
            pl_line := code_long 2 v 8 (code_reg regA regB (pl_line s))\<rparr>)))))"

definition pl_regs :: "pl_t \<Rightarrow> pl_result" where
  "pl_regs s = (let a = pl_asm s in
     expect Invalid_REG a (parse_reg (pl_ptr s)) (\<lambda>(regA, p).
     expect Invalid_Comma a (parse_delim CHR '','' p) (\<lambda>p.
     expect Invalid_REG a (parse_reg p) (\<lambda>(regB, p).
     Inr (s\<lparr>pl_ptr := p, pl_line := code_reg regA regB (pl_line s)\<rparr>)))))"

definition pl_dest :: "nat \<Rightarrow> pl_t \<Rightarrow> pl_result" where
  "pl_dest k s =
     expect Invalid_DEST (pl_asm s) (parse_imm (pl_ptr s)) (\<lambda>(x, p).
     let (v, a) = take_operand x k (pl_value s) (pl_asm s) in
     Inr (s\<lparr>pl_ptr := p, pl_value := v, pl_asm := a, pl_line := code_long 1 v 8 (pl_line s)\<rparr>))"

definition pl_stack :: "pl_t \<Rightarrow> pl_result" where
  "pl_stack s =
     expect Invalid_REG (pl_asm s) (parse_reg (pl_ptr s)) (\<lambda>(regA, p).
     Inr (s\<lparr>pl_ptr := p, pl_line := code_reg regA 0xF (pl_line s)\<rparr>))"

definition pl_data :: "nat \<Rightarrow> nat \<Rightarrow> pl_t \<Rightarrow> pl_result" where
  "pl_data k n s =
     expect Invalid_DATA (pl_asm s) (parse_data (pl_ptr s)) (\<lambda>(x, p).
     let (v, a) = take_operand x k (pl_value s) (pl_asm s) in
     Inr (s\<lparr>pl_ptr := p, pl_value := v, pl_asm := a, pl_line := code_long 0 v n (pl_line s)\<rparr>))"

definition pl_pos :: "pl_t \<Rightarrow> pl_result" where
  "pl_pos s =
     expect Invalid_POS (pl_asm s) (parse_digit (pl_ptr s)) (\<lambda>(v, p).
     Inr (s\<lparr>pl_ptr := p, pl_value := v, pl_asm := (pl_asm s)\<lparr>as_vmaddr := v\<rparr>,
            pl_line := (pl_line s)\<lparr>l_addr := v\<rparr>\<rparr>))"

text \<open>\<^verbatim>\<open>((vmaddr + value - 1) / value) * value\<close>: the division traps on zero and on overflow.\<close>

definition align_up :: "i64 \<Rightarrow> i64 \<Rightarrow> i64 ub" where
  "align_up vm v =
     (let n = vm + v - 1
      in if v = 0 \<or> v = - 1 \<and> sint n = - (2 ^ 63) then None
         else Some (word_of_int (sint n sdiv sint v) * v))"

definition pl_align :: "pl_t \<Rightarrow> pl_result ub" where
  "pl_align s =
     (case parse_digit (pl_ptr s) of
        None \<Rightarrow> Some (Inl (err_print Invalid_ALIGN (pl_asm s)))
      | Some (v, p) \<Rightarrow> do {
          vm \<leftarrow> align_up (as_vmaddr (pl_asm s)) v;
          Some (Inr (s\<lparr>pl_ptr := p, pl_value := v, pl_asm := (pl_asm s)\<lparr>as_vmaddr := vm\<rparr>,
                       pl_line := (pl_line s)\<lparr>l_addr := vm\<rparr>\<rparr>))
        })"

text \<open>The \<^verbatim>\<open>switch\<close> on the instruction's high half-byte.\<close>

definition pl_operands :: "nat \<Rightarrow> instr_t \<Rightarrow> pl_t \<Rightarrow> pl_result ub" where
  "pl_operands k e s =
     (let t = HIGH (icode e)
      in if t \<in> {I_NOP, I_HALT, I_RET} then Some (Inr s)
         else if t = I_IRMOVQ then Some (pl_irmovq k s)
         else if t = I_RMMOVQ then Some (pl_rmmovq s)
         else if t = I_MRMOVQ then Some (pl_mrmovq s)
         else if t \<in> {I_RRMOVQ, I_ALU} then Some (pl_regs s)
         else if t \<in> {I_JMP, I_CALL} then Some (pl_dest k s)
         else if t \<in> {I_PUSHQ, I_POPQ} then Some (pl_stack s)
         else if t = I_DIRECTIVE \<and> LOW (icode e) = D_DATA then Some (pl_data k (ibytes e) s)
         else if t = I_DIRECTIVE \<and> LOW (icode e) = D_POS then Some (pl_pos s)
         else if t = I_DIRECTIVE \<and> LOW (icode e) = D_ALIGN then pl_align s
         else Some (Inl (pl_asm s)))"

definition pl_label :: "string \<Rightarrow> string \<Rightarrow> pl_t \<Rightarrow> pl_result" where
  "pl_label name p s =
     (let (r, a) = add_symbol name (pl_asm s)
      in if r < 0 then Inl (err_print (Dup_symbol name) a)
         else Inr (s\<lparr>pl_ptr := p, pl_asm := a,
                     pl_line := (pl_line s)\<lparr>l_type := TYPE_INS, l_addr := as_vmaddr a\<rparr>\<rparr>))"

definition pl_start :: "instr_t \<Rightarrow> string \<Rightarrow> pl_t \<Rightarrow> pl_t" where
  "pl_start e p s =
     (let a = pl_asm s; l = pl_line s
      in s\<lparr>pl_ptr := p,
           pl_line := l\<lparr>l_type := TYPE_INS, l_addr := as_vmaddr a,
                        l_codes := (l_codes l)[0 := icode e], l_bytes := ibytes e\<rparr>,
           pl_asm := a\<lparr>as_vmaddr := as_vmaddr a + of_nat (ibytes e)\<rparr>\<rparr>)"

text \<open>One turn of the loop past the blank and end tests.\<close>

definition pl_body :: "nat \<Rightarrow> pl_t \<Rightarrow> pl_result ub" where
  "pl_body k s =
     (let p = SKIP_BLANK (pl_ptr s)
      in case parse_label p of
           Some (name, q) \<Rightarrow> Some (pl_label name q s)
         | None \<Rightarrow>
             (case parse_instr p of
                None \<Rightarrow> Some (Inl (err_print Invalid_instr (pl_asm s)))
              | Some (e, q) \<Rightarrow> pl_operands k e (pl_start e q s)))"

section \<open>The loop ends\<close>

lemma expect_Inr: "expect msg a r k = Inr s \<longleftrightarrow> (\<exists>x. r = Some x \<and> k x = Inr s)"
  by (auto simp: expect_def split: option.splits)

lemma parse_delim_shrinks: "parse_delim d p = Some q \<Longrightarrow> length q \<le> length p"
  by (auto dest: parse_delim_suffix)

lemmas shrink_rules = p_reg.shrinks p_digit.shrinks p_imm.shrinks p_data.shrinks p_mem.shrinks
  parse_delim_shrinks

lemmas pl_operand_defs = pl_irmovq_def pl_rmmovq_def pl_mrmovq_def pl_regs_def pl_dest_def
  pl_stack_def pl_data_def pl_pos_def pl_align_def

lemma pl_operand_shrinks:
  "pl_irmovq k s = Inr s' \<Longrightarrow> length (pl_ptr s') \<le> length (pl_ptr s)"
  "pl_rmmovq s = Inr s' \<Longrightarrow> length (pl_ptr s') \<le> length (pl_ptr s)"
  "pl_mrmovq s = Inr s' \<Longrightarrow> length (pl_ptr s') \<le> length (pl_ptr s)"
  "pl_regs s = Inr s' \<Longrightarrow> length (pl_ptr s') \<le> length (pl_ptr s)"
  "pl_dest k s = Inr s' \<Longrightarrow> length (pl_ptr s') \<le> length (pl_ptr s)"
  "pl_stack s = Inr s' \<Longrightarrow> length (pl_ptr s') \<le> length (pl_ptr s)"
  "pl_data k n s = Inr s' \<Longrightarrow> length (pl_ptr s') \<le> length (pl_ptr s)"
  "pl_pos s = Inr s' \<Longrightarrow> length (pl_ptr s') \<le> length (pl_ptr s)"
  "pl_align s = Some (Inr s') \<Longrightarrow> length (pl_ptr s') \<le> length (pl_ptr s)"
  by (auto simp: pl_operand_defs expect_Inr Let_def split_beta split: option.splits bind_splits
      dest!: shrink_rules)

lemma pl_operands_shrink:
  "pl_operands k e s = Some (Inr s') \<Longrightarrow> length (pl_ptr s') \<le> length (pl_ptr s)"
  by (auto simp: pl_operands_def Let_def split: if_splits dest: pl_operand_shrinks)

lemma pl_start_ptr [simp]: "pl_ptr (pl_start e p s) = p"
  by (simp add: pl_start_def Let_def)

lemma pl_body_shrink:
  assumes "pl_body k s = Some (Inr s')"
  shows "length (pl_ptr s') < length (pl_ptr s)"
proof (cases "parse_label (SKIP_BLANK (pl_ptr s))")
  case (Some v)
  then have "pl_ptr s' = snd v" using assms
    by (auto simp: pl_body_def Let_def pl_label_def split: prod.splits if_splits)
  then show ?thesis using Some parse_label_shrinks [of "SKIP_BLANK (pl_ptr s)" "fst v" "snd v"]
      SKIP_BLANK_length [of "pl_ptr s"] by simp
next
  case None
  with assms obtain e q where q: "parse_instr (SKIP_BLANK (pl_ptr s)) = Some (e, q)"
    "pl_operands k e (pl_start e q s) = Some (Inr s')"
    by (auto simp: pl_body_def Let_def split: option.splits)
  show ?thesis
    using parse_instr_shrinks [OF q(1)] pl_operands_shrink [OF q(2)] SKIP_BLANK_length [of "pl_ptr s"]
    by simp
qed

function parse_line :: "nat \<Rightarrow> pl_t \<Rightarrow> (line_t \<times> asm_t) ub" where
  "parse_line k s =
     (let p = SKIP_BLANK (pl_ptr s)
      in if IS_END p \<or> IS_COMMENT p then Some (pl_line s, pl_asm s)
         else case pl_body k s of
                None \<Rightarrow> None
              | Some (Inl a) \<Rightarrow> Some ((pl_line s)\<lparr>l_type := TYPE_ERR\<rparr>, a)
              | Some (Inr s') \<Rightarrow> parse_line k s')"
  by pat_completeness auto
termination
  by (relation "measure (\<lambda>(k, s). length (pl_ptr s))") (auto intro: pl_body_shrink)

declare parse_line.simps [simp del]

section \<open>\<^verbatim>\<open>assemble\<close>\<close>

definition MAX_INSLEN :: nat where "MAX_INSLEN = 512"

text \<open>Removing the line end, on the reversed buffer.  On an empty buffer the loop reads \<^verbatim>\<open>asm_buf[-1]\<close>,
  which is the parameter \<open>prev\<close>; when that is a line end too the loop writes there.\<close>

definition eol_char :: "char \<Rightarrow> bool" where
  "eol_char c \<longleftrightarrow> c = NL \<or> c = CR"

fun strip_eol :: "char \<Rightarrow> string \<Rightarrow> string ub" where
  "strip_eol prev [] = (if eol_char prev then None else Some [])"
| "strip_eol prev (c # r) = (if eol_char c then strip_eol prev r else Some (rev (c # r)))"

function assemble :: "char \<Rightarrow> string \<Rightarrow> asm_t \<Rightarrow> (int \<times> asm_t) ub" where
  "assemble prev content a =
     (if content = [] then Some (0, a\<lparr>as_lineno := - 1\<rparr>)
      else let (buf, rest) = fgets_line (MAX_INSLEN - 1) content
           in case strip_eol prev (rev (c_str buf)) of
                None \<Rightarrow> None
              | Some y64asm \<Rightarrow>
                  (case parse_line (length (as_lines a))
                          \<lparr>pl_ptr = y64asm, pl_value = 0, pl_line = new_line y64asm,
                           pl_asm = a\<lparr>as_lineno := as_lineno a + 1\<rparr>\<rparr> of
                     None \<Rightarrow> None
                   | Some (line, a') \<Rightarrow>
                       (let a'' = a'\<lparr>as_lines := as_lines a' @ [line]\<rparr>
                        in if l_type line = TYPE_ERR then Some (- 1, a'') else assemble prev rest a'')))"
  by pat_completeness auto
termination
proof (relation "measure (\<lambda>(prev, content, a). length content)", goal_cases)
  case (2 prev content a x buf rest)
  then show ?case using fgets_line_length [of "MAX_INSLEN - 1" content]
    by (simp add: MAX_INSLEN_def) (metis snd_conv)
qed simp

declare assemble.simps [simp del]

section \<open>\<^verbatim>\<open>relocate\<close>\<close>

definition reloc_offset :: "byte \<Rightarrow> nat" where
  "reloc_offset c =
     (if HIGH c = I_IRMOVQ then 2 else if HIGH c \<in> {I_CALL, I_JMP} then 1 else 0)"

definition reloc_line :: "i64 \<Rightarrow> line_t \<Rightarrow> line_t" where
  "reloc_line addr l = code_long (reloc_offset (l_codes l ! 0)) addr 8 l"

fun relocate_loop :: "(string \<times> nat) list \<Rightarrow> asm_t \<Rightarrow> int \<times> asm_t" where
  "relocate_loop [] a = (0, a)"
| "relocate_loop ((name, k) # rs) a =
     (case find_symbol name (as_symtab a) of
        None \<Rightarrow> (- 1, err_print (Unknown_symbol name) a)
      | Some addr \<Rightarrow>
          relocate_loop rs (a\<lparr>as_lines := (as_lines a)[k := reloc_line addr (as_lines a ! k)]\<rparr>))"

definition relocate :: "asm_t \<Rightarrow> int \<times> asm_t" where
  "relocate a = relocate_loop (as_reltab a) a"

section \<open>\<^verbatim>\<open>binfile\<close>\<close>

text \<open>\<^verbatim>\<open>fwrite\<close> at a position: a gap before it reads as zeros.\<close>

definition file_write :: "byte list \<Rightarrow> nat \<Rightarrow> byte list \<Rightarrow> byte list" where
  "file_write f off bs =
     (if bs = [] then f
      else take off (f @ replicate (off - length f) 0) @ bs @ drop (off + length bs) f)"

fun binfile :: "line_t list \<Rightarrow> byte list \<Rightarrow> int \<times> byte list" where
  "binfile [] out = (0, out)"
| "binfile (l # ls) out =
     (if l_type l \<noteq> TYPE_INS then binfile ls out
      else if sint (l_addr l) < 0 then (- 1, out)
      else binfile ls (file_write out (nat (sint (l_addr l))) (take (l_bytes l) (l_codes l))))"

section \<open>The listing\<close>

definition hex_char :: "nat \<Rightarrow> char" where
  "hex_char h = char_of (if h < 10 then h + 48 else h - 10 + 97)"

definition hexstuff :: "i32 \<Rightarrow> nat \<Rightarrow> string" where
  "hexstuff val len = rev (map (\<lambda>i. hex_char (unat (signed_drop_bit (4 * i) val AND 0xF))) [0..<len])"

definition print_line :: "line_t \<Rightarrow> string" where
  "print_line l =
     (let buf = (if l_type l = TYPE_INS
                 then foldl (\<lambda>buf i. splice_at (9 + 2 * i) (hexstuff (ucast (l_codes l ! i)) 2) buf)
                        (splice_at 4 (hexstuff (ucast (l_addr l)) 3) ''  0x000:                      | '')
                        [0..<l_bytes l]
                 else ''                              | '')
      in buf @ l_asm l @ [NL])"

definition print_screen :: "asm_t \<Rightarrow> string" where
  "print_screen a = concat (map print_line (as_lines a))"

section \<open>\<^verbatim>\<open>main\<close>\<close>

datatype asm_exit = Asm_usage | Asm_name_too_long | Asm_no_input | Asm_failed asm_t
  | Asm_no_output | Asm_done (asm_bin: "byte list") (asm_listing: "string option")

text \<open>After the file name is found: \<open>fopen_in\<close> gives the content of a readable file, \<open>can_write\<close> says
  whether the output opens.\<close>

definition asm_file :: "char \<Rightarrow> (string \<Rightarrow> string option) \<Rightarrow> (string \<Rightarrow> bool) \<Rightarrow> bool \<Rightarrow> string \<Rightarrow> asm_exit ub" where
  "asm_file prev fopen_in can_write screen name =
     (if length name < 3 then None
      else let rootlen = length name - 3 in
      if drop rootlen name \<noteq> ''.ys'' then Some Asm_usage
      else if rootlen > 500 then Some Asm_name_too_long
      else case fopen_in name of
        None \<Rightarrow> Some Asm_no_input
      | Some content \<Rightarrow> do {
          (r, a) \<leftarrow> assemble prev content asm_init;
          (if r < 0 then Some (Asm_failed a)
           else case relocate a of (r, a) \<Rightarrow>
             if r < 0 then Some (Asm_failed a)
             else if \<not> can_write (take rootlen name @ ''.bin'') then Some Asm_no_output
             else case binfile (as_lines a) [] of (r, out) \<Rightarrow>
               if r < 0 then Some (Asm_failed a)
               else Some (Asm_done out (if screen then Some (print_screen a) else None)))
        })"

definition asm_main :: "char \<Rightarrow> (string \<Rightarrow> string option) \<Rightarrow> (string \<Rightarrow> bool) \<Rightarrow> string list \<Rightarrow> asm_exit ub" where
  "asm_main prev fopen_in can_write argv =
     (case argv of
        [] \<Rightarrow> Some Asm_usage
      | arg # args \<Rightarrow>
          if head_is (\<lambda>c. c = CHR ''-'') arg
          then (if take 1 (drop 1 arg) = ''v''
                then (case args of [] \<Rightarrow> None | name # _ \<Rightarrow> asm_file prev fopen_in can_write True name)
                else Some Asm_usage)
          else asm_file prev fopen_in can_write False arg)"

section \<open>Well-formedness\<close>

definition wf_line :: "line_t \<Rightarrow> bool" where
  "wf_line l \<longleftrightarrow> length (l_codes l) = 10 \<and> l_bytes l \<le> 10"

definition wf_tabs :: "nat \<Rightarrow> asm_t \<Rightarrow> bool" where
  "wf_tabs k a \<longleftrightarrow> distinct (map fst (as_symtab a)) \<and> (\<forall>(nm, j) \<in> set (as_reltab a). j < k)"

definition wf_asm :: "asm_t \<Rightarrow> bool" where
  "wf_asm a \<longleftrightarrow> list_all wf_line (as_lines a) \<and> wf_tabs (length (as_lines a)) a"

lemma wf_new_line [simp]: "wf_line (new_line y)"
  by (simp add: wf_line_def new_line_def)

lemma length_addressMemory [simp]: "length (addressMemory codes off v n) = length codes"
  by (induction n) auto

lemma wf_line_upd [simp]:
  "wf_line (code_reg ra rb l) = wf_line l" "wf_line (code_long off v n l) = wf_line l"
  "wf_line (l\<lparr>l_type := ty\<rparr>) = wf_line l" "wf_line (l\<lparr>l_addr := vm\<rparr>) = wf_line l"
  by (simp_all add: wf_line_def code_reg_def code_long_def)

lemma wf_tabs_upd [simp]:
  "wf_tabs k (a\<lparr>as_vmaddr := vm\<rparr>) = wf_tabs k a" "wf_tabs k (err_print msg a) = wf_tabs k a"
  "wf_tabs k (a\<lparr>as_lineno := n\<rparr>) = wf_tabs k a" "wf_tabs k (a\<lparr>as_lines := ls\<rparr>) = wf_tabs k a"
  by (simp_all add: wf_tabs_def err_print_def)

lemma as_lines_upd [simp]:
  "as_lines (err_print msg a) = as_lines a" "as_lines (add_reloc nm k a) = as_lines a"
  by (simp_all add: err_print_def add_reloc_def)

lemma wf_tabs_mono: "wf_tabs k a \<Longrightarrow> wf_tabs (Suc k) a"
  by (auto simp: wf_tabs_def)

lemma take_operand_wf:
  "wf_tabs (Suc k) a \<Longrightarrow> wf_tabs (Suc k) (snd (take_operand x k v a)) \<and> as_lines (snd (take_operand x k v a)) = as_lines a"
  by (cases x) (auto simp: wf_tabs_def add_reloc_def)

lemma find_symbol_None: "find_symbol name tab = None \<longleftrightarrow> name \<notin> fst ` set tab"
  by (induction tab rule: find_symbol.induct) auto

lemma add_symbol_wf:
  "wf_tabs k a \<Longrightarrow> add_symbol name a = (r, a') \<Longrightarrow> wf_tabs k a' \<and> as_lines a' = as_lines a"
  by (auto simp: add_symbol_def wf_tabs_def find_symbol_None split: if_splits)

lemma instr_set_bytes: "e \<in> set instr_set \<Longrightarrow> ibytes e \<le> 10"
  by (auto simp: instr_set_def mk_instr_def)

text \<open>What one turn keeps.\<close>

fun pl_keeps :: "nat \<Rightarrow> line_t list \<Rightarrow> pl_result \<Rightarrow> bool" where
  "pl_keeps k ls (Inl a) \<longleftrightarrow> wf_tabs (Suc k) a \<and> as_lines a = ls"
| "pl_keeps k ls (Inr s) \<longleftrightarrow> wf_line (pl_line s) \<and> wf_tabs (Suc k) (pl_asm s) \<and> as_lines (pl_asm s) = ls"

lemma expect_keeps:
  "wf_tabs (Suc k) a \<Longrightarrow> as_lines a = ls \<Longrightarrow> (\<And>x. r = Some x \<Longrightarrow> pl_keeps k ls (f x)) \<Longrightarrow>
   pl_keeps k ls (expect msg a r f)"
  by (cases r) (auto simp: expect_def)

lemma pl_operands_keeps:
  assumes "wf_line (pl_line s)" and "wf_tabs (Suc k) (pl_asm s)" and "pl_operands k e s = Some r"
  shows "pl_keeps k (as_lines (pl_asm s)) r"
proof -
  note op = take_operand_wf [OF assms(2)]
  have "pl_keeps k (as_lines (pl_asm s)) (pl_irmovq k s)" "pl_keeps k (as_lines (pl_asm s)) (pl_dest k s)"
    "pl_keeps k (as_lines (pl_asm s)) (pl_data k n s)" "pl_keeps k (as_lines (pl_asm s)) (pl_pos s)"
    "pl_keeps k (as_lines (pl_asm s)) (pl_rmmovq s)" "pl_keeps k (as_lines (pl_asm s)) (pl_mrmovq s)"
    "pl_keeps k (as_lines (pl_asm s)) (pl_regs s)" "pl_keeps k (as_lines (pl_asm s)) (pl_stack s)" for n
    using assms(1,2)
    by (auto simp: pl_operand_defs Let_def split_beta op intro!: expect_keeps)
  moreover have "pl_align s = Some r \<Longrightarrow> pl_keeps k (as_lines (pl_asm s)) r"
    using assms(1,2) by (auto simp: pl_align_def split: option.splits bind_splits)
  ultimately show ?thesis
    using assms by (auto simp: pl_operands_def Let_def split: if_splits)
qed

lemma pl_label_keeps:
  assumes "wf_line (pl_line s)" and "wf_tabs (Suc k) (pl_asm s)"
  shows "pl_keeps k (as_lines (pl_asm s)) (pl_label nm q s)"
proof -
  obtain r a where a: "add_symbol nm (pl_asm s) = (r, a)" by fastforce
  show ?thesis using add_symbol_wf [OF assms(2) a] assms(1) by (simp add: pl_label_def a)
qed

lemma pl_start_keeps:
  assumes "wf_line (pl_line s)" and "ibytes e \<le> 10"
  shows "wf_line (pl_line (pl_start e q s))" and "wf_tabs k (pl_asm (pl_start e q s)) = wf_tabs k (pl_asm s)"
    and "as_lines (pl_asm (pl_start e q s)) = as_lines (pl_asm s)"
  using assms by (simp_all add: pl_start_def Let_def wf_line_def)

lemma parse_instr_bytes: "parse_instr p = Some (e, q) \<Longrightarrow> ibytes e \<le> 10"
  by (auto simp: parse_instr_def Let_def split: option.splits dest!: find_instr_Some intro: instr_set_bytes)

lemma pl_body_keeps:
  assumes "wf_line (pl_line s)" and "wf_tabs (Suc k) (pl_asm s)" and "pl_body k s = Some r"
  shows "pl_keeps k (as_lines (pl_asm s)) r"
proof -
  consider nm q where "r = pl_label nm q s"
    | "r = Inl (err_print Invalid_instr (pl_asm s))"
    | e q where "ibytes e \<le> 10" "pl_operands k e (pl_start e q s) = Some r"
    using assms(3) unfolding pl_body_def Let_def
    by (auto split: option.splits dest: parse_instr_bytes)
  then show ?thesis
  proof cases
    case (3 e q)
    then show ?thesis using pl_operands_keeps [OF _ _ 3(2)] pl_start_keeps [OF assms(1) 3(1)] assms(2) by simp
  qed (use assms(1,2) pl_label_keeps in auto)
qed

lemma parse_line_stop:
  "IS_END (SKIP_BLANK (pl_ptr s)) \<or> IS_COMMENT (SKIP_BLANK (pl_ptr s)) \<Longrightarrow>
   parse_line k s = Some (pl_line s, pl_asm s)"
  by (subst parse_line.simps) (simp add: Let_def)

lemma parse_line_turn:
  "\<not> (IS_END (SKIP_BLANK (pl_ptr s)) \<or> IS_COMMENT (SKIP_BLANK (pl_ptr s))) \<Longrightarrow>
   parse_line k s = (case pl_body k s of
      None \<Rightarrow> None
    | Some (Inl a) \<Rightarrow> Some ((pl_line s)\<lparr>l_type := TYPE_ERR\<rparr>, a)
    | Some (Inr s') \<Rightarrow> parse_line k s')"
  by (subst parse_line.simps) (simp add: Let_def)

lemma parse_line_keeps:
  "parse_line k s = Some (l, a) \<Longrightarrow> wf_line (pl_line s) \<Longrightarrow> wf_tabs (Suc k) (pl_asm s) \<Longrightarrow>
   wf_line l \<and> wf_tabs (Suc k) a \<and> as_lines a = as_lines (pl_asm s)"
proof (induction k s rule: parse_line.induct)
  case (1 k s)
  show ?case
  proof (cases "IS_END (SKIP_BLANK (pl_ptr s)) \<or> IS_COMMENT (SKIP_BLANK (pl_ptr s))")
    case True
    then show ?thesis using 1(2-4) by (auto simp: parse_line_stop)
  next
    case False
    then obtain r where r: "pl_body k s = Some r"
      using 1(2) by (cases "pl_body k s") (auto simp: parse_line_turn)
    have keeps: "pl_keeps k (as_lines (pl_asm s)) r" using pl_body_keeps [OF 1(3,4) r] .
    show ?thesis
    proof (cases r)
      case (Inl a')
      then show ?thesis using 1(2,3) r False keeps by (auto simp: parse_line_turn)
    next
      case (Inr s')
      then have "parse_line k s' = Some (l, a)" using 1(2) r False by (simp add: parse_line_turn)
      then show ?thesis using 1(1) [OF refl False r Inr] keeps Inr by simp
    qed
  qed
qed

text \<open>One line: the state after it is read, or nothing when the blank line runs off the buffer.\<close>

definition first_state :: "string \<Rightarrow> asm_t \<Rightarrow> pl_t" where
  "first_state y a = \<lparr>pl_ptr = y, pl_value = 0, pl_line = new_line y, pl_asm = a\<lparr>as_lineno := as_lineno a + 1\<rparr>\<rparr>"

lemma assemble_Nil: "assemble prev [] a = Some (0, a\<lparr>as_lineno := - 1\<rparr>)"
  by (subst assemble.simps) simp

lemma assemble_line:
  assumes "content \<noteq> []" and "fgets_line (MAX_INSLEN - 1) content = (buf, rest)"
    and "strip_eol prev (rev (c_str buf)) = Some y"
    and "parse_line (length (as_lines a)) (first_state y a) = Some (l, a1)"
  shows "assemble prev content a =
    (if l_type l = TYPE_ERR then Some (- 1, a1\<lparr>as_lines := as_lines a1 @ [l]\<rparr>)
     else assemble prev rest (a1\<lparr>as_lines := as_lines a1 @ [l]\<rparr>))"
  using assms by (subst assemble.simps) (simp add: first_state_def Let_def)

lemma assemble_cases:
  assumes "assemble prev content a = Some (r, a')" and "content \<noteq> []"
  obtains buf rest y l a1 where "fgets_line (MAX_INSLEN - 1) content = (buf, rest)"
    and "strip_eol prev (rev (c_str buf)) = Some y"
    and "parse_line (length (as_lines a)) (first_state y a) = Some (l, a1)"
  using assms
  by (subst (asm) assemble.simps) (auto simp: first_state_def Let_def split: option.splits prod.splits if_splits)

lemma assemble_keeps:
  "assemble prev content a = Some (r, a') \<Longrightarrow> wf_asm a \<Longrightarrow> wf_asm a'"
proof (induction "length content" arbitrary: content a rule: less_induct)
  case less
  show ?case
  proof (cases "content = []")
    case True
    then show ?thesis using less.prems by (auto simp: assemble_Nil wf_asm_def)
  next
    case False
    from assemble_cases [OF less.prems(1) False] obtain buf rest y l a1 where
      line: "fgets_line (MAX_INSLEN - 1) content = (buf, rest)"
        "strip_eol prev (rev (c_str buf)) = Some y"
        "parse_line (length (as_lines a)) (first_state y a) = Some (l, a1)" .
    have "wf_line l \<and> wf_tabs (Suc (length (as_lines a))) a1 \<and> as_lines a1 = as_lines a"
      using parse_line_keeps [OF line(3)] less.prems(2)
      by (simp add: first_state_def wf_asm_def wf_tabs_mono)
    then have wf: "wf_asm (a1\<lparr>as_lines := as_lines a1 @ [l]\<rparr>)"
      using less.prems(2) by (simp add: wf_asm_def)
    have "length rest < length content"
      using fgets_line_length [of "MAX_INSLEN - 1" content] False line(1) by (simp add: MAX_INSLEN_def)
    then show ?thesis
      using less.hyps [of rest "a1\<lparr>as_lines := as_lines a1 @ [l]\<rparr>"] less.prems(1) wf
        assemble_line [OF False line] by (auto split: if_splits)
  qed
qed

section \<open>The symbol table as an interface\<close>

text \<open>A table that refuses to redefine a key: what a client sees never changes.\<close>

locale symbol_table =
  fixes lookup :: "'k \<Rightarrow> 't \<Rightarrow> 'v option"
    and define_sym :: "'k \<Rightarrow> 'v \<Rightarrow> 't \<Rightarrow> 't option"
  assumes refuses: "lookup k t \<noteq> None \<Longrightarrow> define_sym k v t = None"
    and lookup_define: "define_sym k v t = Some t' \<Longrightarrow> lookup j t' = (if j = k then Some v else lookup j t)"
begin

definition extends :: "'t \<Rightarrow> 't \<Rightarrow> bool" where
  "extends t t' \<longleftrightarrow> (\<forall>k v. lookup k t = Some v \<longrightarrow> lookup k t' = Some v)"

lemma extends_refl: "extends t t"
  by (simp add: extends_def)

lemma extends_trans: "extends t u \<Longrightarrow> extends u w \<Longrightarrow> extends t w"
  by (simp add: extends_def)

lemma define_extends: "define_sym k v t = Some t' \<Longrightarrow> extends t t'"
  using refuses lookup_define by (fastforce simp: extends_def)

lemma extendsD: "extends t t' \<Longrightarrow> lookup k t = Some v \<Longrightarrow> lookup k t' = Some v"
  by (simp add: extends_def)

end

definition tab_define :: "string \<Rightarrow> i64 \<Rightarrow> (string \<times> i64) list \<Rightarrow> (string \<times> i64) list option" where
  "tab_define name addr tab = (if find_symbol name tab \<noteq> None then None else Some ((name, addr) # tab))"

interpretation syms: symbol_table find_symbol tab_define
  by unfold_locales (auto simp: tab_define_def split: if_splits)

lemma add_symbol_tab:
  "add_symbol name a = (case tab_define name (as_vmaddr a) (as_symtab a) of
     None \<Rightarrow> (- 1, a) | Some tab \<Rightarrow> (0, a\<lparr>as_symtab := tab\<rparr>))"
  by (simp add: add_symbol_def tab_define_def)

fun pl_syms :: "pl_result \<Rightarrow> (string \<times> i64) list" where
  "pl_syms (Inl a) = as_symtab a"
| "pl_syms (Inr s) = as_symtab (pl_asm s)"

lemma as_symtab_upd [simp]:
  "as_symtab (err_print msg a) = as_symtab a" "as_symtab (add_reloc nm k a) = as_symtab a"
  "as_symtab (snd (take_operand x k v a)) = as_symtab a"
  by (simp_all add: err_print_def add_reloc_def) (cases x, simp_all add: add_reloc_def)

lemma expect_syms:
  "as_symtab a = tab \<Longrightarrow> (\<And>x. r = Some x \<Longrightarrow> pl_syms (f x) = tab) \<Longrightarrow> pl_syms (expect msg a r f) = tab"
  by (cases r) (auto simp: expect_def)

lemma pl_operands_syms: "pl_operands k e s = Some r \<Longrightarrow> pl_syms r = as_symtab (pl_asm s)"
  by (auto simp: pl_operands_def pl_operand_defs Let_def split_beta
      split: if_splits option.splits bind_splits intro!: expect_syms)

lemma pl_body_syms: "pl_body k s = Some r \<Longrightarrow> syms.extends (as_symtab (pl_asm s)) (pl_syms r)"
  by (auto simp: pl_body_def Let_def pl_label_def add_symbol_tab pl_start_def dest!: pl_operands_syms
      intro: syms.extends_refl syms.define_extends split: option.splits if_splits)

lemma parse_line_syms:
  "parse_line k s = Some (l, a) \<Longrightarrow> syms.extends (as_symtab (pl_asm s)) (as_symtab a)"
proof (induction k s rule: parse_line.induct)
  case (1 k s)
  show ?case
  proof (cases "IS_END (SKIP_BLANK (pl_ptr s)) \<or> IS_COMMENT (SKIP_BLANK (pl_ptr s))")
    case True
    then show ?thesis using 1(2) by (auto simp: parse_line_stop intro: syms.extends_refl)
  next
    case False
    then obtain r where r: "pl_body k s = Some r"
      using 1(2) by (cases "pl_body k s") (auto simp: parse_line_turn)
    note ext = pl_body_syms [OF r]
    show ?thesis
    proof (cases r)
      case (Inl a')
      then show ?thesis using 1(2) r False ext by (auto simp: parse_line_turn)
    next
      case (Inr s')
      then have "parse_line k s' = Some (l, a)" using 1(2) r False by (simp add: parse_line_turn)
      then show ?thesis using 1(1) [OF refl False r Inr] ext Inr syms.extends_trans by auto
    qed
  qed
qed

lemma assemble_syms:
  "assemble prev content a = Some (r, a') \<Longrightarrow> syms.extends (as_symtab a) (as_symtab a')"
proof (induction "length content" arbitrary: content a rule: less_induct)
  case less
  show ?case
  proof (cases "content = []")
    case True
    then show ?thesis using less.prems by (auto simp: assemble_Nil intro: syms.extends_refl)
  next
    case False
    from assemble_cases [OF less.prems(1) False] obtain buf rest y l a1 where
      line: "fgets_line (MAX_INSLEN - 1) content = (buf, rest)"
        "strip_eol prev (rev (c_str buf)) = Some y"
        "parse_line (length (as_lines a)) (first_state y a) = Some (l, a1)" .
    have ext: "syms.extends (as_symtab a) (as_symtab a1)"
      using parse_line_syms [OF line(3)] by (simp add: first_state_def)
    have "length rest < length content"
      using fgets_line_length [of "MAX_INSLEN - 1" content] False line(1) by (simp add: MAX_INSLEN_def)
    then show ?thesis
      using less.hyps [of rest "a1\<lparr>as_lines := as_lines a1 @ [l]\<rparr>"] less.prems(1) ext
        assemble_line [OF False line] syms.extends_trans by (auto split: if_splits)
  qed
qed

end
