(* ===== verification/Y64_Text.thy ===== *)
theory Y64_Text
  imports Y64_Asm Y64_Isa
begin

text \<open>
  The concrete syntax of the Y64 instructions as a specification of the assembler: a canonical text
  and the machine code of each instruction, and the lemmas that the table lookups, the token parsers
  and one turn of \<^verbatim>\<open>parse_line\<close> read the text and write the code.
\<close>

section \<open>Canonical text and machine code\<close>

definition reg_text :: "nat \<Rightarrow> string" where
  "reg_text r = fst (asm_reg_table ! r)"

definition num_text :: "i64 \<Rightarrow> string" where
  "num_text v = ''0x'' @ map (\<lambda>i. hex_char (unat v div 16 ^ i mod 16)) (rev [0..<16])"

definition cmov_name :: "nat \<Rightarrow> string" where
  "cmov_name c = [''rrmovq'', ''cmovle'', ''cmovl'', ''cmove'', ''cmovne'', ''cmovge'', ''cmovg''] ! c"

definition alu_name :: "nat \<Rightarrow> string" where
  "alu_name f = [''addq'', ''subq'', ''andq'', ''xorq''] ! f"

definition jmp_name :: "nat \<Rightarrow> string" where
  "jmp_name c = [''jmp'', ''jle'', ''jl'', ''je'', ''jne'', ''jge'', ''jg''] ! c"

fun instr_name :: "y64_instr \<Rightarrow> string" where
  "instr_name Halt = ''halt''"
| "instr_name Nop = ''nop''"
| "instr_name (Rrmov c a b) = cmov_name c"
| "instr_name (Irmov v b) = ''irmovq''"
| "instr_name (Rmmov a d b) = ''rmmovq''"
| "instr_name (Mrmov d b a) = ''mrmovq''"
| "instr_name (Alu f a b) = alu_name f"
| "instr_name (Jmp c d) = jmp_name c"
| "instr_name (Call d) = ''call''"
| "instr_name Ret = ''ret''"
| "instr_name (Push a) = ''pushq''"
| "instr_name (Pop a) = ''popq''"
| "instr_name Illegal = ''''"

fun operand_text :: "y64_instr \<Rightarrow> string" where
  "operand_text (Rrmov c a b) = '' '' @ reg_text a @ '', '' @ reg_text b"
| "operand_text (Irmov v b) = '' $'' @ num_text v @ '', '' @ reg_text b"
| "operand_text (Rmmov a d b) = '' '' @ reg_text a @ '', '' @ num_text d @ ''('' @ reg_text b @ '')''"
| "operand_text (Mrmov d b a) = '' '' @ num_text d @ ''('' @ reg_text b @ ''), '' @ reg_text a"
| "operand_text (Alu f a b) = '' '' @ reg_text a @ '', '' @ reg_text b"
| "operand_text (Jmp c d) = '' $'' @ num_text d"
| "operand_text (Call d) = '' $'' @ num_text d"
| "operand_text (Push a) = '' '' @ reg_text a"
| "operand_text (Pop a) = '' '' @ reg_text a"
| "operand_text _ = ''''"

definition asm_text :: "y64_instr \<Rightarrow> string" where
  "asm_text i = instr_name i @ operand_text i"

fun valid_instr :: "y64_instr \<Rightarrow> bool" where
  "valid_instr (Rrmov c a b) \<longleftrightarrow> c \<le> C_G \<and> a < REG_NONE \<and> b < REG_NONE"
| "valid_instr (Irmov v b) \<longleftrightarrow> b < REG_NONE"
| "valid_instr (Rmmov a d b) \<longleftrightarrow> a < REG_NONE \<and> b < REG_NONE"
| "valid_instr (Mrmov d b a) \<longleftrightarrow> a < REG_NONE \<and> b < REG_NONE"
| "valid_instr (Alu f a b) \<longleftrightarrow> f < A_NONE \<and> a < REG_NONE \<and> b < REG_NONE"
| "valid_instr (Jmp c d) \<longleftrightarrow> c \<le> C_G"
| "valid_instr (Push a) \<longleftrightarrow> a < REG_NONE"
| "valid_instr (Pop a) \<longleftrightarrow> a < REG_NONE"
| "valid_instr Illegal \<longleftrightarrow> False"
| "valid_instr _ \<longleftrightarrow> True"

fun encode :: "y64_instr \<Rightarrow> byte list" where
  "encode Halt = [HPACK I_HALT F_NONE]"
| "encode Nop = [HPACK I_NOP F_NONE]"
| "encode (Rrmov c a b) = [HPACK I_RRMOVQ c, HPACK a b]"
| "encode (Irmov v b) = [HPACK I_IRMOVQ F_NONE, HPACK 0xF b] @ long_bytes v"
| "encode (Rmmov a d b) = [HPACK I_RMMOVQ F_NONE, HPACK a b] @ long_bytes d"
| "encode (Mrmov d b a) = [HPACK I_MRMOVQ F_NONE, HPACK a b] @ long_bytes d"
| "encode (Alu f a b) = [HPACK I_ALU f, HPACK a b]"
| "encode (Jmp c d) = HPACK I_JMP c # long_bytes d"
| "encode (Call d) = HPACK I_CALL F_NONE # long_bytes d"
| "encode Ret = [HPACK I_RET F_NONE]"
| "encode (Push a) = [HPACK I_PUSHQ F_NONE, HPACK a 0xF]"
| "encode (Pop a) = [HPACK I_POPQ F_NONE, HPACK a 0xF]"
| "encode Illegal = []"

section \<open>Half-bytes\<close>

lemma nibble_mask: "(0xF :: byte) = mask 4"
  by (simp add: mask_eq_exp_minus_1)

lemma bit_nibble_nat: "bit h n \<Longrightarrow> h < 16 \<Longrightarrow> n < 4"
  for h :: nat
proof -
  assume b: "bit h n" and h: "h < 16"
  then have "take_bit 4 h = h" by (simp add: take_bit_nat_eq_self_iff)
  with b show "n < 4" by (metis bit_take_bit_iff)
qed

lemma bit_nibble: "h < 16 \<Longrightarrow> bit (of_nat h :: byte) n \<longleftrightarrow> n < 4 \<and> bit h n"
proof -
  assume "h < 16"
  then show ?thesis by (auto simp: bit_simps dest: bit_nibble_nat)
qed

lemma HIGH_HPACK [simp]: "h < 16 \<Longrightarrow> HIGH (HPACK h l) = h"
proof -
  assume h: "h < 16"
  have "drop_bit 4 (HPACK h l) AND 0xF = (of_nat h :: byte)"
    unfolding HPACK_def nibble_mask
    by (rule bit_word_eqI) (use h in \<open>auto simp: bit_simps bit_nibble dest: bit_nibble_nat\<close>)
  then show ?thesis using h by (simp add: HIGH_def unat_of_nat)
qed

lemma LOW_HPACK [simp]: "l < 16 \<Longrightarrow> LOW (HPACK h l) = l"
proof -
  assume l: "l < 16"
  have "HPACK h l AND 0xF = (of_nat l :: byte)"
    unfolding HPACK_def nibble_mask
    by (rule bit_word_eqI) (use l in \<open>auto simp: bit_simps dest: bit_nibble_nat\<close>)
  then show ?thesis using l by (simp add: LOW_def unat_of_nat)
qed

section \<open>Lookups\<close>

lemma mk_instr_sel [simp]:
  "iname (mk_instr nm l c n) = nm" "ilen (mk_instr nm l c n) = l"
  "icode (mk_instr nm l c n) = c" "ibytes (mk_instr nm l c n) = n"
  by (simp_all add: mk_instr_def)

lemma below_4: "(f :: nat) < 4 \<Longrightarrow> f = 0 \<or> f = 1 \<or> f = 2 \<or> f = 3"
  by auto

lemma upto_6: "(c :: nat) \<le> 6 \<Longrightarrow> c = 0 \<or> c = 1 \<or> c = 2 \<or> c = 3 \<or> c = 4 \<or> c = 5 \<or> c = 6"
  by auto

lemmas find_instr_eval = find_instr_def instr_set_def strncmp_eq_def

lemma find_instr_cmov:
  "c \<le> C_G \<Longrightarrow> find_instr (cmov_name c @ CHR '' '' # t) =
     Some (mk_instr (cmov_name c) (length (cmov_name c)) (HPACK I_RRMOVQ c) 2)"
  by (drule upto_6) (elim disjE, simp_all add: cmov_name_def find_instr_eval)

lemma find_instr_alu:
  "f < A_NONE \<Longrightarrow> find_instr (alu_name f @ CHR '' '' # t) =
     Some (mk_instr (alu_name f) (length (alu_name f)) (HPACK I_ALU f) 2)"
  by (drule below_4) (elim disjE, simp_all add: alu_name_def find_instr_eval)

lemma find_instr_jmp:
  "c \<le> C_G \<Longrightarrow> find_instr (jmp_name c @ CHR '' '' # t) =
     Some (mk_instr (jmp_name c) (length (jmp_name c)) (HPACK I_JMP c) 9)"
  by (drule upto_6) (elim disjE, simp_all add: jmp_name_def find_instr_eval)

lemma find_instr_plain:
  "find_instr (''halt'' @ t) = Some (mk_instr ''halt'' (length ''halt'') (HPACK I_HALT F_NONE) 1)"
  "find_instr (''nop'' @ t) = Some (mk_instr ''nop'' (length ''nop'') (HPACK I_NOP F_NONE) 1)"
  "find_instr (''ret'' @ t) = Some (mk_instr ''ret'' (length ''ret'') (HPACK I_RET F_NONE) 1)"
  "find_instr (''irmovq'' @ t) = Some (mk_instr ''irmovq'' (length ''irmovq'') (HPACK I_IRMOVQ F_NONE) 10)"
  "find_instr (''rmmovq'' @ t) = Some (mk_instr ''rmmovq'' (length ''rmmovq'') (HPACK I_RMMOVQ F_NONE) 10)"
  "find_instr (''mrmovq'' @ t) = Some (mk_instr ''mrmovq'' (length ''mrmovq'') (HPACK I_MRMOVQ F_NONE) 10)"
  "find_instr (''call'' @ t) = Some (mk_instr ''call'' (length ''call'') (HPACK I_CALL F_NONE) 9)"
  "find_instr (''pushq'' @ t) = Some (mk_instr ''pushq'' (length ''pushq'') (HPACK I_PUSHQ F_NONE) 2)"
  "find_instr (''popq'' @ t) = Some (mk_instr ''popq'' (length ''popq'') (HPACK I_POPQ F_NONE) 2)"
  by (simp_all add: find_instr_eval mk_instr_def)

section \<open>Tokens\<close>

lemma below_15:
  "(r :: nat) < 15 \<Longrightarrow> r = 0 \<or> r = 1 \<or> r = 2 \<or> r = 3 \<or> r = 4 \<or> r = 5 \<or> r = 6 \<or> r = 7 \<or> r = 8 \<or>
     r = 9 \<or> r = 10 \<or> r = 11 \<or> r = 12 \<or> r = 13 \<or> r = 14"
  by presburger

lemma find_register_text:
  "r < REG_NONE \<Longrightarrow> find_register (reg_text r @ t) = Some (reg_text r, r, length (reg_text r))"
  unfolding REG_NONE_def
  by (drule below_15) (elim disjE, simp_all add: reg_text_def find_register_def asm_reg_table_def strncmp_eq_def)

lemma reg_text_head: "r < REG_NONE \<Longrightarrow> \<exists>u. reg_text r = CHR ''%'' # u"
  unfolding REG_NONE_def
  by (drule below_15) (elim disjE, simp_all add: reg_text_def asm_reg_table_def)

lemma parse_reg_text [simp]: "r < REG_NONE \<Longrightarrow> parse_reg (reg_text r @ t) = Some (r, t)"
  using find_register_text [of r t] reg_text_head [of r]
  by (auto simp: parse_reg_def Let_def IS_REG_def head_is_def blank_char_def)

lemma skip_space [simp]: "SKIP_BLANK (CHR '' '' # t) = SKIP_BLANK t"
  by (simp add: blank_char_def)

lemma parse_space [simp]:
  "parse_reg (CHR '' '' # t) = parse_reg t"
  "parse_imm (CHR '' '' # t) = parse_imm t"
  "parse_mem v (CHR '' '' # t) = parse_mem v t"
  using p_reg.skips [of "'' ''" t] p_imm.skips [of "'' ''" t] p_mem.skips [of "'' ''" v t]
  by (simp_all add: blank_char_def)

lemma parse_delim_here [simp]: "\<not> blank_char d \<Longrightarrow> parse_delim d (d # t) = Some t"
  by (simp add: parse_delim_def)

lemma hex_val_char [simp]: "h < 16 \<Longrightarrow> hex_val (hex_char h) = Some h"
proof -
  assume "h < 16"
  then have "h \<in> {0, 1, 2, 3, 4, 5, 6, 7, 8, 9, 10, 11, 12, 13, 14, 15}"
    unfolding insert_iff empty_iff by presburger
  then show ?thesis
    by (elim insertE emptyE)
       (simp_all add: hex_val_def hex_char_def dec_char_def less_eq_char_def)
qed

lemma base_digit_char [simp]: "h < 16 \<Longrightarrow> base_digit 16 (hex_char h)"
  by (simp add: base_digit_def)

lemma hex_fold:
  "foldl (\<lambda>m c. m * 16 + the (hex_val c)) acc (map (\<lambda>i. hex_char (n div 16 ^ i mod 16)) (rev [0..<k])) =
   acc * 16 ^ k + n mod 16 ^ k"
proof (induction k arbitrary: acc)
  case (Suc k)
  have "n mod 16 ^ Suc k = 16 ^ k * (n div 16 ^ k mod 16) + n mod 16 ^ k"
    unfolding power_Suc2 by (rule mod_mult2_eq)
  then show ?case by (simp add: Suc) (simp add: algebra_simps)
qed simp

lemma num_text_read [simp]:
  assumes "\<not> head_is (base_digit 16) t"
  shows "strtoull0 (num_text v @ t) = (v, t)"
proof -
  let ?ds = "map (\<lambda>i. hex_char (unat v div 16 ^ i mod 16)) (rev [0..<16])"
  have "rev [0..<16] = 15 # rev [0..<15]" by (simp add: upt_rec)
  then have pre: "hex_prefix (num_text v @ t)" by (simp add: num_text_def)
  have tk: "takeWhile (base_digit 16) (?ds @ t) = ?ds"
    using assms by (subst takeWhile_append2) (auto simp: head_is_def takeWhile_eq_Nil_iff split: list.splits)
  have val: "digits_val 16 ?ds = unat v"
    using unsigned_less [of v, where 'a = nat] by (simp add: digits_val_def hex_fold)
  have u: "drop 2 (num_text v @ t) = ?ds @ t" by (simp add: num_text_def)
  have sg: "strtoull_sign (num_text v @ t) = (False, num_text v @ t)" by (simp add: num_text_def)
  have lt: "\<not> unat v \<ge> 2 ^ 64"
    using unsigned_less [of v, where 'a = nat] by simp
  have "strtoull0 (num_text v @ t) = (of_nat (unat v), t)"
    unfolding strtoull0_def Let_def sg prod.case strtoull_base_def if_P [OF pre] u tk val
    using lt by simp
  then show ?thesis by simp
qed

lemma num_text_head: "\<exists>u. num_text v = CHR ''0'' # u"
  by (simp add: num_text_def)

lemma num_text_digit [simp]: "IS_DIGIT (num_text v @ t)" "SKIP_BLANK (num_text v @ t) = num_text v @ t"
  by (simp_all add: IS_DIGIT_def num_text_def head_is_def digit_char_def dec_char_def blank_char_def)

lemma parse_num [simp]:
  "\<not> head_is (base_digit 16) t \<Longrightarrow> parse_digit (num_text v @ t) = Some (v, t)"
  by (simp add: parse_digit_def Let_def)

lemma not_hex [simp]: "\<not> head_is (base_digit 16) []" "\<not> head_is (base_digit 16) (CHR '','' # t)"
  "\<not> head_is (base_digit 16) (CHR ''('' # t)" "\<not> head_is (base_digit 16) (CHR '' '' # t)"
  by (simp_all add: head_is_def base_digit_def hex_val_def dec_char_def)

lemma parse_imm_text [simp]:
  "\<not> head_is (base_digit 16) t \<Longrightarrow> parse_imm (CHR ''$'' # num_text v @ t) = Some (Digit v, t)"
  by (simp add: parse_imm_def Let_def IS_END_def IS_IMM_def head_is_def blank_char_def)

lemma parse_mem_text [simp]:
  assumes "r < REG_NONE"
  shows "parse_mem v0 (num_text v @ CHR ''('' # reg_text r @ CHR '')'' # t) = Some ((v, r), t)"
proof -
  have "IS_REG (reg_text r @ CHR '')'' # t)"
    using reg_text_head [OF assms] by (auto simp: IS_REG_def head_is_def)
  then show ?thesis using assms by (simp add: parse_mem_def Let_def blank_char_def)
qed

section \<open>One turn of \<^verbatim>\<open>parse_line\<close> on the text of an instruction\<close>

text \<open>What may follow an instruction on its line.\<close>

definition ends_token :: "string \<Rightarrow> bool" where
  "ends_token t \<longleftrightarrow> (t = [] \<or> head_is blank_char t) \<and> \<not> head_is (\<lambda>c. c = CHR '':'') (SKIP_BLANK t)"

lemma parse_label_None:
  assumes "list_all letter_char nm" and "nm \<noteq> []" and "\<not> head_is sym_char t"
    and "\<not> head_is (\<lambda>c. c = CHR '':'') (SKIP_BLANK t)"
  shows "parse_label (nm @ t) = None"
proof -
  have "\<not> blank_char c" if "letter_char c" for c using that by (auto simp: letter_char_def blank_char_def)
  then have sk: "SKIP_BLANK (nm @ t) = nm @ t" using assms by (cases nm) auto
  have "dropWhile sym_char (nm @ t) = dropWhile sym_char t"
    using assms(1) by (induction nm) (auto simp: sym_char_def)
  also have "\<dots> = t" using assms(3) by (cases t) (auto simp: head_is_def)
  finally have "dropWhile sym_char (nm @ t) = t" .
  then show ?thesis using assms(4) by (auto simp: parse_label_def Let_def sk parse_delim_def head_is_def split: list.splits)
qed

lemma sym_blank: "blank_char c \<Longrightarrow> \<not> sym_char c"
  by (auto simp: sym_char_def letter_char_def digit_char_def dec_char_def blank_char_def less_eq_char_def of_char_def)

lemma instr_name_letters: "valid_instr i \<Longrightarrow> list_all letter_char (instr_name i) \<and> instr_name i \<noteq> []"
proof (cases i)
  case (Rrmov c a b)
  moreover assume "valid_instr i"
  ultimately show ?thesis
    by simp (drule conjunct1, drule upto_6, elim disjE, simp_all add: cmov_name_def letter_char_def less_eq_char_def of_char_def)
next
  case (Alu f a b)
  moreover assume "valid_instr i"
  ultimately show ?thesis
    by simp (drule conjunct1, drule below_4, elim disjE, simp_all add: alu_name_def letter_char_def less_eq_char_def of_char_def)
next
  case (Jmp c d)
  moreover assume "valid_instr i"
  ultimately show ?thesis
    by simp (drule upto_6, elim disjE, simp_all add: jmp_name_def letter_char_def less_eq_char_def of_char_def)
qed (simp_all add: letter_char_def less_eq_char_def of_char_def)

lemma operand_text_ends:
  assumes "valid_instr i" and "ends_token t"
  shows "ends_token (operand_text i @ t)"
  using assms
  by (cases i) (auto simp: ends_token_def head_is_def num_text_def blank_char_def dest!: reg_text_head)

lemma parse_label_text: "valid_instr i \<Longrightarrow> ends_token t \<Longrightarrow> parse_label (asm_text i @ t) = None"
  using parse_label_None [of "instr_name i" "operand_text i @ t"] instr_name_letters [of i]
    operand_text_ends [of i t]
  by (auto simp: asm_text_def ends_token_def head_is_def sym_blank split: list.splits)

definition instr_entry :: "y64_instr \<Rightarrow> instr_t" where
  "instr_entry i = mk_instr (instr_name i) (length (instr_name i)) (hd (encode i)) (length (encode i))"

lemma find_instr_text: "valid_instr i \<Longrightarrow> find_instr (asm_text i @ t) = Some (instr_entry i)"
  by (cases i) (simp_all add: asm_text_def instr_entry_def find_instr_plain [simplified] find_instr_cmov find_instr_alu find_instr_jmp)

lemma skip_text: "valid_instr i \<Longrightarrow> SKIP_BLANK (asm_text i @ t) = asm_text i @ t"
  using instr_name_letters [of i]
  by (cases "instr_name i") (auto simp: asm_text_def letter_char_def blank_char_def)

lemma parse_instr_text:
  "valid_instr i \<Longrightarrow> parse_instr (asm_text i @ t) = Some (instr_entry i, operand_text i @ t)"
  by (simp add: parse_instr_def Let_def find_instr_text skip_text)
     (simp add: asm_text_def instr_entry_def)

fun value_after :: "y64_instr \<Rightarrow> i64 \<Rightarrow> i64" where
  "value_after (Irmov v b) v0 = v"
| "value_after (Rmmov a d b) v0 = d"
| "value_after (Mrmov d b a) v0 = d"
| "value_after (Jmp c d) v0 = d"
| "value_after (Call d) v0 = d"
| "value_after _ v0 = v0"

definition line_after :: "y64_instr \<Rightarrow> i64 \<Rightarrow> line_t \<Rightarrow> line_t" where
  "line_after i vm l = l\<lparr>l_type := TYPE_INS, l_addr := vm,
     l_codes := encode i @ drop (length (encode i)) (l_codes l), l_bytes := length (encode i)\<rparr>"

definition turn_after :: "y64_instr \<Rightarrow> string \<Rightarrow> pl_t \<Rightarrow> pl_t" where
  "turn_after i t s =
     (let vm = as_vmaddr (pl_asm s)
      in s\<lparr>pl_ptr := t, pl_value := value_after i (pl_value s), pl_line := line_after i vm (pl_line s),
           pl_asm := (pl_asm s)\<lparr>as_vmaddr := vm + of_nat (length (encode i))\<rparr>\<rparr>)"

lemma addressMemory_splice:
  "n \<le> 8 \<Longrightarrow> off + n \<le> length codes \<Longrightarrow> addressMemory codes off v n = splice_at off (take n (long_bytes v)) codes"
proof (induction n)
  case (Suc n)
  then have "addressMemory codes off v (Suc n) = (splice_at off (take n (long_bytes v)) codes)[off + n := long_bytes v ! n]"
    by simp
  also have "\<dots> = splice_at off (take n (long_bytes v) @ [long_bytes v ! n]) codes"
    using splice_at_snoc [of off "take n (long_bytes v)" codes "long_bytes v ! n"] Suc.prems by simp
  also have "take n (long_bytes v) @ [long_bytes v ! n] = take (Suc n) (long_bytes v)"
    using Suc.prems by (simp add: take_Suc_conv_app_nth)
  finally show ?case .
qed simp

lemma addressMemory_8:
  "off + 8 \<le> length codes \<Longrightarrow> addressMemory codes off v 8 = take off codes @ long_bytes v @ drop (off + 8) codes"
  by (simp add: addressMemory_splice splice_at_def)

lemma ten: "length xs = 10 \<Longrightarrow> \<exists>a b c d e f g h i j. xs = [a, b, c, d, e, f, g, h, i, j]"
  by (auto simp: numeral_eq_Suc length_Suc_conv)

lemma ends_token_not_hex: "ends_token t \<Longrightarrow> \<not> head_is (base_digit 16) t"
  by (cases t) (auto simp: ends_token_def head_is_def blank_char_def base_digit_def hex_val_def dec_char_def)

lemmas turn_defs = turn_after_def line_after_def pl_start_def instr_entry_def Let_def
  code_reg_def code_long_def

lemma pl_operands_text:
  assumes "valid_instr i" and "ends_token t" and "length (l_codes (pl_line s)) = 10"
  shows "pl_operands k (instr_entry i) (pl_start (instr_entry i) (operand_text i @ t) s) =
    Some (Inr (turn_after i t s))"
proof -
  obtain a b c d e f g h j m where codes: "l_codes (pl_line s) = [a, b, c, d, e, f, g, h, j, m]"
    using ten [OF assms(3)] by blast
  show ?thesis
    using assms(1) ends_token_not_hex [OF assms(2)]
    by (cases i)
       (simp_all add: pl_operands_def pl_operand_defs turn_defs codes expect_def addressMemory_8 blank_char_def)
qed

lemma pl_body_text:
  assumes "valid_instr i" and "ends_token t" and "length (l_codes (pl_line s)) = 10"
    and "pl_ptr s = asm_text i @ t"
  shows "pl_body k s = Some (Inr (turn_after i t s))"
  using assms pl_operands_text [OF assms(1-3)]
  by (simp add: pl_body_def Let_def skip_text parse_label_text parse_instr_text)

lemma parse_line_text:
  assumes "valid_instr i" and "ends_token t" and "length (l_codes (pl_line s)) = 10"
    and "pl_ptr s = asm_text i @ t"
  shows "parse_line k s = parse_line k (turn_after i t s)"
proof -
  obtain c u where "instr_name i = c # u" "letter_char c"
    using instr_name_letters [OF assms(1)] by (cases "instr_name i") auto
  then have "\<not> IS_END (asm_text i @ t)" "\<not> IS_COMMENT (asm_text i @ t)"
    by (auto simp: IS_END_def IS_COMMENT_def head_is_def asm_text_def letter_char_def less_eq_char_def)
  then show ?thesis using assms pl_body_text [OF assms]
    by (subst parse_line.simps) (simp add: Let_def skip_text)
qed

end
