(* ===== verification/Y64_AsmProps.thy ===== *)
theory Y64_AsmProps
  imports Y64_Text
begin

text \<open>
  The properties of the Y64 assembler: the tables, what a line leaves in the symbol table, the
  relocations and the image, and the round trip of the canonical text through \<^verbatim>\<open>assemble\<close>,
  \<^verbatim>\<open>relocate\<close> and \<^verbatim>\<open>binfile\<close> to the simulator's decoder.
\<close>

section \<open>Machine code is decoded back\<close>

lemma rd8_nat: "n < length mem \<Longrightarrow> length mem < 2 ^ 63 \<Longrightarrow> rd8 mem (of_nat n) = Some (mem ! n)"
  by (simp add: rd8_def sint_of_nat_small)

lemma rd64_nat:
  "n + 8 \<le> length mem \<Longrightarrow> length mem < 2 ^ 63 \<Longrightarrow> rd64 mem (of_nat n) = Some (bytes_long (drop n mem))"
  by (simp add: rd64_def sint_of_nat_small)

lemma bytes_long_front: "bytes_long (long_bytes v @ xs) = v"
  using bytes_long_cong [of "long_bytes v @ xs" "long_bytes v"] by simp

lemma decode_encode:
  assumes "valid_instr i" and "length (pre @ encode i @ post) < 2 ^ 63"
  shows "decode (pre @ encode i @ post) (of_nat (length pre)) =
    Some (i, of_nat (length pre + length (encode i)))"
proof -
  have rd: "rd8 (pre @ encode i @ post) (of_nat (length pre)) = Some (encode i ! 0)"
    using assms rd8_nat [of "length pre" "pre @ encode i @ post"]
    by (cases i) (simp_all add: nth_append)
  have rd1: "rd8 (pre @ encode i @ post) (of_nat (length pre) + 1) = Some (encode i ! 1)"
    if "1 < length (encode i)"
    using assms that rd8_nat [of "length pre + 1" "pre @ encode i @ post"]
    by (simp add: nth_append add.commute)
  have rd64: "rd64 (pre @ encode i @ post) (of_nat (length pre) + of_nat k) = Some (bytes_long (drop k (encode i) @ post))"
    if "k + 8 \<le> length (encode i)" for k
    using assms that rd64_nat [of "length pre + k" "pre @ encode i @ post"]
    by simp
  show ?thesis
    using assms(1) rd rd1 rd64 [of 1] rd64 [of 2]
    by (cases i) (simp_all add: decode_def Let_def bytes_long_front algebra_simps REG_NONE_def)
qed

section \<open>A line with one or two instructions\<close>

lemma parse_line_end: "pl_ptr s = [] \<Longrightarrow> parse_line k s = Some (pl_line s, pl_asm s)"
  by (subst parse_line.simps) (simp add: IS_END_def)

lemma ends_token_Nil [simp]: "ends_token []"
  by (simp add: ends_token_def head_is_def)

lemma length_encode: "length (encode i) \<le> 10"
  by (cases i) simp_all

lemma turn_after_sel [simp]:
  "pl_ptr (turn_after i t s) = t"
  "pl_line (turn_after i t s) = line_after i (as_vmaddr (pl_asm s)) (pl_line s)"
  "pl_asm (turn_after i t s) = (pl_asm s)\<lparr>as_vmaddr := as_vmaddr (pl_asm s) + of_nat (length (encode i))\<rparr>"
  by (simp_all add: turn_after_def Let_def)

lemma line_after_codes [simp]:
  "length (l_codes l) = 10 \<Longrightarrow> length (l_codes (line_after i vm l)) = 10"
  using length_encode [of i] by (simp add: line_after_def)

lemma parse_line_one:
  assumes "valid_instr i" and "length (l_codes (pl_line s)) = 10" and "pl_ptr s = asm_text i"
  shows "parse_line k s = Some (line_after i (as_vmaddr (pl_asm s)) (pl_line s),
    (pl_asm s)\<lparr>as_vmaddr := as_vmaddr (pl_asm s) + of_nat (length (encode i))\<rparr>)"
  using parse_line_text [of i "[]" s k] assms by (simp add: parse_line_end)

lemma pl_body_skip: "pl_body k (s\<lparr>pl_ptr := SKIP_BLANK p\<rparr>) = pl_body k (s\<lparr>pl_ptr := p\<rparr>)"
  by (cases s) (simp add: pl_body_def Let_def pl_label_def pl_start_def split: option.split prod.split)

lemma parse_line_skip: "parse_line k (s\<lparr>pl_ptr := CHR '' '' # p\<rparr>) = parse_line k (s\<lparr>pl_ptr := p\<rparr>)"
proof -
  have "pl_body k (s\<lparr>pl_ptr := CHR '' '' # p\<rparr>) = pl_body k (s\<lparr>pl_ptr := p\<rparr>)"
    using pl_body_skip [of k "CHR '' '' # p" s] pl_body_skip [of k p s] by (simp only: skip_space)
  then show ?thesis
    by (subst (1 2) parse_line.simps) (simp add: Let_def blank_char_def split: option.split sum.split)
qed

lemma ends_token_text: "valid_instr i \<Longrightarrow> ends_token (CHR '' '' # asm_text i)"
  using skip_text [of i "[]"] instr_name_letters [of i]
  by (cases "instr_name i")
     (auto simp: ends_token_def head_is_def asm_text_def letter_char_def blank_char_def less_eq_char_def)

lemma parse_line_two:
  assumes "valid_instr i" and "valid_instr j" and "length (l_codes (pl_line s)) = 10"
    and "pl_ptr s = asm_text i @ CHR '' '' # asm_text j"
  shows "parse_line k s = Some
    (line_after j (as_vmaddr (pl_asm s) + of_nat (length (encode i)))
       (line_after i (as_vmaddr (pl_asm s)) (pl_line s)),
     (pl_asm s)\<lparr>as_vmaddr := as_vmaddr (pl_asm s) + of_nat (length (encode i)) + of_nat (length (encode j))\<rparr>)"
proof -
  let ?u = "turn_after i (CHR '' '' # asm_text j) s"
  have keep: "?u\<lparr>pl_ptr := CHR '' '' # asm_text j\<rparr> = ?u" by (rule pl_t.equality) simp_all
  have "parse_line k s = parse_line k ?u"
    using parse_line_text [of i "CHR '' '' # asm_text j" s k] assms ends_token_text by simp
  also have "\<dots> = parse_line k (?u\<lparr>pl_ptr := asm_text j\<rparr>)"
    using parse_line_skip [of k "asm_text j" ?u] keep by simp
  also have "\<dots> = Some (line_after j (as_vmaddr (pl_asm s) + of_nat (length (encode i)))
       (line_after i (as_vmaddr (pl_asm s)) (pl_line s)),
     (pl_asm s)\<lparr>as_vmaddr := as_vmaddr (pl_asm s) + of_nat (length (encode i)) + of_nat (length (encode j))\<rparr>)"
    using parse_line_one [of j "?u\<lparr>pl_ptr := asm_text j\<rparr>" k] assms by simp
  finally show ?thesis .
qed

section \<open>A program in canonical text\<close>

definition program_text :: "y64_instr list \<Rightarrow> string" where
  "program_text is = concat (map (\<lambda>i. asm_text i @ [NL]) is)"

definition program_code :: "y64_instr list \<Rightarrow> byte list" where
  "program_code is = concat (map encode is)"

fun program_lines :: "i64 \<Rightarrow> y64_instr list \<Rightarrow> line_t list" where
  "program_lines vm [] = []"
| "program_lines vm (i # is) =
     line_after i vm (new_line (asm_text i)) # program_lines (vm + of_nat (length (encode i))) is"

definition text_char :: "char \<Rightarrow> bool" where
  "text_char c \<longleftrightarrow> \<not> eol_char c \<and> c \<noteq> CHR 0x00"

lemma fgets_text: "list_all text_char s \<Longrightarrow> length s < n \<Longrightarrow> fgets_line n (s @ NL # t) = (s @ [NL], t)"
proof (induction s arbitrary: n)
  case Nil
  then show ?case by (cases n) auto
next
  case (Cons c s)
  then show ?case by (cases n) (auto simp: text_char_def eol_char_def)
qed

lemma strip_text: "list_all text_char s \<Longrightarrow> s \<noteq> [] \<Longrightarrow> strip_eol prev (rev (c_str (s @ [NL]))) = Some s"
proof -
  assume s: "list_all text_char s" "s \<noteq> []"
  then have "c_str (s @ [NL]) = s @ [NL]"
    by (auto simp: c_str_def takeWhile_append text_char_def list_all_iff)
  moreover obtain c u where "rev s = c # u" using s(2) by (cases "rev s") auto
  moreover from this have "s = rev u @ [c]" by (metis rev.simps(2) rev_rev_ident)
  ultimately show ?thesis using s(1) by (simp add: eol_char_def text_char_def)
qed

lemma list_all_nth_cases:
  "\<forall>x\<in>set xs. P x \<Longrightarrow> k < length xs \<Longrightarrow> P (xs ! k)"
  by simp

lemma text_char_simp: "text_char c \<longleftrightarrow> c \<noteq> NL \<and> c \<noteq> CR \<and> c \<noteq> CHR 0x00"
  by (auto simp: text_char_def eol_char_def)

lemma letter_text_char: "letter_char c \<Longrightarrow> text_char c"
  by (auto simp: letter_char_def text_char_simp less_eq_char_def)

lemma reg_text_ok: "r < REG_NONE \<Longrightarrow> list_all text_char (reg_text r) \<and> length (reg_text r) \<le> 4"
  unfolding REG_NONE_def
  by (drule below_15) (elim disjE, simp_all add: reg_text_def asm_reg_table_def text_char_simp)

lemma hex_char_text: "h < 16 \<Longrightarrow> text_char (hex_char h)"
  by (auto simp: hex_char_def text_char_simp dest!: arg_cong [of _ _ "of_char :: char \<Rightarrow> nat"])

lemma num_text_ok: "list_all text_char (num_text v) \<and> length (num_text v) = 18"
  by (auto simp: num_text_def list_all_iff intro: hex_char_text) (simp_all add: text_char_simp)

lemma instr_name_length: "valid_instr i \<Longrightarrow> length (instr_name i) \<le> 6"
  by (cases i)
     (auto dest!: upto_6 below_4 simp: cmov_name_def alu_name_def jmp_name_def)

lemma asm_text_ok:
  assumes "valid_instr i"
  shows "list_all text_char (asm_text i)" and "length (asm_text i) < 511" and "asm_text i \<noteq> []"
proof -
  have "list_all text_char (instr_name i)" "instr_name i \<noteq> []"
    using instr_name_letters [OF assms] letter_text_char by (auto simp: list_all_iff)
  moreover have "list_all text_char (operand_text i) \<and> length (operand_text i) < 500"
    using assms by (cases i) (auto simp: num_text_ok text_char_simp dest!: reg_text_ok)
  ultimately show "list_all text_char (asm_text i)" "length (asm_text i) < 511" "asm_text i \<noteq> []"
    using instr_name_length [OF assms] by (auto simp: asm_text_def)
qed

lemma new_line_codes [simp]: "length (l_codes (new_line y)) = 10"
  by (simp add: new_line_def)

lemma line_after_INS [simp]: "l_type (line_after i vm l) = TYPE_INS"
  by (simp add: line_after_def)

text \<open>A program in canonical text assembles to one line per instruction, at consecutive addresses.\<close>

lemma assemble_text:
  assumes "list_all valid_instr is"
  shows "assemble prev (program_text is) a = Some (0,
    a\<lparr>as_lines := as_lines a @ program_lines (as_vmaddr a) is,
      as_vmaddr := as_vmaddr a + of_nat (length (program_code is)), as_lineno := - 1\<rparr>)"
  using assms
proof (induction "is" arbitrary: a)
  case Nil
  then show ?case by (subst assemble.simps) (simp add: program_text_def program_code_def)
next
  case (Cons i "is")
  let ?s = "\<lparr>pl_ptr = asm_text i, pl_value = 0, pl_line = new_line (asm_text i),
              pl_asm = a\<lparr>as_lineno := as_lineno a + 1\<rparr>\<rparr>"
  have ok: "valid_instr i" "list_all valid_instr is" using Cons.prems by simp_all
  have prog: "program_text (i # is) = asm_text i @ NL # program_text is"
    by (simp add: program_text_def)
  have gets: "fgets_line (MAX_INSLEN - 1) (program_text (i # is)) = (asm_text i @ [NL], program_text is)"
    unfolding prog by (rule fgets_text) (use asm_text_ok [OF ok(1)] in \<open>auto simp: MAX_INSLEN_def\<close>)
  have line: "parse_line (length (as_lines a)) ?s = Some (line_after i (as_vmaddr a) (new_line (asm_text i)),
      a\<lparr>as_lineno := as_lineno a + 1, as_vmaddr := as_vmaddr a + of_nat (length (encode i))\<rparr>)"
    using parse_line_one [OF ok(1), of ?s] by simp
  have "assemble prev (program_text (i # is)) a = assemble prev (program_text is)
      (a\<lparr>as_lineno := as_lineno a + 1, as_vmaddr := as_vmaddr a + of_nat (length (encode i)),
         as_lines := as_lines a @ [line_after i (as_vmaddr a) (new_line (asm_text i))]\<rparr>)"
    using asm_text_ok [OF ok(1)] prog
    by (subst assemble.simps) (simp add: gets [unfolded prog One_nat_def] strip_text line [unfolded One_nat_def])
  then show ?case using Cons.IH [OF ok(2)] by (simp add: program_code_def algebra_simps)
qed

lemma file_write_append: "file_write f (length f) bs = f @ bs"
  by (simp add: file_write_def)

lemma binfile_text:
  assumes "list_all valid_instr is" and "length f + length (program_code is) < 2 ^ 63"
  shows "binfile (program_lines (of_nat (length f)) is) f = (0, f @ program_code is)"
  using assms
proof (induction "is" arbitrary: f)
  case (Cons i "is")
  have "sint (of_nat (length f) :: i64) = int (length f)"
    using Cons.prems by (intro sint_of_nat_small) simp
  moreover have "take (length (encode i)) (l_codes (line_after i vm l)) = encode i" for vm l
    by (simp add: line_after_def)
  moreover have "l_addr (line_after i vm l) = vm" "l_bytes (line_after i vm l) = length (encode i)" for vm l
    by (simp_all add: line_after_def)
  ultimately show ?case
    using Cons.IH [of "f @ encode i"] Cons.prems
    by (simp add: file_write_append program_code_def add.commute)
qed (simp add: program_code_def)

section \<open>Relocation\<close>

definition resolved :: "asm_t \<Rightarrow> string \<times> nat \<Rightarrow> bool" where
  "resolved a r \<longleftrightarrow> find_symbol (fst r) (as_symtab a) \<noteq> None"

lemma map_of_swap_None: "map_of (map prod.swap rs) k = None \<longleftrightarrow> k \<notin> snd ` set rs"
  by (force simp: map_of_eq_None_iff)

lemma relocate_loop_fails:
  "fst (relocate_loop rs a) = (if list_all (resolved a) rs then 0 else - 1)"
  by (induction rs a rule: relocate_loop.induct) (auto simp: resolved_def split: option.splits)

lemma reloc_line_type [simp]: "l_type (reloc_line addr l) = l_type l" "l_addr (reloc_line addr l) = l_addr l"
  "l_bytes (reloc_line addr l) = l_bytes l" "wf_line (reloc_line addr l) = wf_line l"
  by (simp_all add: reloc_line_def code_long_def wf_line_def)

text \<open>The relocation table names each line at most once: then every line is patched by its own entry.\<close>

lemma relocate_loop_lines:
  assumes "relocate_loop rs a = (0, a')" and "distinct (map snd rs)"
    and "\<forall>(nm, k) \<in> set rs. k < length (as_lines a)"
  shows "length (as_lines a') = length (as_lines a) \<and> as_symtab a' = as_symtab a \<and>
    (\<forall>j < length (as_lines a). as_lines a' ! j =
       (case map_of (map prod.swap rs) j of
          None \<Rightarrow> as_lines a ! j
        | Some nm \<Rightarrow> reloc_line (the (find_symbol nm (as_symtab a))) (as_lines a ! j)))"
  using assms
proof (induction rs a rule: relocate_loop.induct)
  case (2 nm k rs a)
  then obtain addr where addr: "find_symbol nm (as_symtab a) = Some addr"
    by (cases "find_symbol nm (as_symtab a)") auto
  let ?a = "a\<lparr>as_lines := (as_lines a)[k := reloc_line addr (as_lines a ! k)]\<rparr>"
  have "k \<notin> snd ` set rs" using 2(3) by auto
  then have "map_of (map prod.swap rs) k = None" by (simp add: map_of_swap_None)
  then show ?case using 2(1) [OF addr] 2(2-4) addr
    by (auto simp: nth_list_update split: option.splits)
qed simp

lemma reloc_line_codes:
  assumes "wf_line l"
  shows "take 8 (drop (reloc_offset (l_codes l ! 0)) (l_codes (reloc_line addr l))) = long_bytes addr"
proof -
  have "reloc_offset (l_codes l ! 0) \<le> 2" by (simp add: reloc_offset_def)
  then show ?thesis using assms
    by (simp add: reloc_line_def code_long_def wf_line_def addressMemory_8)
qed


section \<open>The image\<close>

lemma length_file_write: "length (file_write f off bs) = (if bs = [] then length f else max (length f) (off + length bs))"
  by (auto simp: file_write_def max_def)

lemma file_write_same: "bs \<noteq> [] \<Longrightarrow> take (length bs) (drop off (file_write f off bs)) = bs"
  by (auto simp: file_write_def)

lemma file_write_nth:
  assumes "i < length f" and "\<not> (off \<le> i \<and> i < off + length bs)"
  shows "file_write f off bs ! i = f ! i"
  using assms by (auto simp: file_write_def nth_append min_def)

lemma file_write_other:
  assumes "p + n \<le> length f" and "p + n \<le> off \<or> off + length bs \<le> p"
  shows "take n (drop p (file_write f off bs)) = take n (drop p f)"
proof (rule nth_equalityI)
  show "length (take n (drop p (file_write f off bs))) = length (take n (drop p f))"
    using assms(1) by (auto simp: length_file_write)
next
  fix i assume "i < length (take n (drop p (file_write f off bs)))"
  then have "i < n" by simp
  then show "take n (drop p (file_write f off bs)) ! i = take n (drop p f) ! i"
    using assms file_write_nth [of "p + i" f off bs] length_file_write [of f off bs]
    by (auto simp: max_def split: if_splits)
qed

definition line_pos :: "line_t \<Rightarrow> nat" where
  "line_pos l = nat (sint (l_addr l))"

definition apart :: "line_t \<Rightarrow> line_t \<Rightarrow> bool" where
  "apart l m \<longleftrightarrow> line_pos l + l_bytes l \<le> line_pos m \<or> line_pos m + l_bytes m \<le> line_pos l"

lemma binfile_untouched:
  assumes "binfile ls out = (0, f)" and "list_all wf_line ls" and "p + n \<le> length out"
    and "\<forall>m \<in> set ls. l_type m = TYPE_INS \<longrightarrow> p + n \<le> line_pos m \<or> line_pos m + l_bytes m \<le> p"
  shows "take n (drop p f) = take n (drop p out)"
  using assms
proof (induction ls out rule: binfile.induct)
  case (2 l ls out)
  show ?case
  proof (cases "l_type l = TYPE_INS")
    case True
    let ?out = "file_write out (line_pos l) (take (l_bytes l) (l_codes l))"
    have "length out \<le> length ?out" by (simp add: length_file_write)
    moreover have "binfile ls ?out = (0, f)" "\<not> sint (l_addr l) < 0"
      using 2(3) True by (auto simp: line_pos_def split: if_splits)
    ultimately have "take n (drop p f) = take n (drop p ?out)"
      using 2(2,4-6) True by (simp add: line_pos_def)
    then show ?thesis
      using file_write_other [of p n out "line_pos l" "take (l_bytes l) (l_codes l)"] 2(4-6) True
      by (simp add: wf_line_def)
  qed (use 2 in auto)
qed simp

lemma binfile_append:
  "binfile (ls @ ms) out =
     (case binfile ls out of (r, f) \<Rightarrow> if r = 0 then binfile ms f else (r, f))"
  by (induction ls out rule: binfile.induct) auto

lemma binfile_result: "fst (binfile ls out) = 0 \<longleftrightarrow> (\<forall>l \<in> set ls. l_type l = TYPE_INS \<longrightarrow> 0 \<le> sint (l_addr l))"
  by (induction ls out rule: binfile.induct) auto

text \<open>C7: \<^verbatim>\<open>binfile\<close> succeeds exactly when no instruction line has a negative address, and then the
  bytes of every instruction line that no later line overlaps stand in the file at its address.\<close>

theorem binfile_layout:
  assumes "list_all wf_line (ls @ l # ms)" and "l_type l = TYPE_INS"
    and "\<forall>m \<in> set ms. l_type m = TYPE_INS \<longrightarrow> apart l m"
    and "binfile (ls @ l # ms) [] = (r, f)"
  shows "(r = 0 \<longleftrightarrow> (\<forall>m \<in> set (ls @ l # ms). l_type m = TYPE_INS \<longrightarrow> 0 \<le> sint (l_addr m))) \<and>
    (r = 0 \<longrightarrow> take (l_bytes l) (drop (line_pos l) f) = take (l_bytes l) (l_codes l))"
proof -
  have "r = 0 \<longleftrightarrow> (\<forall>m \<in> set (ls @ l # ms). l_type m = TYPE_INS \<longrightarrow> 0 \<le> sint (l_addr m))"
    using binfile_result [of "ls @ l # ms" "[]"] assms(4) by simp
  moreover have "take (l_bytes l) (drop (line_pos l) f) = take (l_bytes l) (l_codes l)" if "r = 0"
  proof (cases "l_bytes l = 0")
    case False
    let ?bs = "take (l_bytes l) (l_codes l)"
    have len: "length ?bs = l_bytes l" "?bs \<noteq> []"
      using assms(1) False by (auto simp: wf_line_def)
    obtain g where g: "binfile ls [] = (0, g)" "binfile (l # ms) g = (0, f)"
      using assms(4) \<open>r = 0\<close> by (auto simp: binfile_append split: prod.splits if_splits)
    then have "binfile ms (file_write g (line_pos l) ?bs) = (0, f)"
      using assms(2) by (auto simp: line_pos_def split: if_splits)
    then have "take (l_bytes l) (drop (line_pos l) f) =
        take (l_bytes l) (drop (line_pos l) (file_write g (line_pos l) ?bs))"
      by (rule binfile_untouched)
         (use assms(1,3) len in \<open>auto simp: apart_def length_file_write\<close>)
    then show ?thesis using file_write_same [OF len(2), of "line_pos l" g] len(1) by simp
  qed simp
  ultimately show ?thesis by simp
qed

section \<open>\<^verbatim>\<open>.align\<close>\<close>

lemma sdiv_pos: "0 \<le> (a :: int) \<Longrightarrow> 0 < b \<Longrightarrow> a sdiv b = a div b"
  by (cases "a = 0") (simp_all add: signed_divide_int_def sgn_if)

lemma align_up_val:
  assumes "0 < sint v" and "0 \<le> sint vm" and "sint vm + sint v \<le> 2 ^ 63"
  shows "\<exists>r. align_up vm v = Some r \<and> sint v dvd sint r \<and> sint vm \<le> sint r \<and> sint r < sint vm + sint v"
proof -
  define q where "q = (sint vm + sint v - 1) div sint v"
  have "vm + v - 1 = word_of_int (sint vm + sint v - 1)" by simp
  then have n: "sint (vm + v - 1) = sint vm + sint v - 1"
    using assms by (simp only: sint_sbintrunc') (simp add: signed_take_bit_int_eq_self)
  have v: "v \<noteq> 0" "v \<noteq> - 1" using assms(1) by auto
  have "q * sint v + (sint vm + sint v - 1) mod sint v = sint vm + sint v - 1"
    unfolding q_def by (rule div_mult_mod_eq)
  moreover have "0 \<le> q" using assms(1,2) by (simp add: q_def pos_imp_zdiv_nonneg_iff)
  ultimately have q: "0 \<le> q" "q * sint v \<le> sint vm + sint v - 1" "sint vm \<le> q * sint v"
    using assms(1,2) pos_mod_bound [of "sint v" "sint vm + sint v - 1"]
      pos_mod_sign [of "sint v" "sint vm + sint v - 1"]
    by linarith+
  have "word_of_int q * v = word_of_int (q * sint v)" by simp
  then have "sint (word_of_int q * v) = q * sint v"
    using assms q by (simp only: sint_sbintrunc') (simp add: signed_take_bit_int_eq_self)
  moreover have "align_up vm v = Some (word_of_int q * v)"
    using v n assms by (simp add: align_up_def Let_def sdiv_pos q_def)
  ultimately show ?thesis using q by auto
qed

text \<open>\<^verbatim>\<open>.align n\<close> with a positive \<open>n\<close> and no overflow moves the address to the least multiple
  of \<open>n\<close> not below it.\<close>

lemma align_least_multiple:
  assumes "0 < sint v" and "0 \<le> sint vm" and "sint vm + sint v \<le> 2 ^ 63"
  shows "\<exists>r. align_up vm v = Some r \<and> sint v dvd sint r \<and> sint vm \<le> sint r \<and>
    (\<forall>m. sint v dvd m \<longrightarrow> sint vm \<le> m \<longrightarrow> sint r \<le> m)"
proof -
  obtain r where r: "align_up vm v = Some r" "sint v dvd sint r" "sint vm \<le> sint r" "sint r < sint vm + sint v"
    using align_up_val [OF assms] by blast
  have "sint r \<le> m" if "sint v dvd m" "sint vm \<le> m" for m
  proof (rule ccontr)
    assume "\<not> sint r \<le> m"
    moreover have "sint v dvd sint r - m" using r(2) that(1) by (rule dvd_diff)
    ultimately have "sint v \<le> sint r - m" by (intro zdvd_imp_le) auto
    then show False using r(4) that(2) by simp
  qed
  then show ?thesis using r by blast
qed

lemma align_least_multiple_witness:
  "\<exists>r. align_up 13 8 = Some r \<and> (8 :: int) dvd sint r \<and> 13 \<le> sint r"
  using align_least_multiple [of 8 13] by auto

text \<open>\<^verbatim>\<open>.align 0\<close>, which \<^verbatim>\<open>parse_line\<close> accepts, divides by zero: the assembler traps.\<close>

theorem align_zero_traps:
  "parse_line k \<lparr>pl_ptr = ''.align 0'', pl_value = v, pl_line = l, pl_asm = a\<rparr> = None"
  by (subst parse_line.simps)
     (simp add: Let_def blank_char_def IS_END_def IS_COMMENT_def head_is_def pl_body_def parse_label_def
        IS_LETTER_def letter_char_def less_eq_char_def parse_instr_def find_instr_eval pl_operands_def
        pl_start_def pl_align_def parse_digit_def IS_DIGIT_def digit_char_def dec_char_def strtoull0_def
        strtoull_base_def base_digit_def hex_val_def digits_val_def align_up_def)

text \<open>an empty line makes \<^verbatim>\<open>assemble\<close> read the byte before its buffer: if that byte is a line
  end the loop goes on outside the buffer, otherwise the line is a comment.\<close>

lemma blank_line_reads_before_buffer:
  "assemble prev (NL # rest) a =
     (if eol_char prev then None
      else assemble prev rest (a\<lparr>as_lineno := as_lineno a + 1, as_lines := as_lines a @ [new_line []]\<rparr>))"
proof -
  obtain m where m: "MAX_INSLEN - 1 = Suc m" by (simp add: MAX_INSLEN_def)
  have f: "fgets_line (MAX_INSLEN - 1) (NL # rest) = ([NL], rest)" unfolding m by simp
  have strip: "strip_eol prev (rev (c_str [NL])) = (if eol_char prev then None else Some [])"
    by (simp add: c_str_def eol_char_def)
  have "parse_line (length (as_lines a)) (first_state [] a) = Some (new_line [], a\<lparr>as_lineno := as_lineno a + 1\<rparr>)"
    by (rule trans [OF parse_line_end]) (simp_all add: first_state_def)
  then show ?thesis
    using assemble_line [OF _ f, of prev "[]" a "new_line []" "a\<lparr>as_lineno := as_lineno a + 1\<rparr>"] strip
    by (subst assemble.simps) (auto simp: f [unfolded One_nat_def] new_line_def first_state_def split: if_splits)
qed

text \<open>of two instructions on one line only the second reaches the image, although the address
  counter moves over both.\<close>

lemma two_instructions_one_line:
  assumes "valid_instr i" and "valid_instr j" and "wf_line (pl_line s)"
    and "pl_ptr s = asm_text i @ CHR '' '' # asm_text j"
  shows "\<exists>l a. parse_line k s = Some (l, a) \<and> l_type l = TYPE_INS \<and>
    l_addr l = as_vmaddr (pl_asm s) + of_nat (length (encode i)) \<and>
    take (l_bytes l) (l_codes l) = encode j \<and>
    as_vmaddr a = as_vmaddr (pl_asm s) + of_nat (length (encode i)) + of_nat (length (encode j))"
  using parse_line_two [OF assms(1,2) _ assms(4)] assms(3)
  by (simp add: wf_line_def line_after_def)

lemma two_instructions_one_line_witness:
  "\<exists>l a. parse_line 0 \<lparr>pl_ptr = ''nop halt'', pl_value = 0, pl_line = new_line [], pl_asm = asm_init\<rparr> = Some (l, a) \<and>
    l_addr l = 1 \<and> take (l_bytes l) (l_codes l) = [HPACK I_HALT F_NONE] \<and> as_vmaddr a = 2"
  using two_instructions_one_line [of Nop Halt "\<lparr>pl_ptr = ''nop halt'', pl_value = 0, pl_line = new_line [], pl_asm = asm_init\<rparr>" 0]
  by (auto simp: asm_text_def asm_init_def)

text \<open>C6: whatever the input, \<^verbatim>\<open>assemble\<close> leaves ten code bytes on every line and at most ten of them
  used, a symbol table without duplicates, and relocations that name existing lines.\<close>

theorem assemble_well_formed:
  assumes "assemble prev content asm_init = Some (r, a)"
  shows "wf_asm a"
  using assms by (rule assemble_keeps) (simp add: wf_asm_def wf_tabs_def asm_init_def)

theorem assemble_well_formed_witness:
  "\<exists>a. assemble CR (program_text [Nop]) asm_init = Some (0, a) \<and> wf_asm a"
proof -
  obtain a where a: "assemble CR (program_text [Nop]) asm_init = Some (0, a)"
    using assemble_text [of "[Nop]" CR asm_init] by simp
  show ?thesis using a assemble_well_formed [OF a] by blast
qed

text \<open>C3: a program in canonical text goes through \<^verbatim>\<open>main\<close> to exactly its machine code, and the
  simulator's decoder reads every instruction of it back at its address.\<close>

theorem program_roundtrip:
  assumes "list_all valid_instr is" and "length (program_code is) < 2 ^ 63" and "j < length is"
    and "fopen_in name = Some (program_text is)" and "can_write (take (length name - 3) name @ ''.bin'')"
    and "3 \<le> length name" and "drop (length name - 3) name = ''.ys''" and "length name \<le> 503"
    and "\<not> head_is (\<lambda>c. c = CHR ''-'') name"
  shows "asm_main prev fopen_in can_write [name] = Some (Asm_done (program_code is) None) \<and>
    decode (program_code is) (of_nat (length (program_code (take j is)))) =
      Some (is ! j, of_nat (length (program_code (take (Suc j) is))))"
proof
  show "asm_main prev fopen_in can_write [name] = Some (Asm_done (program_code is) None)"
    using assms binfile_text [OF assms(1), of "[]"]
    by (simp add: asm_main_def asm_file_def Let_def assemble_text asm_init_def relocate_def)
  have split: "is = take j is @ is ! j # drop (Suc j) is" using assms(3) by (rule id_take_nth_drop)
  have "program_code is = program_code (take j is) @ encode (is ! j) @ program_code (drop (Suc j) is)"
    by (subst split) (simp add: program_code_def)
  moreover have "program_code (take (Suc j) is) = program_code (take j is) @ encode (is ! j)"
    using assms(3) by (simp add: program_code_def take_Suc_conv_app_nth)
  moreover have "valid_instr (is ! j)" using assms(1,3) by (simp add: list_all_length)
  ultimately show "decode (program_code is) (of_nat (length (program_code (take j is)))) =
      Some (is ! j, of_nat (length (program_code (take (Suc j) is))))"
    using decode_encode [of "is ! j" "program_code (take j is)" "program_code (drop (Suc j) is)"] assms(2)
    by simp
qed

theorem program_roundtrip_witness:
  "asm_main CR (\<lambda>_. Some (program_text [Push 0, Irmov 7 3, Halt])) (\<lambda>_. True) [''a.ys''] =
     Some (Asm_done (program_code [Push 0, Irmov 7 3, Halt]) None) \<and>
   decode (program_code [Push 0, Irmov 7 3, Halt]) 2 = Some (Irmov 7 3, 12)"
  using program_roundtrip [of "[Push 0, Irmov 7 3, Halt]" 1 "\<lambda>_. Some (program_text [Push 0, Irmov 7 3, Halt])"
      "''a.ys''" "\<lambda>_. True" CR]
  by (simp add: program_code_def REG_NONE_def head_is_def)


theorem binfile_layout_witness:
  "take 1 (drop 4 (snd (binfile [(new_line [])\<lparr>l_type := TYPE_INS, l_addr := 4, l_codes := 0x10 # replicate 9 0, l_bytes := 1\<rparr>] []))) = [0x10]"
  using binfile_layout [of "[]" "(new_line [])\<lparr>l_type := TYPE_INS, l_addr := 4, l_codes := 0x10 # replicate 9 0, l_bytes := 1\<rparr>" "[]"]
  by (simp add: wf_line_def line_pos_def)

text \<open>\<^verbatim>\<open>find_instr\<close> is longest match: it returns the table entry whose name is the longest one
  the text starts with, so no entry hides a longer one (\<^verbatim>\<open>cmovl\<close> and \<^verbatim>\<open>cmovle\<close>, \<^verbatim>\<open>jl\<close> and \<^verbatim>\<open>jle\<close>).\<close>

lemma find_instr_longest:
  "find_instr p = Some e \<longleftrightarrow> e \<in> set instr_set \<and> prefix (iname e) p \<and>
     (\<forall>d \<in> set instr_set. prefix (iname d) p \<longrightarrow> d = e \<or> length (iname d) < length (iname e))"
proof
  assume f: "find_instr p = Some e"
  then have "prefix (iname e) p" using find_instr_Some by (metis take_is_prefix)
  then show "e \<in> set instr_set \<and> prefix (iname e) p \<and>
     (\<forall>d \<in> set instr_set. prefix (iname d) p \<longrightarrow> d = e \<or> length (iname d) < length (iname e))"
    using f find_instr_Some find_instr_longest_aux by blast
next
  assume e: "e \<in> set instr_set \<and> prefix (iname e) p \<and>
     (\<forall>d \<in> set instr_set. prefix (iname d) p \<longrightarrow> d = e \<or> length (iname d) < length (iname e))"
  then have "find_instr p \<noteq> None"
    unfolding find_instr_match [symmetric] by (auto simp: find_None_iff)
  then obtain d where d: "find_instr p = Some d" by blast
  then have "d \<in> set instr_set" "prefix (iname d) p"
    using find_instr_Some by (auto intro: take_is_prefix dest: sym) (metis take_is_prefix)
  then have "d = e \<or> length (iname e) < length (iname d)" "d = e \<or> length (iname d) < length (iname e)"
    using find_instr_longest_aux [OF d, of e] e by auto
  then have "d = e" by auto
  then show "find_instr p = Some e" using d by simp
qed

lemma find_instr_longest_witness:
  "find_instr ''jle L'' = Some (mk_instr ''jle'' 3 (HPACK I_JMP C_LE) 9)"
  by (rule find_instr_longest [THEN iffD2]) (simp add: instr_set_def mk_instr_def)

text \<open>C9: a symbol keeps the address of its first definition through the rest of the file.\<close>

theorem assemble_symbols_stable:
  assumes "assemble prev content a = Some (r, a')" and "find_symbol nm (as_symtab a) = Some addr"
  shows "find_symbol nm (as_symtab a') = Some addr"
  using syms.extendsD [OF assemble_syms [OF assms(1)] assms(2)] .

theorem assemble_symbols_stable_witness:
  "\<exists>a'. assemble CR (program_text [Nop]) (asm_init\<lparr>as_symtab := [(''L'', 4)]\<rparr>) = Some (0, a') \<and>
     find_symbol ''L'' (as_symtab a') = Some 4"
proof -
  obtain a' where a: "assemble CR (program_text [Nop]) (asm_init\<lparr>as_symtab := [(''L'', 4)]\<rparr>) = Some (0, a')"
    using assemble_text [of "[Nop]" CR "asm_init\<lparr>as_symtab := [(''L'', 4)]\<rparr>"] by simp
  show ?thesis using a assemble_symbols_stable [OF a, of "''L''" 4] by simp
qed

end
