(* ===== verification/Yat.thy ===== *)
theory Yat
  imports CStdio
begin

text \<open>
  The conformance drivers of the Y64 labs, \<^verbatim>\<open>lab5/yat.c\<close> for the assembler and \<^verbatim>\<open>lab4/yat.c\<close> for the simulator:
  they run the program under test and the reference through the shell, compare what they wrote and count.
\<close>

section \<open>The shell and the counters\<close>

text \<open>\<^verbatim>\<open>system\<close> is a parameter: a command, in a world of files, gives a status and the next world.  The output is
  a list of messages; scores, which are whole numbers, are printed as \<^verbatim>\<open>double\<close>.\<close>

type_synonym 'w shell = "string \<Rightarrow> 'w \<Rightarrow> int \<times> 'w"

datatype yat_msg =
  Testing string string | Pass | Fail | Score string nat nat | YatUsage | InvalidOption string | CannotMake | WrongArguments

record 'w yat =
  world :: 'w
  ins_test :: nat
  ins_pass :: nat
  err_test :: nat
  err_pass :: nat
  app_test :: nat
  app_pass :: nat
  printed :: "yat_msg list"

type_synonym 'w yat_action = "'w yat \<Rightarrow> (int \<times> 'w yat) ub"

definition COMMAND_BUFFER_SIZE :: nat where "COMMAND_BUFFER_SIZE = 1024"

definition system :: "'w shell \<Rightarrow> string \<Rightarrow> 'w yat_action" where
  "system sh cmd y = (case sh cmd (world y) of (status, w) \<Rightarrow> Some (status, y\<lparr>world := w\<rparr>))"

text \<open>A command printed into \<^verbatim>\<open>cmdbuf\<close>, whose bound is not tested, and run.\<close>

definition run_cmd :: "'w shell \<Rightarrow> string \<Rightarrow> 'w yat_action" where
  "run_cmd sh cmd y = (if length cmd < COMMAND_BUFFER_SIZE then system sh cmd y else None)"

definition negated :: "'w yat_action \<Rightarrow> 'w yat_action" where
  "negated f y = map_option (\<lambda>(r, y). (if r = 0 then 1 else 0, y)) (f y)"

text \<open>\<^verbatim>\<open>!f() && !g() && ...\<close>\<close>

fun all_zero :: "'w yat_action list \<Rightarrow> 'w yat \<Rightarrow> (bool \<times> 'w yat) ub" where
  "all_zero [] y = Some (True, y)"
| "all_zero (f # fs) y = do { (r, y) \<leftarrow> f y; if r = 0 then all_zero fs y else Some (False, y) }"

definition yat_print :: "yat_msg \<Rightarrow> 'w yat \<Rightarrow> 'w yat" where
  "yat_print m y = y\<lparr>printed := printed y @ [m]\<rparr>"

text \<open>The part the tests share: the message, the commands, the verdict and the counter of passes.\<close>

definition verdict :: "('w yat \<Rightarrow> 'w yat) \<Rightarrow> string \<Rightarrow> string \<Rightarrow> 'w yat_action list \<Rightarrow> 'w yat \<Rightarrow> 'w yat ub" where
  "verdict count kind name fs y = do {
     (ok, y) \<leftarrow> all_zero fs (yat_print (Testing kind name) y);
     Some (if ok then yat_print Pass (count y) else yat_print Fail y)
   }"

definition pass_ins :: "'w yat \<Rightarrow> 'w yat" where "pass_ins y = y\<lparr>ins_pass := ins_pass y + 1\<rparr>"
definition pass_err :: "'w yat \<Rightarrow> 'w yat" where "pass_err y = y\<lparr>err_pass := err_pass y + 1\<rparr>"
definition pass_app :: "'w yat \<Rightarrow> 'w yat" where "pass_app y = y\<lparr>app_pass := app_pass y + 1\<rparr>"

text \<open>\<^verbatim>\<open>strstr\<close>, as a test.\<close>

fun contains :: "string \<Rightarrow> string \<Rightarrow> bool" where
  "contains p [] \<longleftrightarrow> p = []"
| "contains p (c # s) \<longleftrightarrow> take (length p) (c # s) = p \<or> contains p s"

text \<open>The loop over a table of names.\<close>

fun test_names :: "(string \<Rightarrow> 'w yat \<Rightarrow> 'w yat ub) \<Rightarrow> string list \<Rightarrow> 'w yat \<Rightarrow> 'w yat ub" where
  "test_names test [] y = Some y"
| "test_names test (n # ns) y = do { y \<leftarrow> test n y; test_names test ns y }"

section \<open>\<^verbatim>\<open>lab5/yat.c\<close>\<close>

definition make_app_stu :: "'w shell \<Rightarrow> string \<Rightarrow> 'w yat_action" where
  "make_app_stu sh name = run_cmd sh (''cd y64-app; make '' @ name @ ''.yo > /dev/null'')"

definition make_app_base :: "'w shell \<Rightarrow> string \<Rightarrow> 'w yat_action" where
  "make_app_base sh name = run_cmd sh (''cd y64-base; make '' @ name @ ''.yo > /dev/null'')"

definition diff_app :: "'w shell \<Rightarrow> string \<Rightarrow> 'w yat_action" where
  "diff_app sh name = run_cmd sh
     ((''diff y64-app/'' @ name @ ''.yo y64-base/'' @ name @ ''.yo'') @ ''; '' @
      (''diff y64-app/'' @ name @ ''.bin y64-base/'' @ name @ ''.bin''))"

definition make_err_stu :: "'w shell \<Rightarrow> string \<Rightarrow> 'w yat_action" where
  "make_err_stu sh name = negated (run_cmd sh (''./y64asm y64-err/'' @ name @ ''.ys 2> '' @ name @ ''.err''))"

definition make_err_base :: "'w shell \<Rightarrow> string \<Rightarrow> 'w yat_action" where
  "make_err_base sh name = negated (run_cmd sh (''./y64-base/y64asm-base y64-err/'' @ name @ ''.ys 2> '' @ name @ ''.err.base''))"

definition diff_err :: "'w shell \<Rightarrow> string \<Rightarrow> 'w yat_action" where
  "diff_err sh name = run_cmd sh (''diff '' @ name @ ''.err '' @ name @ ''.err.base'')"

definition make_ins_stu :: "'w shell \<Rightarrow> string \<Rightarrow> 'w yat_action" where
  "make_ins_stu sh name = run_cmd sh (''cd y64-ins; make '' @ name @ ''.yo > /dev/null'')"

definition make_ins_base :: "'w shell \<Rightarrow> string \<Rightarrow> 'w yat_action" where
  "make_ins_base sh name y = do {
     (r, y) \<leftarrow> run_cmd sh (''cd y64-ins; ../y64-base/y64asm-base -v '' @ name @ ''.ys > '' @ name @ ''.yo'') y;
     if r \<noteq> 0 then Some (1, y)
     else do {
       (_, y) \<leftarrow> run_cmd sh (''cd y64-ins; mv '' @ name @ ''.yo '' @ name @ ''.yo.base; mv '' @ name @ ''.bin '' @ name @ ''.bin.base'') y;
       Some (0, y)
     }
   }"

definition diff_ins :: "'w shell \<Rightarrow> string \<Rightarrow> 'w yat_action" where
  "diff_ins sh name = run_cmd sh
     ((''cd y64-ins; diff '' @ name @ ''.yo.base '' @ name @ ''.yo'') @ ''; '' @ (''diff '' @ name @ ''.bin.base '' @ name @ ''.bin''))"

definition test_uni :: "'w shell \<Rightarrow> string \<Rightarrow> 'w yat \<Rightarrow> 'w yat ub" where
  "test_uni sh name y =
     (if contains ''error'' name
      then verdict pass_err ''error-handling case'' name [make_err_base sh name, make_err_stu sh name, diff_err sh name]
             (y\<lparr>err_test := err_test y + 1\<rparr>)
      else verdict pass_ins ''instruction'' name [make_ins_base sh name, make_ins_stu sh name, diff_ins sh name]
             (y\<lparr>ins_test := ins_test y + 1\<rparr>))"

definition test_app :: "'w shell \<Rightarrow> string \<Rightarrow> 'w yat \<Rightarrow> 'w yat ub" where
  "test_app sh name y =
     verdict pass_app ''application'' name [make_app_base sh name, make_app_stu sh name, diff_app sh name]
       (y\<lparr>app_test := app_test y + 1\<rparr>)"

definition ins_list :: "string list" where
  "ins_list = [''halt'', ''nop'', ''rrmovq'', ''cmovle'', ''cmovl'', ''cmove'', ''cmovne'', ''cmovge'', ''cmovg'', ''irmovq'',
     ''rmmovq'', ''mrmovq'', ''addq'', ''subq'', ''andq'', ''xorq'', ''jmp'', ''jle'', ''jl'', ''je'', ''jne'', ''jge'', ''jg'',
     ''call'', ''ret'', ''pushq'', ''popq'', ''byte'', ''word'', ''long'', ''quad'', ''pos'', ''align'']"

definition uni_list :: "string list" where
  "uni_list = ins_list @ [''dup-symbol-error'', ''invalid-reg-error'', ''delim-missing-error'', ''invalid-imm-error'',
     ''invalid-mem-error'', ''invalid-dest-error'', ''unknown-symbol-error'', ''invalid-directive-error'']"

definition app_list :: "string list" where
  "app_list = [''abs-asum-cmov'', ''abs-asum-jmp'', ''asumr'', ''asum'', ''cjr'', ''j-cc'', ''poptest'', ''prog10'', ''prog1'',
     ''prog2'', ''prog3'', ''prog4'', ''prog5'', ''prog6'', ''prog7'', ''prog8'', ''prog9'', ''pushquestion'', ''pushtest'',
     ''ret-hazard'']"

definition test_all_uni :: "'w shell \<Rightarrow> 'w yat \<Rightarrow> 'w yat ub" where
  "test_all_uni sh = test_names (test_uni sh) uni_list"

definition test_all_app :: "'w shell \<Rightarrow> 'w yat \<Rightarrow> 'w yat ub" where
  "test_all_app sh = test_names (test_app sh) app_list"

definition print_result :: "'w yat \<Rightarrow> 'w yat" where
  "print_result y =
     y\<lparr>printed := printed y @
       (if ins_test y \<noteq> 0 then [Score ''instructions'' (ins_pass y) (ins_test y)] else []) @
       (if err_test y \<noteq> 0 then [Score ''error-handling cases'' (err_pass y) (err_test y)] else []) @
       (if app_test y \<noteq> 0 then [Score ''applications'' (2 * app_pass y) (2 * app_test y)] else []) @
       (if ins_test y \<noteq> 0 \<and> err_test y \<noteq> 0 \<and> app_test y \<noteq> 0
        then [Score ''total'' (ins_pass y + err_pass y + 2 * app_pass y) (ins_test y + err_test y + 2 * app_test y)] else [])\<rparr>"

fun run_all :: "'w shell \<Rightarrow> string list \<Rightarrow> 'w yat \<Rightarrow> 'w yat ub" where
  "run_all sh [] y = Some y"
| "run_all sh (c # cs) y = do { (_, y) \<leftarrow> system sh c y; run_all sh cs y }"

definition clean_up :: "'w shell \<Rightarrow> 'w yat \<Rightarrow> 'w yat ub" where
  "clean_up sh = run_all sh [''cd y64-ins; make clean > /dev/null'', ''cd y64-err; make clean > /dev/null'',
     ''cd y64-app; make clean > /dev/null'', ''cd y64-base; make clean > /dev/null'', ''rm -f *.err *.err.base'']"

definition make_y64asm :: "'w shell \<Rightarrow> 'w yat_action" where
  "make_y64asm sh = system sh ''make > /dev/null''"

text \<open>The number \<^verbatim>\<open>main\<close> gives an option; 0 is none.\<close>

definition stuff :: "string list \<Rightarrow> nat" where
  "stuff args =
     (case args of
        [] \<Rightarrow> 1
      | o1 # _ \<Rightarrow>
          if o1 = ''-h'' then 1 else if o1 = ''-s'' then 2 else if o1 = ''-S'' then 3 else if o1 = ''-a'' then 4
          else if o1 = ''-A'' then 5 else if o1 = ''-F'' then 6 else 0)"

definition yat_asm :: "'w shell \<Rightarrow> string list \<Rightarrow> 'w yat_action" where
  "yat_asm sh args y =
     (let k = stuff args in
      if k = 0 then Some (1, yat_print (InvalidOption (hd args)) y)
      else if k = 1 then Some (0, yat_print YatUsage y)
      else do {
        (r, y) \<leftarrow> make_y64asm sh y;
        if r \<noteq> 0 then Some (1, yat_print CannotMake y)
        else if (k = 2 \<or> k = 4) \<and> length args \<noteq> 2 then Some (1, yat_print WrongArguments y)
        else do {
          y \<leftarrow> if k = 2 then test_uni sh (args ! 1) y
               else if k = 4 then test_app sh (args ! 1) y
               else if k = 3 then test_all_uni sh y
               else if k = 5 then test_all_app sh y
               else do { y \<leftarrow> test_all_uni sh y; test_all_app sh y };
          y \<leftarrow> clean_up sh y;
          Some (0, print_result y)
        }
      })"

section \<open>\<^verbatim>\<open>lab4/yat.c\<close>\<close>

text \<open>The commands take a bound on the steps, 0 for none.\<close>

definition sim_make_app_stu :: "'w shell \<Rightarrow> string \<Rightarrow> int \<Rightarrow> 'w yat_action" where
  "sim_make_app_stu sh name steps = run_cmd sh
     (if steps \<noteq> 0 then ''cd y64-app-bin; ../y64sim '' @ name @ ''.bin '' @ show_int steps @ '' > '' @ name @ ''.sim''
      else ''cd y64-app-bin; ../y64sim '' @ name @ ''.bin > '' @ name @ ''.sim'')"

definition sim_base :: "string \<Rightarrow> int \<Rightarrow> string" where
  "sim_base name steps =
     (if steps \<noteq> 0
      then ''cd y64-base; ./y64asm-base '' @ name @ ''.ys; ./y64sim-base '' @ name @ ''.bin '' @ show_int steps @ '' > '' @ name @ ''.sim.base''
      else ''cd y64-base; ./y64asm-base '' @ name @ ''.ys; ./y64sim-base '' @ name @ ''.bin > '' @ name @ ''.sim.base'')"

definition sim_make_app_base :: "'w shell \<Rightarrow> string \<Rightarrow> int \<Rightarrow> 'w yat_action" where
  "sim_make_app_base sh name steps = run_cmd sh (sim_base name steps)"

definition sim_diff_app :: "'w shell \<Rightarrow> string \<Rightarrow> 'w yat_action" where
  "sim_diff_app sh name = run_cmd sh ('' diff ./y64-base/'' @ name @ ''.sim.base ./y64-app-bin/'' @ name @ ''.sim'')"

definition sim_make_ins_stu :: "'w shell \<Rightarrow> string \<Rightarrow> int \<Rightarrow> 'w yat_action" where
  "sim_make_ins_stu sh name steps = run_cmd sh
     (if steps \<noteq> 0 then ''cd y64-ins-bin; ../y64sim '' @ name @ ''.bin '' @ show_int steps @ '' > '' @ name @ ''.sim''
      else ''cd y64-ins-bin; make '' @ name @ ''.sim > /dev/null'')"

definition sim_make_ins_base :: "'w shell \<Rightarrow> string \<Rightarrow> int \<Rightarrow> 'w yat_action" where
  "sim_make_ins_base sh name steps = run_cmd sh (sim_base name steps)"

definition sim_diff_ins :: "'w shell \<Rightarrow> string \<Rightarrow> 'w yat_action" where
  "sim_diff_ins sh name = run_cmd sh ('' diff ./y64-base/'' @ name @ ''.sim.base ./y64-ins-bin/'' @ name @ ''.sim'')"

definition test_ins_bin :: "'w shell \<Rightarrow> int \<Rightarrow> string \<Rightarrow> 'w yat \<Rightarrow> 'w yat ub" where
  "test_ins_bin sh steps name y =
     verdict pass_ins ''instruction'' name [sim_make_ins_base sh name steps, sim_make_ins_stu sh name steps, sim_diff_ins sh name]
       (y\<lparr>ins_test := ins_test y + 1\<rparr>)"

definition test_app_bin :: "'w shell \<Rightarrow> int \<Rightarrow> string \<Rightarrow> 'w yat \<Rightarrow> 'w yat ub" where
  "test_app_bin sh steps name y =
     verdict pass_app ''application'' name [sim_make_app_base sh name steps, sim_make_app_stu sh name steps, sim_diff_app sh name]
       (y\<lparr>app_test := app_test y + 1\<rparr>)"

definition test_all_ins_bin :: "'w shell \<Rightarrow> 'w yat \<Rightarrow> 'w yat ub" where
  "test_all_ins_bin sh = test_names (test_ins_bin sh 0) ins_list"

definition test_all_app_bin :: "'w shell \<Rightarrow> 'w yat \<Rightarrow> 'w yat ub" where
  "test_all_app_bin sh = test_names (test_app_bin sh 0) app_list"

definition get_correct :: "'w shell \<Rightarrow> string \<Rightarrow> int \<Rightarrow> 'w yat_action" where
  "get_correct sh name steps = run_cmd sh
     (if steps \<noteq> 0 then ''cd y64-base; ./y64asm-base '' @ name @ ''.ys; ./y64sim-base '' @ name @ ''.bin '' @ show_int steps
      else ''cd y64-base; make '' @ name @ ''.sim; cat '' @ name @ ''.sim'')"

definition print_result_bin :: "'w yat \<Rightarrow> 'w yat" where
  "print_result_bin y =
     y\<lparr>printed := printed y @
       (if ins_test y \<noteq> 0 then [Score ''instructions'' (ins_pass y) (ins_test y)] else []) @
       (if app_test y \<noteq> 0 then [Score ''applications'' (2 * app_pass y) (2 * app_test y)] else []) @
       (if ins_test y \<noteq> 0 \<and> app_test y \<noteq> 0
        then [Score ''total'' (ins_pass y + 2 * app_pass y) (ins_test y + 2 * app_test y)] else [])\<rparr>"

definition clean_up_bin :: "'w shell \<Rightarrow> 'w yat \<Rightarrow> 'w yat ub" where
  "clean_up_bin sh = run_all sh [''make clean > /dev/null'', ''cd y64-ins-bin; make clean > /dev/null'',
     ''cd y64-app-bin; make clean > /dev/null'', ''cd y64-base; make clean > /dev/null'']"

definition make_y64sim :: "'w shell \<Rightarrow> 'w yat_action" where
  "make_y64sim sh = system sh ''make > /dev/null''"

definition stuff_bin :: "string list \<Rightarrow> nat" where
  "stuff_bin args = (if args \<noteq> [] \<and> hd args = ''-c'' then 7 else stuff args)"

text \<open>The name and the steps among the arguments; the inner \<^term>\<open>None\<close> is a wrong number of them.\<close>

definition steps_arg :: "string list \<Rightarrow> (string \<times> int) option ub" where
  "steps_arg args =
     (case args of
        [_, name] \<Rightarrow> Some (Some (name, 0))
      | [_, name, n] \<Rightarrow> map_option (\<lambda>steps. Some (name, steps)) (atoi n)
      | _ \<Rightarrow> Some None)"

definition yat_sim :: "'w shell \<Rightarrow> string list \<Rightarrow> 'w yat_action" where
  "yat_sim sh args y =
     (let k = stuff_bin args in
      if k = 0 then Some (1, yat_print (InvalidOption (hd args)) y)
      else if k = 1 then Some (0, yat_print YatUsage y)
      else do {
        (r, y) \<leftarrow> make_y64sim sh y;
        if r \<noteq> 0 then Some (1, yat_print CannotMake y)
        else do {
          arg \<leftarrow> if k \<in> {2, 4, 7} then steps_arg args else Some None;
          if k \<in> {2, 4} \<and> arg = None then Some (1, yat_print WrongArguments y)
          else do {
            y \<leftarrow> if k = 3 then test_all_ins_bin sh y
                 else if k = 5 then test_all_app_bin sh y
                 else if k = 6 then do { y \<leftarrow> test_all_ins_bin sh y; test_all_app_bin sh y }
                 else (case arg of
                     None \<Rightarrow> Some y
                   | Some (name, steps) \<Rightarrow>
                       if k = 2 then test_ins_bin sh steps name y
                       else if k = 4 then test_app_bin sh steps name y
                       else map_option snd (get_correct sh name steps y));
            y \<leftarrow> clean_up_bin sh y;
            Some (0, print_result_bin y)
          }
        }
      })"

section \<open>Counting\<close>

text \<open>A test of an acceptable name ends, counts itself, passes or not, and leaves everything else that is counted
  alone.\<close>

locale test_counter =
  fixes test :: "string \<Rightarrow> 'w yat \<Rightarrow> 'w yat ub" and accepts :: "string \<Rightarrow> bool"
    and tests :: "'w yat \<Rightarrow> nat" and passes :: "'w yat \<Rightarrow> nat" and others :: "'w yat \<Rightarrow> nat list"
  assumes test_law: "accepts n \<Longrightarrow> \<exists>y'. test n y = Some y' \<and> tests y' = tests y + 1 \<and> passes y \<le> passes y' \<and>
      passes y' \<le> passes y + 1 \<and> others y' = others y"
begin

lemma names_count:
  assumes "list_all accepts ns"
  shows "\<exists>y'. test_names test ns y = Some y' \<and> tests y' = tests y + length ns \<and> passes y \<le> passes y' \<and>
    passes y' \<le> passes y + length ns \<and> others y' = others y"
  using assms
proof (induction ns arbitrary: y)
  case (Cons n ns)
  obtain y1 where y1: "test n y = Some y1" "tests y1 = tests y + 1" "passes y \<le> passes y1" "passes y1 \<le> passes y + 1"
    "others y1 = others y" using Cons.prems test_law [of n y] by auto
  obtain y2 where "test_names test ns y1 = Some y2" "tests y2 = tests y1 + length ns" "passes y1 \<le> passes y2"
    "passes y2 \<le> passes y1 + length ns" "others y2 = others y1"
    using Cons.IH [of y1] Cons.prems by auto
  then show ?case using y1 by auto
qed simp

end

text \<open>A command changes nothing but the world.\<close>

definition quiet :: "'w yat_action \<Rightarrow> bool" where
  "quiet f \<longleftrightarrow> (\<forall>y. \<exists>r w. f y = Some (r, y\<lparr>world := w\<rparr>))"

lemma quietE:
  assumes "quiet f"
  obtains r w where "f y = Some (r, y\<lparr>world := w\<rparr>)"
  using assms unfolding quiet_def by blast

lemma quiet_run: "length cmd < 1024 \<Longrightarrow> quiet (run_cmd sh cmd)"
  by (auto simp: quiet_def run_cmd_def system_def COMMAND_BUFFER_SIZE_def split: prod.splits)

lemma quiet_negated:
  assumes "quiet f"
  shows "quiet (negated f)"
  unfolding quiet_def
proof
  fix y
  obtain r w where "f y = Some (r, y\<lparr>world := w\<rparr>)" by (rule quietE [OF assms])
  then show "\<exists>r w. negated f y = Some (r, y\<lparr>world := w\<rparr>)" by (intro exI [of _ "if r = 0 then 1 else 0"] exI [of _ w]) (simp add: negated_def)
qed

lemma all_zero_quiet: "list_all quiet fs \<Longrightarrow> \<exists>b w. all_zero fs y = Some (b, y\<lparr>world := w\<rparr>)"
proof (induction fs arbitrary: y)
  case (Cons f fs)
  obtain r w where f: "f y = Some (r, y\<lparr>world := w\<rparr>)" by (rule quietE [of f]) (use Cons.prems in simp)
  obtain b w' where "all_zero fs (y\<lparr>world := w\<rparr>) = Some (b, y\<lparr>world := w'\<rparr>)"
    using Cons.IH [of "y\<lparr>world := w\<rparr>"] Cons.prems by auto
  then show ?case using f by (cases "r = 0") (simp_all, blast+)
next
  case Nil
  have "y = y\<lparr>world := world y\<rparr>" by simp
  then show ?case by (metis all_zero.simps(1))
qed

lemma verdict_val:
  assumes "list_all quiet fs"
  shows "\<exists>b w. verdict count kind name fs y =
    Some (if b then yat_print Pass (count ((yat_print (Testing kind name) y)\<lparr>world := w\<rparr>))
          else yat_print Fail ((yat_print (Testing kind name) y)\<lparr>world := w\<rparr>))"
proof -
  obtain b w where "all_zero fs (yat_print (Testing kind name) y) = Some (b, (yat_print (Testing kind name) y)\<lparr>world := w\<rparr>)"
    using all_zero_quiet [OF assms] by blast
  then show ?thesis by (intro exI [of _ b] exI [of _ w]) (simp add: verdict_def)
qed

lemma quiet_ins_base:
  assumes "length name \<le> 200"
  shows "quiet (make_ins_base sh name)"
proof -
  let ?c1 = "''cd y64-ins; ../y64-base/y64asm-base -v '' @ name @ ''.ys > '' @ name @ ''.yo''"
  let ?c2 = "''cd y64-ins; mv '' @ name @ ''.yo '' @ name @ ''.yo.base; mv '' @ name @ ''.bin '' @ name @ ''.bin.base''"
  have q: "quiet (run_cmd sh ?c1)" "quiet (run_cmd sh ?c2)" using assms by (auto intro!: quiet_run)
  show ?thesis unfolding quiet_def
  proof
    fix y
    obtain r w where c1: "run_cmd sh ?c1 y = Some (r, y\<lparr>world := w\<rparr>)" by (rule quietE [OF q(1)])
    obtain r2 w2 where "run_cmd sh ?c2 (y\<lparr>world := w\<rparr>) = Some (r2, y\<lparr>world := w\<rparr>\<lparr>world := w2\<rparr>)" by (rule quietE [OF q(2)])
    then show "\<exists>r w. make_ins_base sh name y = Some (r, y\<lparr>world := w\<rparr>)"
      using c1 unfolding make_ins_base_def by (cases "r = 0") (simp_all, blast+)
  qed
qed

lemmas yat_commands = make_app_stu_def make_app_base_def diff_app_def make_err_stu_def make_err_base_def diff_err_def
  make_ins_stu_def diff_ins_def sim_make_app_stu_def sim_make_app_base_def sim_diff_app_def sim_make_ins_stu_def
  sim_make_ins_base_def sim_diff_ins_def sim_base_def

lemma quiet_uni:
  assumes "length name \<le> 200"
  shows "list_all quiet [make_err_base sh name, make_err_stu sh name, diff_err sh name]"
    and "list_all quiet [make_ins_base sh name, make_ins_stu sh name, diff_ins sh name]"
    and "list_all quiet [make_app_base sh name, make_app_stu sh name, diff_app sh name]"
    and "list_all quiet [sim_make_ins_base sh name 0, sim_make_ins_stu sh name 0, sim_diff_ins sh name]"
    and "list_all quiet [sim_make_app_base sh name 0, sim_make_app_stu sh name 0, sim_diff_app sh name]"
  using assms by (auto simp: yat_commands intro!: quiet_run quiet_negated quiet_ins_base)

lemmas count_simps = yat_print_def pass_ins_def pass_err_def pass_app_def

abbreviation (input) "short n \<equiv> length n \<le> 200"

interpretation asm_ins: test_counter "test_uni sh" "\<lambda>n. short n \<and> \<not> contains ''error'' n" ins_test ins_pass
    "\<lambda>y. [err_test y, err_pass y, app_test y, app_pass y]" for sh
proof (unfold_locales, goal_cases)
  case (1 n y)
  then have "short n" by simp
  from verdict_val [OF quiet_uni(2) [OF this], of pass_ins "''instruction''" n sh "y\<lparr>ins_test := ins_test y + 1\<rparr>"] 1
  show ?case by (auto simp: test_uni_def count_simps)
qed

interpretation asm_err: test_counter "test_uni sh" "\<lambda>n. short n \<and> contains ''error'' n" err_test err_pass
    "\<lambda>y. [ins_test y, ins_pass y, app_test y, app_pass y]" for sh
proof (unfold_locales, goal_cases)
  case (1 n y)
  then have "short n" by simp
  from verdict_val [OF quiet_uni(1) [OF this], of pass_err "''error-handling case''" n sh "y\<lparr>err_test := err_test y + 1\<rparr>"] 1
  show ?case by (auto simp: test_uni_def count_simps)
qed

interpretation asm_app: test_counter "test_app sh" "\<lambda>n. short n" app_test app_pass
    "\<lambda>y. [ins_test y, ins_pass y, err_test y, err_pass y]" for sh
proof (unfold_locales, goal_cases)
  case (1 n y)
  then have "short n" by simp
  from verdict_val [OF quiet_uni(3) [OF this], of pass_app "''application''" n sh "y\<lparr>app_test := app_test y + 1\<rparr>"] 1
  show ?case by (auto simp: test_app_def count_simps)
qed

interpretation sim_ins: test_counter "test_ins_bin sh 0" "\<lambda>n. short n" ins_test ins_pass
    "\<lambda>y. [err_test y, err_pass y, app_test y, app_pass y]" for sh
proof (unfold_locales, goal_cases)
  case (1 n y)
  then have "short n" by simp
  from verdict_val [OF quiet_uni(4) [OF this], of pass_ins "''instruction''" n sh "y\<lparr>ins_test := ins_test y + 1\<rparr>"] 1
  show ?case by (auto simp: test_ins_bin_def count_simps)
qed

interpretation sim_app: test_counter "test_app_bin sh 0" "\<lambda>n. short n" app_test app_pass
    "\<lambda>y. [ins_test y, ins_pass y, err_test y, err_pass y]" for sh
proof (unfold_locales, goal_cases)
  case (1 n y)
  then have "short n" by simp
  from verdict_val [OF quiet_uni(5) [OF this], of pass_app "''application''" n sh "y\<lparr>app_test := app_test y + 1\<rparr>"] 1
  show ?case by (auto simp: test_app_bin_def count_simps)
qed

section \<open>Whole runs\<close>

definition yat0 :: "'w \<Rightarrow> 'w yat" where
  "yat0 w = \<lparr>world = w, ins_test = 0, ins_pass = 0, err_test = 0, err_pass = 0, app_test = 0, app_pass = 0, printed = []\<rparr>"

definition err_list :: "string list" where
  "err_list = drop 33 uni_list"

lemma test_names_append: "test_names test (ms @ ns) y = do { y \<leftarrow> test_names test ms y; test_names test ns y }"
  by (induction ms arbitrary: y) (auto split: Option.bind_splits)

lemma system_val: "system sh c y = Some (fst (sh c (world y)), y\<lparr>world := snd (sh c (world y))\<rparr>)"
  by (simp add: system_def split: prod.splits)

lemma make_val: "system sh c (yat0 w) = Some (fst (sh c w), yat0 (snd (sh c w)))"
  by (simp add: system_val yat0_def)

lemma run_all_world: "\<exists>w. run_all sh cs y = Some (y\<lparr>world := w\<rparr>)"
proof (induction cs arbitrary: y)
  case (Cons c cs)
  obtain r w where "system sh c y = Some (r, y\<lparr>world := w\<rparr>)" by (simp add: system_val)
  moreover obtain w' where "run_all sh cs (y\<lparr>world := w\<rparr>) = Some (y\<lparr>world := w'\<rparr>)" using Cons.IH [of "y\<lparr>world := w\<rparr>"] by auto
  ultimately show ?case by (simp, blast)
next
  case Nil
  have "y = y\<lparr>world := world y\<rparr>" by simp
  then show ?case by (metis run_all.simps(1))
qed

lemma clean_world: "\<exists>w. clean_up sh y = Some (y\<lparr>world := w\<rparr>)" "\<exists>w. clean_up_bin sh y = Some (y\<lparr>world := w\<rparr>)"
  by (simp_all only: clean_up_def clean_up_bin_def run_all_world)

lemma name_tables:
  "list_all (\<lambda>n. short n \<and> \<not> contains ''error'' n) ins_list \<and> length ins_list = 33 \<and>
   list_all (\<lambda>n. short n \<and> contains ''error'' n) err_list \<and> length err_list = 8 \<and> uni_list = ins_list @ err_list \<and>
   list_all (\<lambda>n. short n) app_list \<and> length app_list = 20"
  by (simp add: ins_list_def err_list_def uni_list_def app_list_def)

text \<open>With \<^verbatim>\<open>-F\<close>, when \<^verbatim>\<open>make\<close> succeeds, the drivers end, whatever the commands do, and report a score out of the
  same total: 33 instructions, 8 error cases and 20 programs of two points, or without the error cases.\<close>

lemma yat_asm_full:
  assumes "fst (sh ''make > /dev/null'' w) = 0"
  shows "\<exists>y. yat_asm sh [''-F''] (yat0 w) = Some (0, y) \<and>
    last (printed y) = Score ''total'' (ins_pass y + err_pass y + 2 * app_pass y) 81 \<and>
    ins_pass y \<le> 33 \<and> err_pass y \<le> 8 \<and> app_pass y \<le> 20"
proof -
  note tab = name_tables
  have uni: "uni_list = ins_list @ err_list" using tab by blast
  obtain w' where mk: "make_y64asm sh (yat0 w) = Some (0, yat0 w')"
    using assms by (simp add: make_y64asm_def make_val)
  obtain y1 where y1: "test_names (test_uni sh) ins_list (yat0 w') = Some y1" "ins_test y1 = 33" "ins_pass y1 \<le> 33"
    "err_test y1 = 0" "err_pass y1 = 0" "app_test y1 = 0" "app_pass y1 = 0"
    using asm_ins.names_count [of ins_list sh "yat0 w'"] tab by (auto simp: yat0_def)
  obtain y2 where y2: "test_names (test_uni sh) err_list y1 = Some y2" "err_test y2 = 8" "err_pass y2 \<le> 8"
    "ins_test y2 = 33" "ins_pass y2 \<le> 33" "app_test y2 = 0" "app_pass y2 = 0"
    using asm_err.names_count [of err_list sh y1] tab y1 by auto
  obtain y3 where y3: "test_names (test_app sh) app_list y2 = Some y3" "app_test y3 = 20" "app_pass y3 \<le> 20"
    "ins_test y3 = 33" "ins_pass y3 \<le> 33" "err_test y3 = 8" "err_pass y3 \<le> 8"
    using asm_app.names_count [of app_list sh y2] tab y2 by auto
  obtain w3 where "clean_up sh y3 = Some (y3\<lparr>world := w3\<rparr>)" using clean_world(1) [of sh y3] by blast
  then have "yat_asm sh [''-F''] (yat0 w) = Some (0, print_result (y3\<lparr>world := w3\<rparr>))"
    using mk y1(1) y2(1) y3(1)
    by (simp add: yat_asm_def stuff_def test_all_uni_def test_all_app_def uni test_names_append)
  then show ?thesis using y3 by (simp add: print_result_def)
qed

lemma yat_sim_full:
  assumes "fst (sh ''make > /dev/null'' w) = 0"
  shows "\<exists>y. yat_sim sh [''-F''] (yat0 w) = Some (0, y) \<and>
    last (printed y) = Score ''total'' (ins_pass y + 2 * app_pass y) 73 \<and> ins_pass y \<le> 33 \<and> app_pass y \<le> 20"
proof -
  note tab = name_tables
  have short: "list_all (\<lambda>n. short n) ins_list" using tab by (auto simp: list_all_iff)
  obtain w' where mk: "make_y64sim sh (yat0 w) = Some (0, yat0 w')"
    using assms by (simp add: make_y64sim_def make_val)
  obtain y1 where y1: "test_names (test_ins_bin sh 0) ins_list (yat0 w') = Some y1" "ins_test y1 = 33" "ins_pass y1 \<le> 33"
    "app_test y1 = 0" "app_pass y1 = 0"
    using sim_ins.names_count [OF short, of sh "yat0 w'"] tab by (auto simp: yat0_def)
  obtain y2 where y2: "test_names (test_app_bin sh 0) app_list y1 = Some y2" "app_test y2 = 20" "app_pass y2 \<le> 20"
    "ins_test y2 = 33" "ins_pass y2 \<le> 33"
    using sim_app.names_count [of app_list sh y1] tab y1 by auto
  obtain w2 where "clean_up_bin sh y2 = Some (y2\<lparr>world := w2\<rparr>)" using clean_world(2) [of sh y2] by blast
  then have "yat_sim sh [''-F''] (yat0 w) = Some (0, print_result_bin (y2\<lparr>world := w2\<rparr>))"
    using mk y1(1) y2(1)
    by (simp add: yat_sim_def stuff_bin_def stuff_def test_all_ins_bin_def test_all_app_bin_def)
  then show ?thesis using y2 by (simp add: print_result_bin_def)
qed

text \<open>A shell runs both commands of a list and returns the status of the second, so the comparison of the listings
  decides nothing: only the one of the binaries counts.\<close>

lemma diff_app_ignores_listing:
  assumes "\<And>a b w. sh (a @ ''; '' @ b) w = sh b (snd (sh a w))" and "length name \<le> 200"
  shows "map_option fst (diff_app sh name y) =
    Some (fst (sh (''diff y64-app/'' @ name @ ''.bin y64-base/'' @ name @ ''.bin'')
      (snd (sh (''diff y64-app/'' @ name @ ''.yo y64-base/'' @ name @ ''.yo'') (world y)))))"
proof -
  let ?a = "''diff y64-app/'' @ name @ ''.yo y64-base/'' @ name @ ''.yo''"
  let ?b = "''diff y64-app/'' @ name @ ''.bin y64-base/'' @ name @ ''.bin''"
  have "length (?a @ ''; '' @ ?b) < COMMAND_BUFFER_SIZE" using assms(2) by (simp add: COMMAND_BUFFER_SIZE_def)
  then have "diff_app sh name y = system sh (?a @ ''; '' @ ?b) y" by (simp only: diff_app_def run_cmd_def if_True)
  then show ?thesis unfolding system_def assms(1) [of ?a ?b] by (simp split: prod.splits)
qed

text \<open>A name of a thousand characters on the command line overflows the command buffer.\<close>

lemma long_name_overflows:
  assumes "fst (sh ''make > /dev/null'' w) = 0" and "1000 \<le> length name"
  shows "yat_asm sh [''-a'', name] (yat0 w) = None"
proof -
  obtain w' where mk: "make_y64asm sh (yat0 w) = Some (0, yat0 w')"
    using assms(1) by (simp add: make_y64asm_def make_val)
  have "make_app_base sh name y = None" for y
    using assms(2) by (simp add: make_app_base_def run_cmd_def COMMAND_BUFFER_SIZE_def)
  then show ?thesis using mk by (simp add: yat_asm_def stuff_def test_app_def verdict_def)
qed

end
