(* ===== verification/Bits.thy ===== *)
theory Bits
  imports Prelude "HOL-Library.Signed_Division"
begin

unbundle bit_operations_syntax

text \<open>
  The bit puzzles of \<^verbatim>\<open>lab1/bits.c\<close> and their reference functions of \<^verbatim>\<open>lab1/tests.c\<close>, on 32-bit
  words.  As the lab's rules say, integers are two's complement and wrap, right shifts of an \<^verbatim>\<open>int\<close>
  are arithmetic, and a shift by 32 or more is unpredictable: no result below depends on one.
\<close>

section \<open>C operators on \<^verbatim>\<open>int\<close>\<close>

definition shl :: "i32 \<Rightarrow> i32 \<Rightarrow> i32" where
  "shl x n = push_bit (unat n) x"

definition sar :: "i32 \<Rightarrow> i32 \<Rightarrow> i32" where
  "sar x n = signed_drop_bit (unat n) x"

definition lnot :: "i32 \<Rightarrow> i32" where
  "lnot x = (if x = 0 then 1 else 0)"

section \<open>\<^verbatim>\<open>bits.c\<close>\<close>

definition bang :: "i32 \<Rightarrow> i32" where
  "bang x = (let a = sar (x OR (NOT x + 1)) 31 in a + 1)"

text \<open>The count shared by \<^verbatim>\<open>bitCount\<close> and \<^verbatim>\<open>isPower2\<close>, which repeat the same lines.\<close>

definition count_ones :: "i32 \<Rightarrow> i32" where
  "count_ones x =
     (let m1 = 0x11 OR shl 0x11 8;
          mask = m1 OR shl m1 16;
          s = x AND mask;
          s = s + (sar x 1 AND mask);
          s = s + (sar x 2 AND mask);
          s = s + (sar x 3 AND mask);
          s = s + sar s 16;
          mask = 0xF OR shl 0xF 8;
          s = (s AND mask) + (sar s 4 AND mask)
      in (s + sar s 8) AND 0x3F)"

definition bitCount :: "i32 \<Rightarrow> i32" where
  "bitCount x = count_ones x"

definition copyLSB :: "i32 \<Rightarrow> i32" where
  "copyLSB x = sar (shl x 31) 31"

definition divpwr2 :: "i32 \<Rightarrow> i32 \<Rightarrow> i32" where
  "divpwr2 x n =
     (let x1 = sar x n;
          x2 = NOT (sar (NOT x + 1) n) + 1;
          a = sar (NOT x + 1) 31
      in (a AND x1) + (NOT a AND x2))"

definition evenBits :: i32 where
  "evenBits = (let a = 0x55; a = a OR shl a 8; a = a OR shl a 16 in a)"

definition fitsBits :: "i32 \<Rightarrow> i32 \<Rightarrow> i32" where
  "fitsBits x n = (let a = sar x (n + NOT 1 + 1); i = sar x 31 in lnot (a XOR i))"

definition getByte :: "i32 \<Rightarrow> i32 \<Rightarrow> i32" where
  "getByte x n = (let n = shl n 3; x = sar x n in x AND 0xFF)"

definition isGreater :: "i32 \<Rightarrow> i32 \<Rightarrow> i32" where
  "isGreater x y =
     (let a = NOT (shl 1 31);
          b = x AND a; c = y AND a;
          d = sar x 31;
          e = d XOR sar y 31;
          f = b + NOT c + 1;
          g = sar f 31;
          h = sar (shl (lnot f) 31) 31
      in lnot (lnot (NOT (e OR g OR h) OR (e AND NOT d))))"

definition isNonNegative :: "i32 \<Rightarrow> i32" where
  "isNonNegative x = lnot (sar x 31)"

definition isNotEqual :: "i32 \<Rightarrow> i32 \<Rightarrow> i32" where
  "isNotEqual x y = lnot (lnot (x XOR y))"

definition isPower2 :: "i32 \<Rightarrow> i32" where
  "isPower2 x = (let s = count_ones x in lnot (lnot (shl x 1)) AND lnot (s + NOT 1 + 1))"

definition leastBitPos :: "i32 \<Rightarrow> i32" where
  "leastBitPos x = (NOT x + 1) AND x"

definition logicalShift :: "i32 \<Rightarrow> i32 \<Rightarrow> i32" where
  "logicalShift x n = (let a = shl (NOT 0) (33 + NOT n); x = sar x n in NOT (NOT x OR a))"

definition satAdd :: "i32 \<Rightarrow> i32 \<Rightarrow> i32" where
  "satAdd x y =
     (let a = NOT (shl 1 31);
          x1 = sar (x AND NOT a) 31;
          y1 = sar (y AND NOT a) 31;
          s1 = sar ((x + y) AND NOT a) 31;
          m1 = x1 AND y1 AND NOT s1;
          m2 = NOT x1 AND NOT y1 AND s1
      in (m1 AND NOT a) + (m2 AND a) + (NOT (m1 OR m2) AND (x + y)))"

definition tc2sm :: "i32 \<Rightarrow> i32" where
  "tc2sm x =
     (let sign = shl 1 31 AND x;
          i = sar sign 31;
          mag = (i AND (NOT x + 1)) + (NOT i AND x)
      in sign OR mag)"

section \<open>\<^verbatim>\<open>tests.c\<close>\<close>

definition of_flag :: "bool \<Rightarrow> i32" where
  "of_flag b = (if b then 1 else 0)"

definition test_bang :: "i32 \<Rightarrow> i32" where
  "test_bang x = lnot x"

definition test_bitCount :: "i32 \<Rightarrow> i32" where
  "test_bitCount x = foldl (\<lambda>result i. result + (sar x (of_nat i) AND 1)) 0 [0..<32]"

definition test_copyLSB :: "i32 \<Rightarrow> i32" where
  "test_copyLSB x = (if x AND 1 \<noteq> 0 then - 1 else 0)"

definition test_divpwr2 :: "i32 \<Rightarrow> i32 \<Rightarrow> i32" where
  "test_divpwr2 x n = (let p2n = shl 1 n in word_of_int (sint x sdiv sint p2n))"

definition test_evenBits :: i32 where
  "test_evenBits = foldl (\<lambda>result i. result OR shl 1 (of_nat (2 * i))) 0 [0..<16]"

definition test_fitsBits :: "i32 \<Rightarrow> i32 \<Rightarrow> i32" where
  "test_fitsBits x n =
     (let TMin_n = - shl 1 (n - 1); TMax_n = shl 1 (n - 1) - 1
      in of_flag (TMin_n \<le>s x \<and> x \<le>s TMax_n))"

text \<open>The bytes of the union on a little-endian machine, where \<^verbatim>\<open>*(char *)&test\<close> is 1.\<close>

definition test_getByte :: "i32 \<Rightarrow> i32 \<Rightarrow> i32" where
  "test_getByte x n = ucast (ucast (drop_bit (8 * unat n) x) :: byte)"

definition test_isGreater :: "i32 \<Rightarrow> i32 \<Rightarrow> i32" where
  "test_isGreater x y = of_flag (y <s x)"

definition test_isNonNegative :: "i32 \<Rightarrow> i32" where
  "test_isNonNegative x = of_flag (0 \<le>s x)"

definition test_isNotEqual :: "i32 \<Rightarrow> i32 \<Rightarrow> i32" where
  "test_isNotEqual x y = of_flag (x \<noteq> y)"

definition test_isPower2 :: "i32 \<Rightarrow> i32" where
  "test_isPower2 x = of_flag (list_ex (\<lambda>i. x = shl 1 (of_nat i)) [0..<31])"

text \<open>\<^verbatim>\<open>while (!(mask & x)) mask = mask << 1\<close>, which stops within 32 turns on a nonzero word.\<close>

fun least_mask :: "nat \<Rightarrow> i32 \<Rightarrow> i32 \<Rightarrow> i32" where
  "least_mask 0 m x = m"
| "least_mask (Suc n) m x = (if m AND x \<noteq> 0 then m else least_mask n (shl m 1) x)"

definition test_leastBitPos :: "i32 \<Rightarrow> i32" where
  "test_leastBitPos x = (if x = 0 then 0 else least_mask 32 1 x)"

definition test_logicalShift :: "i32 \<Rightarrow> i32 \<Rightarrow> i32" where
  "test_logicalShift x n = drop_bit (unat n) x"

text \<open>\<^verbatim>\<open>LONG_MAX\<close> and \<^verbatim>\<open>LONG_MIN\<close> of the 32-bit build (\<^verbatim>\<open>-m32\<close>).\<close>

definition test_satAdd :: "i32 \<Rightarrow> i32 \<Rightarrow> i32" where
  "test_satAdd x y =
     (if 0 <s x \<and> 0 <s y \<and> x + y <s 0 then 0x7FFFFFFF
      else if x <s 0 \<and> y <s 0 \<and> 0 \<le>s x + y then 0x80000000
      else x + y)"

definition test_tc2sm :: "i32 \<Rightarrow> i32" where
  "test_tc2sm x =
     (let sign = of_flag (x <s 0); mag = (if x <s 0 then - x else x) in shl sign 31 OR mag)"

section \<open>Sign masks\<close>

lemma shl_lit [simp]: "shl x 1 = push_bit 1 x" "shl x 3 = push_bit 3 x"
  by (simp_all add: shl_def)

text \<open>The sign bit alone, and all bits but it.\<close>

definition TOP :: i32 where "TOP = push_bit 31 1"
definition LOW31 :: i32 where "LOW31 = mask 31"

lemma bit_TOP [simp]: "bit TOP n \<longleftrightarrow> n = 31"
  unfolding TOP_def by (simp only: bit_push_bit_iff bit_1_iff) auto

lemma bit_LOW31 [simp]: "bit LOW31 n \<longleftrightarrow> n < 31"
  unfolding LOW31_def by (auto simp: bit_mask_iff)

lemma shl_31 [simp]: "shl x 31 = (if bit x 0 then TOP else 0)"
  by (rule bit_word_eqI) (auto simp: shl_def bit_push_bit_iff not_less_eq_eq)

lemma NOT_TOP [simp]: "NOT TOP = LOW31" "NOT LOW31 = TOP"
  by (rule bit_word_eqI, auto simp: bit_not_iff)+

lemma AND_TOP [simp]: "x AND TOP = (if bit x 31 then TOP else 0)" "TOP AND x = (if bit x 31 then TOP else 0)"
  by (rule bit_word_eqI, auto simp: bit_and_iff)+

lemma AND_LOW31 [simp]: "x AND LOW31 = take_bit 31 x"
  by (simp add: LOW31_def take_bit_eq_mask)

lemma sar_31: "sar x 31 = (if bit x 31 then - 1 else 0)"
  by (rule bit_word_eqI) (auto simp: sar_def bit_signed_drop_bit_iff not_less_eq_eq)

lemma neg_eq: "NOT (x :: i32) + 1 = - x"
  by (simp add: minus_eq_not_plus_1)

lemma sint_neg_bit: "bit (x :: i32) 31 \<longleftrightarrow> sint x < 0"
  using bit_last_iff [of x] by simp

lemma sless_0 [simp]: "x <s (0 :: i32) \<longleftrightarrow> bit x 31" "(0 :: i32) \<le>s x \<longleftrightarrow> \<not> bit x 31"
  by (auto simp: word_sless_alt word_sle_eq sint_neg_bit not_less)

lemma sint_range: "- (2 ^ 31) \<le> sint (x :: i32)" "sint (x :: i32) < 2 ^ 31"
  using sint_ge [of x] sint_lt [of x] by simp_all

lemma sint_minus: "sint (x :: i32) \<noteq> - (2 ^ 31) \<Longrightarrow> sint (- x) = - sint x"
  using sint_range [of x] by (simp add: sint_word_ariths(4) signed_take_bit_int_eq_self)

lemma of_int_sint_32: "word_of_int (sint x) = (x :: i32)"
  by (simp flip: scast_eq)

lemma sint_eq_32: "sint (x :: i32) = sint y \<longleftrightarrow> x = y"
  by (metis of_int_sint_32)

lemma Tmin_minus: "sint (x :: i32) = - (2 ^ 31) \<Longrightarrow> - x = x"
proof -
  assume s: "sint x = - (2 ^ 31)"
  have "x = word_of_int (sint x)" by (simp add: of_int_sint_32)
  also have "\<dots> = word_of_int (- (2 ^ 31))" by (simp only: s)
  finally show ?thesis by simp
qed

lemma bang_ok: "bang x = test_bang x"
proof (cases "x = 0")
  case False
  have "bit x 31 \<or> bit (- x) 31"
  proof (cases "sint x = - (2 ^ 31)")
    case True
    then show ?thesis by (simp add: sint_neg_bit)
  next
    case F: False
    have "sint x \<noteq> 0" using False by (simp add: signed_eq_0_iff)
    then show ?thesis using sint_minus [OF F] by (auto simp: sint_neg_bit)
  qed
  then show ?thesis using False
    by (simp add: bang_def test_bang_def lnot_def neg_eq sar_31 bit_or_iff)
qed (simp add: bang_def test_bang_def lnot_def sar_def)

lemma and_1: "x AND 1 = (if bit x 0 then 1 else 0)" for x :: i32
  by (simp add: and_one_eq bit_0 odd_iff_mod_2_eq_one)

lemma copyLSB_ok: "copyLSB x = test_copyLSB x"
  by (simp add: copyLSB_def test_copyLSB_def sar_31 and_1)

lemma sar_sint: "n < 32 \<Longrightarrow> sint (signed_drop_bit n (x :: i32)) = sint x div 2 ^ n"
  by (simp add: sint_signed_drop_bit_eq drop_bit_eq_div)

lemma unat_32: "unat (n :: i32) = nat (uint n)"
  by simp

lemma sdiv_pow: "(a :: int) sdiv 2 ^ n = (if a < 0 then - (- a div 2 ^ n) else a div 2 ^ n)"
  by (simp add: signed_divide_int_def sgn_if)

lemma sint_shl_1: "n < 31 \<Longrightarrow> sint (push_bit n 1 :: i32) = 2 ^ n"
proof -
  assume n: "n < 31"
  have "(push_bit n 1 :: i32) = word_of_int (2 ^ n)" by (simp add: push_bit_eq_mult)
  moreover have "(2 :: int) ^ n < 2 ^ 31" using n by (rule power_strict_increasing) simp
  moreover have "- (2 ^ 31) \<le> (2 :: int) ^ n" by (rule order_trans [of _ 0]) simp_all
  ultimately show ?thesis by (simp only: sint_sbintrunc') (simp add: signed_take_bit_int_eq_self)
qed

lemma Tmin_div: "n \<le> 31 \<Longrightarrow> - (2 ^ 31) div 2 ^ n = - (2 ^ 31 div 2 ^ n :: int)"
  by (rule dvd_neg_div) (rule le_imp_power_dvd)

lemma divpwr2_spec:
  assumes "unat n < 31"
  shows "sint (divpwr2 x n) = sint x sdiv 2 ^ unat n"
proof (cases "bit (- x) 31")
  case True
  then have val: "sint (divpwr2 x n) = sint x div 2 ^ unat n"
    using assms by (simp add: divpwr2_def Let_def neg_eq sar_31) (simp add: sar_def sar_sint)
  show ?thesis
  proof (cases "sint x = - (2 ^ 31)")
    case True
    then show ?thesis using val assms Tmin_div [of "unat n"] by (simp only: sdiv_pow) simp
  next
    case False
    then have "0 < sint x" using \<open>bit (- x) 31\<close> sint_minus [of x] by (simp add: sint_neg_bit)
    then show ?thesis using val by (simp add: sdiv_pow)
  qed
next
  case False
  then have nT: "sint x \<noteq> - (2 ^ 31)"
    using Tmin_minus [of x] by (metis neg_less_0_iff_less sint_neg_bit zero_less_numeral zero_less_power)
  with False have neg: "sint x \<le> 0" "sint (- x) = - sint x"
    using sint_minus [of x] by (simp_all add: sint_neg_bit)
  have q: "sint (signed_drop_bit (unat n) (- x)) = - sint x div 2 ^ unat n"
    using assms neg by (simp add: sar_sint)
  have "0 \<le> - sint x div 2 ^ unat n" using neg by (simp add: pos_imp_zdiv_nonneg_iff)
  then have "sint (- signed_drop_bit (unat n) (- x)) = - (- sint x div 2 ^ unat n)"
    using q by (subst sint_minus) auto
  moreover have "divpwr2 x n = - signed_drop_bit (unat n) (- x)"
    using False by (simp add: divpwr2_def Let_def neg_eq sar_31) (simp add: sar_def)
  ultimately show ?thesis using neg by (cases "sint x = 0") (simp_all add: sdiv_pow)
qed

lemma sint_pow: "n < 31 \<Longrightarrow> sint (2 ^ n :: i32) = 2 ^ n"
  using sint_shl_1 [of n] by (simp add: push_bit_eq_mult)

lemma divpwr2_ok: "unat n < 31 \<Longrightarrow> divpwr2 x n = test_divpwr2 x n"
  using divpwr2_spec [of n x] of_int_sint_32 [of "divpwr2 x n"]
  by (simp add: test_divpwr2_def shl_def sint_pow)

lemma evenBits_ok: "evenBits = test_evenBits"
  by (simp add: evenBits_def test_evenBits_def shl_def upt_rec)

lemma div_eq_0: "0 < b \<Longrightarrow> a div b = 0 \<longleftrightarrow> 0 \<le> a \<and> a < (b :: int)"
  by (auto simp: div_eq_0_iff zdiv_eq_0_iff)

lemma div_eq_m1: "0 < b \<Longrightarrow> a div b = - 1 \<longleftrightarrow> - b \<le> a \<and> a < (0 :: int)"
proof -
  assume "0 < b"
  then have "(a + b) div b = a div b + 1" by (intro div_add_self2) simp
  then show ?thesis using div_eq_0 [OF \<open>0 < b\<close>, of "a + b"] by linarith
qed

lemma signed_fits:
  fixes x :: i32
  assumes "m < 32"
  shows "signed_drop_bit m x = signed_drop_bit 31 x \<longleftrightarrow> - (2 ^ m) \<le> sint x \<and> sint x < 2 ^ m"
proof -
  have "signed_drop_bit m x = signed_drop_bit 31 x \<longleftrightarrow> sint x div 2 ^ m = sint x div 2 ^ 31"
    unfolding sint_eq_32 [symmetric] using assms by (simp add: sar_sint)
  also have "sint x div 2 ^ 31 = (if sint x < 0 then - 1 else 0)"
    using sint_range [of x] by (auto simp: div_eq_0 div_eq_m1)
  also have "sint x div 2 ^ m = (if sint x < 0 then - 1 else 0) \<longleftrightarrow> - (2 ^ m) \<le> sint x \<and> sint x < 2 ^ m"
  proof (cases "sint x < 0")
    case True
    moreover from this have "sint x < 2 ^ m" by (rule less_le_trans) simp
    ultimately show ?thesis by (simp add: div_eq_m1)
  next
    case False
    have "- (2 ^ m) \<le> sint x" by (rule order_trans [of _ 0]) (use False in simp_all)
    with False show ?thesis by (simp add: div_eq_0)
  qed
  finally show ?thesis .
qed

lemma xor_zero: "a XOR b = 0 \<longleftrightarrow> a = b" for a b :: i32
proof
  assume "a XOR b = 0"
  then have "(a XOR b) XOR b = b" by simp
  then show "a = b" by (simp add: xor.assoc)
qed simp

lemma fitsBits_ok:
  assumes "1 \<le> unat n" and "unat n \<le> 32"
  shows "fitsBits x n = test_fitsBits x n"
proof -
  obtain m where m: "n = of_nat (Suc m)" "m < 32"
    using assms by (intro that [of "unat n - 1"]) auto
  have n1: "n + NOT 1 + 1 = of_nat m" "n - 1 = of_nat m" by (simp_all add: m not_eq_complement)
  have um: "unat (of_nat m :: i32) = m" using m(2) by (simp add: unat_of_nat take_bit_nat_eq_self_iff)
  have fits: "fitsBits x n = of_flag (- (2 ^ m) \<le> sint x \<and> sint x < 2 ^ m)"
    using signed_fits [OF m(2), of x]
    by (simp add: fitsBits_def n1 sar_def um lnot_def of_flag_def xor_zero)
  show ?thesis
  proof (cases "m = 31")
    case True
    then show ?thesis using sint_range [of x]
      by (simp add: fits test_fitsBits_def n1 shl_def um word_sle_eq)
  next
    case False
    then have "m < 31" using m(2) by simp
    have "(2 :: int) ^ m \<noteq> - (2 ^ 31)" by (metis neg_less_0_iff_less not_less_iff_gr_or_eq zero_less_numeral zero_less_power)
    then have p: "sint (push_bit m 1 :: i32) = 2 ^ m" "sint (- push_bit m 1 :: i32) = - (2 ^ m)"
      using sint_minus [of "push_bit m 1", unfolded sint_shl_1 [OF \<open>m < 31\<close>]] sint_shl_1 [OF \<open>m < 31\<close>] by blast+
    have "(2 :: int) ^ m \<le> 2 ^ 31" using \<open>m < 31\<close> by (intro power_increasing) simp_all
    moreover have "(1 :: int) \<le> 2 ^ m" by simp
    moreover have "- (2 ^ 31) < (2 :: int) ^ m" by (rule less_le_trans [of _ 1]) simp_all
    moreover have "(push_bit m 1 - 1 :: i32) = word_of_int (2 ^ m - 1)" by (simp add: push_bit_eq_mult)
    ultimately have "sint (push_bit m 1 - 1 :: i32) = 2 ^ m - 1"
      by (simp only: sint_sbintrunc') (rule signed_take_bit_int_eq_self, simp_all)
    then show ?thesis using p
      by (simp add: fits test_fitsBits_def n1 shl_def um word_sle_eq)
  qed
qed

lemma bit_sar: "bit (signed_drop_bit m x) k \<longleftrightarrow> k < 32 \<and> bit x (if 32 - m \<le> k then 31 else m + k)"
  for x :: i32
  by (auto simp: bit_signed_drop_bit_iff dest: bit_imp_le_length)

lemma getByte_ok:
  assumes "unat n \<le> 3"
  shows "getByte x n = test_getByte x n"
proof -
  have u: "unat (push_bit 3 n) = 8 * unat n"
    using assms unat_mult_lem [of n 8] by (simp add: push_bit_eq_mult)
  have ff: "(0xFF :: i32) = mask 8" by (simp add: mask_eq_exp_minus_1)
  show ?thesis
    unfolding getByte_def test_getByte_def sar_def Let_def shl_lit u ff
    by (rule bit_word_eqI)
       (use assms in \<open>auto simp: bit_and_iff bit_mask_iff bit_sar bit_unsigned_iff bit_drop_bit_eq\<close>)
qed

lemma isNonNegative_ok: "isNonNegative x = test_isNonNegative x"
  by (simp add: isNonNegative_def test_isNonNegative_def sar_31 lnot_def of_flag_def)

lemma isNotEqual_ok: "isNotEqual x y = test_isNotEqual x y"
  by (simp add: isNotEqual_def test_isNotEqual_def lnot_def of_flag_def xor_zero)

lemma logicalShift_ok:
  assumes "1 \<le> unat n" and "unat n \<le> 31"
  shows "logicalShift x n = test_logicalShift x n"
proof -
  have n: "33 + NOT n = 32 - n" by (simp add: not_eq_complement)
  have "n \<le> 32" using assms by (simp add: word_le_nat_alt)
  then have u: "unat (33 + NOT n) = 32 - unat n" unfolding n by (simp add: unat_sub)
  show ?thesis
    by (rule bit_word_eqI)
       (use assms in \<open>auto simp: logicalShift_def test_logicalShift_def shl_def sar_def u bit_simps bit_sar not_le dest: bit_imp_le_length\<close>)
qed

lemma tc2sm_ok: "tc2sm x = test_tc2sm x"
  by (simp add: tc2sm_def test_tc2sm_def Let_def sar_31 neg_eq of_flag_def)

lemma leastBit_mask:
  fixes x :: i32
  assumes "bit x l" and "\<forall>i<l. \<not> bit x i" and "k \<le> l" and "l < 32"
  shows "least_mask (32 - k) (push_bit k 1) x = push_bit l 1"
  using assms(3)
proof (induction "l - k" arbitrary: k)
  case 0
  then have "k = l" by simp
  moreover have "bit (push_bit l 1 AND x) l"
    using assms(1,4) by (simp add: bit_and_iff bit_push_bit_iff bit_exp_iff)
  then have "push_bit l 1 AND x \<noteq> 0" by (rule contrapos_pn) simp
  moreover obtain m where "32 - l = Suc m" using assms(4) by (metis Suc_diff_Suc)
  ultimately show ?case by simp
next
  case (Suc d)
  then have k: "k < l" by simp
  have "push_bit k 1 AND x = 0"
    using assms(2) k by (intro bit_word_eqI) (auto simp: bit_and_iff bit_push_bit_iff bit_1_iff bit_exp_iff)
  moreover obtain m where m: "32 - k = Suc m" "m = 32 - Suc k" using k assms(4) by (metis Suc_diff_Suc less_trans)
  moreover have "shl (push_bit k 1) 1 = push_bit (Suc k) 1" by (simp add: push_bit_eq_mult)
  ultimately show ?case using Suc(1) [of "Suc k"] Suc(2) k by (simp add: mult.commute)
qed

lemma neg_and_bits:
  fixes x :: i32
  assumes "bit x l" and "\<forall>i<l. \<not> bit x i"
  shows "- x AND x = push_bit l 1"
proof -
  define y where "y = drop_bit l x"
  have "l \<le> n" if "bit x n" for n using that assms(2) leI by blast
  then have x: "x = push_bit l y"
    unfolding y_def by (intro bit_word_eqI) (auto simp: bit_push_bit_iff bit_drop_bit_eq)
  have "odd y" using assms(1) by (simp add: y_def flip: bit_iff_odd_drop_bit)
  then have "- y = NOT y OR 1" by (simp add: or_one_eq minus_eq_not_plus_1)
  then have "- y AND y = 1 AND y" by (simp add: bit.conj_disj_distrib2)
  then have "- y AND y = 1" using \<open>odd y\<close> by (simp add: one_and_eq odd_iff_mod_2_eq_one)
  then have "push_bit l (- y AND y) = push_bit l 1" by simp
  then show ?thesis by (simp only: push_bit_and push_bit_minus x [symmetric])
qed

lemma least_bit: "x \<noteq> 0 \<Longrightarrow> \<exists>l. bit x l \<and> (\<forall>i<l. \<not> bit x i)" for x :: i32
proof -
  assume "x \<noteq> 0"
  have "\<exists>l. bit x l"
  proof (rule ccontr)
    assume "\<nexists>l. bit x l"
    then have "x = 0" by (intro bit_word_eqI) simp
    then show False using \<open>x \<noteq> 0\<close> by simp
  qed
  then show ?thesis by (simp only: exists_least_iff [of "bit x"])
qed

lemma leastBitPos_ok: "leastBitPos x = test_leastBitPos x"
proof (cases "x = 0")
  case False
  then obtain l where l: "bit x l" "\<forall>i<l. \<not> bit x i" using least_bit by blast
  then have "l < 32" by (auto dest: bit_imp_le_length)
  then show ?thesis
    using False neg_and_bits [OF l] leastBit_mask [OF l, of 0]
    by (simp add: leastBitPos_def test_leastBitPos_def neg_eq)
qed (simp add: leastBitPos_def test_leastBitPos_def)

lemma low_31: "sint (take_bit 31 x :: i32) = sint x mod 2 ^ 31"
proof -
  have "sint (take_bit 31 x) = signed_take_bit 31 (take_bit 31 (uint x))"
    by (simp add: sint_uint unsigned_take_bit_eq)
  also have "\<dots> = take_bit 31 (uint x)"
    using take_bit_int_less_exp [of 31 "uint x"]
    by (intro signed_take_bit_int_eq_self) (auto intro: order_trans [of _ 0])
  also have "\<dots> = take_bit 31 (sint x)" by (simp add: sint_uint take_bit_signed_take_bit)
  finally show ?thesis by (simp add: take_bit_eq_mod)
qed

lemma sless_sint: "x <s y \<longleftrightarrow> sint x < sint (y :: i32)"
  by (auto simp: word_sless_alt)

lemma sint_split: "sint x = sint x mod 2 ^ 31 - (if bit x 31 then 2 ^ 31 else 0)" for x :: i32
proof (cases "bit x 31")
  case True
  then have "(sint x + 2 ^ 31) mod 2 ^ 31 = sint x + 2 ^ 31"
    using sint_range [of x] by (intro mod_pos_pos_trivial) (auto simp: sint_neg_bit)
  then show ?thesis using True by simp
next
  case False
  then show ?thesis using sint_range [of x] by (simp add: sint_neg_bit mod_pos_pos_trivial)
qed

lemma isGreater_ok: "isGreater x y = test_isGreater x y"
proof (cases "bit x 31 = bit y 31")
  case False
  then have "isGreater x y = (if bit x 31 then 0 else 1)"
    by (auto simp: isGreater_def Let_def sar_31 lnot_def)
  then show ?thesis using False by (auto simp: test_isGreater_def of_flag_def sless_sint sint_neg_bit)
next
  case True
  define f where "f = take_bit 31 x + (NOT y OR TOP) + 1"
  have res: "isGreater x y = of_flag (\<not> bit f 31 \<and> f \<noteq> 0)"
    using True by (auto simp: isGreater_def Let_def sar_31 lnot_def of_flag_def f_def [symmetric])
  have "NOT y OR TOP = NOT (take_bit 31 y)"
    by (rule bit_word_eqI) (auto simp: bit_or_iff bit_not_iff bit_take_bit_iff)
  then have f: "f = take_bit 31 x - take_bit 31 y" by (simp add: f_def not_eq_complement)
  have "0 \<le> sint x mod 2 ^ 31" "sint x mod 2 ^ 31 < 2 ^ 31" "0 \<le> sint y mod 2 ^ 31" "sint y mod 2 ^ 31 < 2 ^ 31"
    by simp_all
  then have "sint f = sint x mod 2 ^ 31 - sint y mod 2 ^ 31"
    unfolding f low_31 [symmetric] by (simp add: sint_word_ariths(2) signed_take_bit_int_eq_self)
  then have "sint f = sint x - sint y" using sint_split [of x] sint_split [of y] True by simp
  moreover have "f = 0 \<longleftrightarrow> sint f = 0" by (simp add: signed_eq_0_iff)
  ultimately show ?thesis unfolding res
    by (auto simp: test_isGreater_def sless_sint sint_neg_bit of_flag_def)
qed

lemma satAdd_val: "satAdd x y =
   (if bit x 31 \<and> bit y 31 \<and> \<not> bit (x + y) 31 then TOP
    else if \<not> bit x 31 \<and> \<not> bit y 31 \<and> bit (x + y) 31 then LOW31 else x + y)"
  by (auto simp: satAdd_def Let_def sar_31 LOW31_def [symmetric])

lemma satAdd_ok: "satAdd x y = test_satAdd x y"
proof -
  have c: "(0x7FFFFFFF :: i32) = LOW31" "(0x80000000 :: i32) = TOP"
    by (simp_all add: LOW31_def TOP_def mask_eq_exp_minus_1)
  have pos: "0 <s z \<longleftrightarrow> \<not> bit z 31 \<and> z \<noteq> 0" for z :: i32
    by (auto simp: sless_sint sint_neg_bit order_less_le signed_eq_0_iff)
  show ?thesis unfolding satAdd_val test_satAdd_def c pos by auto
qed

section \<open>Counting bits\<close>

text \<open>The number of ones, as a sum over the eight nibbles.\<close>

definition nib :: "i32 \<Rightarrow> nat \<Rightarrow> nat" where
  "nib x k = of_bool (bit x (4 * k)) + of_bool (bit x (4 * k + 1)) + of_bool (bit x (4 * k + 2)) + of_bool (bit x (4 * k + 3))"

definition ones :: "i32 \<Rightarrow> nat" where
  "ones x = nib x 0 + nib x 1 + nib x 2 + nib x 3 + nib x 4 + nib x 5 + nib x 6 + nib x 7"

lemma nib_le: "nib x k \<le> 4"
  by (simp add: nib_def)

lemma horner_32: "horner_sum of_bool 2 (map (bit x) [0..<32]) = x" for x :: i32
  using take_bit_length_eq [of x] by (simp add: horner_sum_bit_eq_take_bit)

lemma upt_32: "[0..<32] = [0, 1, 2, 3, 4, 5, 6, 7, 8, 9, 10, 11, 12, 13, 14, 15, 16, 17, 18, 19, 20, 21, 22, 23,
    24, 25, 26, 27, 28, 29, 30, 31 :: nat]"
  by (simp add: upt_rec)

lemma bit_power: "k < 32 \<Longrightarrow> bit (push_bit k 1 :: i32) n \<longleftrightarrow> n = k"
  by (auto simp: bit_push_bit_iff bit_1_iff bit_exp_iff)

lemma bit_ones_mask: "bit (0x11111111 :: i32) n \<longleftrightarrow> n \<in> {0, 4, 8, 12, 16, 20, 24, 28}"
proof -
  have m: "(0x11111111 :: i32) = push_bit 0 1 OR push_bit 4 1 OR push_bit 8 1 OR push_bit 12 1 OR
      push_bit 16 1 OR push_bit 20 1 OR push_bit 24 1 OR push_bit 28 1"
    by simp
  note p = bit_power [of 0 n] bit_power [of 4 n] bit_power [of 8 n] bit_power [of 12 n] bit_power [of 16 n]
    bit_power [of 20 n] bit_power [of 24 n] bit_power [of 28 n]
  have c: "(0 :: nat) < 32" "(4 :: nat) < 32" "(8 :: nat) < 32" "(12 :: nat) < 32" "(16 :: nat) < 32"
    "(20 :: nat) < 32" "(24 :: nat) < 32" "(28 :: nat) < 32" by simp_all
  show ?thesis unfolding m bit_or_iff
    unfolding p(1) [OF c(1)] p(2) [OF c(2)] p(3) [OF c(3)] p(4) [OF c(4)] p(5) [OF c(5)] p(6) [OF c(6)]
      p(7) [OF c(7)] p(8) [OF c(8)]
    by simp
qed

lemma every_fourth:
  "x AND 0x11111111 =
    of_bool (bit x 0) + 16 * of_bool (bit x 4) + 256 * of_bool (bit x 8) +
    4096 * of_bool (bit x 12) + 65536 * of_bool (bit x 16) + 1048576 * of_bool (bit x 20) +
    16777216 * of_bool (bit x 24) + 268435456 * (of_bool (bit x 28) :: i32)"
  by (subst horner_32 [of "x AND 0x11111111", symmetric])
     (simp add: upt_32 bit_and_iff bit_ones_mask)

definition nibs :: "i32 \<Rightarrow> nat" where
  "nibs x = nib x 0 + 16 * nib x 1 + 256 * nib x 2 + 4096 * nib x 3 + 65536 * nib x 4 + 1048576 * nib x 5 +
    16777216 * nib x 6 + 268435456 * nib x 7"

lemma nibs_word:
  "(x AND 0x11111111) + (signed_drop_bit 1 x AND 0x11111111) + (signed_drop_bit 2 x AND 0x11111111) +
   (signed_drop_bit 3 x AND 0x11111111) = (of_nat (nibs x) :: i32)"
  unfolding every_fourth nibs_def nib_def
  by (simp add: bit_sar algebra_simps numeral_2_eq_2 [symmetric])

lemma nat_mod_lt: "N < 2 ^ 31 \<Longrightarrow> sint (of_nat N :: i32) = int N"
proof -
  assume "N < 2 ^ 31"
  then have "int N < 2 ^ 31" by simp
  moreover have "(of_nat N :: i32) = word_of_int (int N)" by simp
  ultimately show ?thesis
    by (simp only: sint_sbintrunc') (rule signed_take_bit_int_eq_self, simp_all)
qed

lemma sar_of_nat:
  assumes "k < 32" and "N < 2 ^ 31"
  shows "signed_drop_bit k (of_nat N :: i32) = of_nat (N div 2 ^ k)"
proof -
  have "N div 2 ^ k < 2 ^ 31" using assms(2) by (meson div_le_dividend le_less_trans)
  then have "sint (signed_drop_bit k (of_nat N :: i32)) = sint (of_nat (N div 2 ^ k) :: i32)"
    using assms by (simp add: sar_sint nat_mod_lt zdiv_int)
  then show ?thesis by (simp add: sint_eq_32)
qed

lemma and_mask_nat: "(A :: nat) AND 0xF0F = A mod 16 + 256 * (A div 256 mod 16)"
proof -
  have m: "(0xF0F :: nat) = mask 4 OR push_bit 8 (mask 4)" by (simp add: mask_eq_exp_minus_1)
  have "A AND 0xF0F = take_bit 4 A OR push_bit 8 (take_bit 4 (drop_bit 8 A))"
    unfolding m by (rule bit_eqI) (auto simp: bit_simps)
  also have "\<dots> = take_bit 4 A + push_bit 8 (take_bit 4 (drop_bit 8 A))"
    by (rule disjunctive_add_eq_or [symmetric]) (rule bit_eqI, auto simp: bit_simps)
  finally show ?thesis by (simp add: take_bit_eq_mod push_bit_eq_mult drop_bit_eq_div)
qed

lemma and_0F0F: "(of_nat A :: i32) AND 0xF0F = of_nat (A mod 16 + 256 * (A div 256 mod 16))"
  using and_mask_nat [of A] of_nat_and_eq [of A "0xF0F", where ?'a = "32 word"] by simp

lemma div_split: "L < m \<Longrightarrow> (L + m * H) div m = (H :: nat)" "L < m \<Longrightarrow> (L + m * H) mod m = L"
  by simp_all

lemma count_ones_val: "count_ones x = of_nat (ones x)"
proof -
  define d where "d = nib x"
  have d: "d k \<le> 4" for k by (simp add: d_def nib_le)
  define e0 where "e0 = d 0 + d 4"
  define e1 where "e1 = d 1 + d 5"
  define e2 where "e2 = d 2 + d 6"
  define e3 where "e3 = d 3 + d 7"
  note e = e0_def e1_def e2_def e3_def
  define H where "H = d 4 + 16 * (d 5 + 16 * (d 6 + 16 * d 7))"
  have e_le: "e0 \<le> 8" "e1 \<le> 8" "e2 \<le> 8" "e3 \<le> 8"
    using d [of 0] d [of 1] d [of 2] d [of 3] d [of 4] d [of 5] d [of 6] d [of 7]
    unfolding e by linarith+
  have "d 6 + 16 * d 7 \<le> 68" using d [of 6] d [of 7] by simp
  then have "d 5 + 16 * (d 6 + 16 * d 7) \<le> 1092" using d [of 5] by simp
  then have "H \<le> 17476" using d [of 4] unfolding H_def by simp
  note bounds = e_le this
  have "nibs x = (d 0 + 16 * (d 1 + 16 * (d 2 + 16 * d 3))) + 65536 * H"
    by (simp add: nibs_def d_def H_def)
  moreover have "d 0 + 16 * (d 1 + 16 * (d 2 + 16 * d 3)) < 65536"
    using d [of 0] d [of 1] d [of 2] d [of 3] by simp
  ultimately have N: "nibs x div 65536 = H" "nibs x < 2 ^ 31"
    using div_split(1) bounds(5) by auto
  define A where "A = nibs x + nibs x div 65536"
  have A: "A = e0 + 16 * (e1 + 16 * (e2 + 16 * (e3 + 16 * H)))"
    unfolding A_def N(1) by (simp add: nibs_def d_def [symmetric] H_def e)
  have AL: "A < 2 ^ 31" using bounds unfolding A by simp
  have lt: "e0 < 16" "e1 < 16" "e2 < 16" "e3 < 16" using bounds by simp_all
  have q1: "A mod 16 = e0" "A div 16 = e1 + 16 * (e2 + 16 * (e3 + 16 * H))"
    unfolding A by (rule div_split, rule lt)+
  have q2: "A div 16 mod 16 = e1" "A div 16 div 16 = e2 + 16 * (e3 + 16 * H)"
    unfolding q1(2) by (rule div_split, rule lt)+
  have q3: "A div 16 div 16 mod 16 = e2" "A div 16 div 16 div 16 = e3 + 16 * H"
    unfolding q2(2) by (rule div_split, rule lt)+
  have q4: "A div 16 div 16 div 16 mod 16 = e3"
    unfolding q3(2) by (rule div_split, rule lt)
  have dd: "A div 16 div 16 = A div 256" "A div 16 div 16 div 16 = A div 16 div 256"
    by (simp_all add: div_mult2_eq [of _ 16 16, simplified])
  note q = q1 q2 q3(1) [unfolded dd] q4 [unfolded dd]
  define B where "B = (e0 + e1) + 256 * (e2 + e3)"
  have B: "B div 256 = e2 + e3" "B < 2 ^ 31" using bounds by (simp_all add: B_def)
  have "B + B div 256 = (e0 + e1 + e2 + e3) + 64 * (4 * (e2 + e3))" unfolding B(1) by (simp add: B_def)
  moreover have "e0 + e1 + e2 + e3 < 64" using bounds by linarith
  ultimately have C: "(B + B div 256) mod 64 = ones x"
    by (simp only: div_split(2)) (simp add: ones_def d_def [symmetric] e)
  have w1: "of_nat (nibs x) + sar (of_nat (nibs x)) 16 = (of_nat A :: i32)"
    using sar_of_nat [of 16 "nibs x"] N by (simp add: sar_def A_def)
  have "of_nat A AND 0xF0F = (of_nat (e0 + 256 * e2) :: i32)"
    by (simp only: and_0F0F q1(1) q3(1) [unfolded dd])
  moreover have "sar (of_nat A) 4 AND 0xF0F = (of_nat (e1 + 256 * e3) :: i32)"
  proof -
    have "sar (of_nat A) 4 = (of_nat (A div 16) :: i32)"
      using sar_of_nat [of 4 A] AL by (simp add: sar_def)
    then show ?thesis by (simp only: and_0F0F q2(1) q4 [unfolded dd(2)])
  qed
  ultimately have w2: "(of_nat A AND 0xF0F) + (sar (of_nat A) 4 AND 0xF0F) = (of_nat B :: i32)"
    by (simp add: B_def)
  have w3: "(of_nat B + sar (of_nat B) 8) AND 0x3F = (of_nat (ones x) :: i32)"
  proof -
    have "of_nat B + sar (of_nat B) 8 = (of_nat (B + B div 256) :: i32)"
      using sar_of_nat [of 8 B] B(2) by (simp add: sar_def)
    moreover have "of_nat M AND (0x3F :: i32) = of_nat (M mod 64)" for M
    proof -
      have "(0x3F :: i32) = mask 6" by (simp add: mask_eq_exp_minus_1)
      then have "of_nat M AND (0x3F :: i32) = take_bit 6 (of_nat M)" by (simp only: take_bit_eq_mask)
      also have "\<dots> = of_nat (take_bit 6 M)" by (rule take_bit_of_nat)
      finally show ?thesis by (simp add: take_bit_eq_mod)
    qed
    ultimately show ?thesis by (simp only: C)
  qed
  have m: "0x11 OR shl 0x11 8 OR shl (0x11 OR shl 0x11 8) 16 = 0x11111111" "0xF OR shl 0xF 8 = 0xF0F"
    by (simp_all add: shl_def)
  have w0: "(x AND 0x11111111) + (sar x 1 AND 0x11111111) + (sar x 2 AND 0x11111111) +
      (sar x 3 AND 0x11111111) = of_nat (nibs x)"
    using nibs_word [of x] by (simp add: sar_def)
  show ?thesis unfolding count_ones_def Let_def
    by (simp only: or.assoc m w0 w1 w2 w3)
qed

lemma bitCount_ok: "bitCount x = test_bitCount x"
proof -
  have "foldl (\<lambda>r i. r + (sar x (of_nat i) AND 1)) 0 [0..<32] = (of_nat (ones x) :: i32)"
    by (simp add: upt_32 sar_def and_1 bit_sar ones_def nib_def numeral_2_eq_2 [symmetric]) 
  then show ?thesis by (simp add: bitCount_def test_bitCount_def count_ones_val)
qed

lemma ones_filter: "ones x = length (filter (bit x) [0..<32])"
  by (simp add: ones_def nib_def upt_32 numeral_2_eq_2 [symmetric])

lemma ones_1: "ones x = 1 \<longleftrightarrow> (\<exists>n<32. x = push_bit n 1)"
proof
  assume "ones x = 1"
  then obtain n where n: "filter (bit x) [0..<32] = [n]"
    by (auto simp: ones_filter length_Suc_conv)
  have k: "k < 32 \<and> bit x k \<longleftrightarrow> k = n" for k
  proof -
    have "k \<in> set (filter (bit x) [0..<32]) \<longleftrightarrow> k = n" unfolding n by simp
    then show ?thesis by simp
  qed
  then have "n < 32" by blast
  have "bit x j \<longleftrightarrow> bit (push_bit n 1 :: i32) j" if "j < 32" for j
    unfolding bit_power [OF \<open>n < 32\<close>] using k [of j] that by blast
  then have "x = push_bit n 1" by (intro bit_word_eqI) simp
  then show "\<exists>n<32. x = push_bit n 1" using \<open>n < 32\<close> by blast
next
  assume "\<exists>n<32. x = push_bit n 1"
  then obtain n where n: "n < 32" "x = push_bit n 1" by blast
  then have "set (filter (bit x) [0..<32]) = {n}"
    unfolding n(2) using bit_power [OF n(1)] n(1) by auto
  moreover have "distinct (filter (bit x) [0..<32])" by simp
  ultimately have "length (filter (bit x) [0..<32]) = card {n}" by (metis distinct_card)
  then show "ones x = 1" by (simp add: ones_filter)
qed

lemma isPower2_ok: "isPower2 x = test_isPower2 x"
proof -
  have "ones x \<le> 32" using length_filter_le [of "bit x" "[0..<32]"] by (simp add: ones_filter)
  then have u: "sint (of_nat (ones x) :: i32) = int (ones x)" by (intro nat_mod_lt) simp
  have "(of_nat (ones x) :: i32) + NOT 1 + 1 = of_nat (ones x) - 1" by (simp add: not_eq_complement)
  moreover have "(of_nat (ones x) :: i32) - 1 = 0 \<longleftrightarrow> ones x = 1"
    using u sint_eq_32 [of "of_nat (ones x)" 1] by auto
  ultimately have "isPower2 x = of_flag (push_bit 1 x \<noteq> 0 \<and> ones x = 1)"
    by (simp add: isPower2_def count_ones_val lnot_def of_flag_def)
  moreover have "push_bit 1 x \<noteq> 0 \<and> ones x = 1 \<longleftrightarrow> (\<exists>i<31. x = push_bit i 1)"
  proof -
    have "push_bit 1 (push_bit i 1 :: i32) \<noteq> 0 \<longleftrightarrow> i \<noteq> 31" if "i < 32" for i
    proof (cases "i = 31")
      case False
      then have "bit (push_bit (Suc i) 1 :: i32) (Suc i)" using that by (subst bit_power) auto
      moreover have "push_bit 1 (push_bit i 1 :: i32) = push_bit (Suc i) 1" by (simp add: mult.commute)
      ultimately show ?thesis using False by (auto simp: mult.commute)
    qed simp
    moreover have "n < 31 \<longleftrightarrow> n < 32 \<and> n \<noteq> 31" for n :: nat by auto
    ultimately show ?thesis unfolding ones_1 by blast
  qed
  moreover have "unat (of_nat i :: i32) = i" if "i < 31" for i
    using that by (simp add: unat_of_nat take_bit_nat_eq_self_iff)
  then have "test_isPower2 x = of_flag (\<exists>i<31. x = push_bit i 1)"
    unfolding test_isPower2_def shl_def list_ex_iff by (intro arg_cong [of _ _ of_flag]) auto
  ultimately show ?thesis by simp
qed

end
