(* ===== verification/Btest.thy ===== *)
theory Btest
  imports Bits Complex_Main
begin

text \<open>
  The data lab's test harness: the table of \<^verbatim>\<open>lab1/decl.c\<close> and \<^verbatim>\<open>gen_vals\<close>, \<^verbatim>\<open>test_n_arg\<close>,
  \<^verbatim>\<open>test_function\<close> and \<^verbatim>\<open>run_tests\<close> of \<^verbatim>\<open>lab1/btest.c\<close>, and that every puzzle passes.  The values of
  \<^verbatim>\<open>rand() / RAND_MAX\<close> are a parameter, the sequence of draws; the interpolation of \<^verbatim>\<open>random_val\<close> is
  computed exactly instead of in \<^verbatim>\<open>double\<close>.  Messages are left out, and so are the operator lists of
  the table, which no C code reads.
\<close>

section \<open>The table\<close>

datatype funct = F0 i32 | F1 "i32 \<Rightarrow> i32" | F2 "i32 \<Rightarrow> i32 \<Rightarrow> i32" | F3 "i32 \<Rightarrow> i32 \<Rightarrow> i32 \<Rightarrow> i32"

text \<open>Calling through a pointer of another type is undefined.\<close>

fun call :: "funct \<Rightarrow> i32 list \<Rightarrow> i32 ub" where
  "call (F0 r) [] = Some r"
| "call (F1 f) [a] = Some (f a)"
| "call (F2 f) [a, b] = Some (f a b)"
| "call (F3 f) [a, b, c] = Some (f a b c)"
| "call _ _ = None"

record test_rec =
  tr_name :: string
  tr_solution :: funct
  tr_test :: funct
  tr_args :: nat
  tr_rating :: nat
  tr_ranges :: "(int \<times> int) list"

definition Tmin :: int where "Tmin = - (2 ^ 31)"
definition Tmax :: int where "Tmax = 2 ^ 31 - 1"

definition mk_test :: "string \<Rightarrow> funct \<Rightarrow> funct \<Rightarrow> nat \<Rightarrow> nat \<Rightarrow> (int \<times> int) list \<Rightarrow> test_rec" where
  "mk_test nm f ft n rt rs =
     \<lparr>tr_name = nm, tr_solution = f, tr_test = ft, tr_args = n, tr_rating = rt, tr_ranges = rs\<rparr>"

definition any :: "int \<times> int" where "any = (Tmin, Tmax)"

definition test_set :: "test_rec list" where
  "test_set =
    [mk_test ''bang'' (F1 bang) (F1 test_bang) 1 4 [any, any, any],
     mk_test ''bitCount'' (F1 bitCount) (F1 test_bitCount) 1 4 [any, any, any],
     mk_test ''copyLSB'' (F1 copyLSB) (F1 test_copyLSB) 1 2 [any, any, any],
     mk_test ''divpwr2'' (F2 divpwr2) (F2 test_divpwr2) 2 2 [any, (0, 30), any],
     mk_test ''evenBits'' (F0 evenBits) (F0 test_evenBits) 0 2 [any, any, any],
     mk_test ''fitsBits'' (F2 fitsBits) (F2 test_fitsBits) 2 2 [any, (1, 32), any],
     mk_test ''getByte'' (F2 getByte) (F2 test_getByte) 2 2 [any, (0, 3), any],
     mk_test ''isGreater'' (F2 isGreater) (F2 test_isGreater) 2 3 [any, any, any],
     mk_test ''isNonNegative'' (F1 isNonNegative) (F1 test_isNonNegative) 1 3 [any, any, any],
     mk_test ''isNotEqual'' (F2 isNotEqual) (F2 test_isNotEqual) 2 2 [any, any, any],
     mk_test ''isPower2'' (F1 isPower2) (F1 test_isPower2) 1 4 [any, any, any],
     mk_test ''leastBitPos'' (F1 leastBitPos) (F1 test_leastBitPos) 1 4 [any, any, any],
     mk_test ''logicalShift'' (F2 logicalShift) (F2 test_logicalShift) 2 3 [any, (1, 31), any],
     mk_test ''satAdd'' (F2 satAdd) (F2 test_satAdd) 2 4 [any, any, any],
     mk_test ''tc2sm'' (F1 tc2sm) (F1 test_tc2sm) 1 4 [(Tmin + 1, Tmax), (Tmin + 1, Tmax), (Tmin + 1, Tmax)]]"

section \<open>Test values\<close>

definition TEST_RANGE :: int where "TEST_RANGE = 5"

text \<open>The conversion of a floating value to \<^verbatim>\<open>int\<close> drops the fraction.\<close>

definition trunc :: "rat \<Rightarrow> int" where
  "trunc r = (if 0 \<le> r then \<lfloor>r\<rfloor> else \<lceil>r\<rceil>)"

definition random_val :: "rat \<Rightarrow> int \<Rightarrow> int \<Rightarrow> int" where
  "random_val weight mn mx = trunc (of_int mn * (1 - weight) + of_int mx * weight)"

text \<open>
  The values and the index of the next draw.  The four values of one turn of the loop are in order.
  \<^term>\<open>None\<close> is signed overflow: of \<^verbatim>\<open>max-32\<close>, of the counter of the exhaustive loop when \<^verbatim>\<open>max\<close> is
  the largest \<^verbatim>\<open>int\<close>, or of the sum of the bounds.  The array holds the \<^verbatim>\<open>TEST_COUNT\<close> (33) values of
  the widest exhaustive range.
\<close>

definition gen_vals :: "(nat \<Rightarrow> rat) \<Rightarrow> nat \<Rightarrow> int \<times> int \<Rightarrow> (i32 list \<times> nat) ub" where
  "gen_vals rnd k rng =
     (case rng of (mn, mx) \<Rightarrow>
        if \<not> int_ok (mx - 32) then None
        else if mx - 32 \<le> mn then
          (if mx = Tmax then None else Some (map word_of_int [mn..mx], k))
        else if \<not> int_ok (mx + mn) \<or> \<not> int_ok (mx + mn - TEST_RANGE) then None
        else Some (concat (map (\<lambda>i. map word_of_int
                [mn + i, mx - i, (mx + mn - TEST_RANGE) sdiv 2 + i, random_val (rnd (k + nat i)) mn mx])
              [0..TEST_RANGE - 1]), k + nat TEST_RANGE))"

section \<open>Running the tests\<close>

definition test_args :: "test_rec \<Rightarrow> i32 list \<Rightarrow> nat ub" where
  "test_args t as = do {
     r \<leftarrow> call (tr_solution t) as;
     rt \<leftarrow> call (tr_test t) as;
     Some (of_bool (r \<noteq> rt))
   }"

fun sum_ub :: "('a \<Rightarrow> nat ub) \<Rightarrow> 'a list \<Rightarrow> nat ub" where
  "sum_ub f [] = Some 0"
| "sum_ub f (x # xs) = do { e \<leftarrow> f x; es \<leftarrow> sum_ub f xs; Some (e + es) }"

definition test_all :: "test_rec \<Rightarrow> i32 list \<Rightarrow> i32 list \<Rightarrow> i32 list \<Rightarrow> nat ub" where
  "test_all t vals0 vals1 vals2 =
     (if tr_args t = 0 then test_args t []
      else sum_ub (\<lambda>a1. if tr_args t = 1 then test_args t [a1]
        else sum_ub (\<lambda>a2. if tr_args t = 2 then test_args t [a1, a2]
          else sum_ub (\<lambda>a3. test_args t [a1, a2, a3]) vals2) vals1) vals0)"

definition test_function :: "(nat \<Rightarrow> rat) \<Rightarrow> nat \<Rightarrow> test_rec \<Rightarrow> (nat \<times> nat) ub" where
  "test_function rnd k t = do {
     (vals0, k) \<leftarrow> gen_vals rnd k (tr_ranges t ! 0);
     (vals1, k) \<leftarrow> gen_vals rnd k (tr_ranges t ! 1);
     (vals2, k) \<leftarrow> gen_vals rnd k (tr_ranges t ! 2);
     errors \<leftarrow> test_all t vals0 vals1 vals2;
     Some (errors, k)
   }"

definition tscore :: "test_rec \<Rightarrow> nat \<Rightarrow> rat" where
  "tscore t terrors =
     (if tr_args t = 0 then (if terrors = 0 then 1 else 0)
      else if terrors = 0 then 1 else if terrors = 1 then 1 / 2 else 0)"

text \<open>The errors, the points and the points possible.  \<open>fname\<close> and \<open>grating\<close> are the options
  \<^verbatim>\<open>-f\<close> and \<^verbatim>\<open>-r\<close>.\<close>

fun run_tests :: "string option \<Rightarrow> nat \<Rightarrow> (nat \<Rightarrow> rat) \<Rightarrow> nat \<Rightarrow> test_rec list \<Rightarrow> (nat \<times> rat \<times> rat) ub" where
  "run_tests fname grating rnd k [] = Some (0, 0, 0)"
| "run_tests fname grating rnd k (t # ts) =
     (if fname = None \<or> fname = Some (tr_name t)
      then do {
        let rating = (if grating \<noteq> 0 then grating else tr_rating t);
        (terrors, k) \<leftarrow> test_function rnd k t;
        (errors, points, max_points) \<leftarrow> run_tests fname grating rnd k ts;
        Some (terrors + errors, of_nat rating * tscore t terrors + points, of_nat rating + max_points)
      }
      else run_tests fname grating rnd k ts)"

section \<open>The generated values stay in range\<close>

definition in_range :: "int \<times> int \<Rightarrow> i32 \<Rightarrow> bool" where
  "in_range rng v \<longleftrightarrow> fst rng \<le> sint v \<and> sint v \<le> snd rng"

lemma random_val_range:
  assumes "0 \<le> w" and "w \<le> 1" and "mn \<le> mx"
  shows "mn \<le> random_val w mn mx \<and> random_val w mn mx \<le> mx"
proof -
  let ?r = "of_int mn * (1 - w) + of_int mx * w :: rat"
  have "?r = of_int mn + (of_int mx - of_int mn) * w" by (simp add: algebra_simps)
  moreover have "0 \<le> (of_int mx - of_int mn) * w" using assms by simp
  moreover have "(of_int mx - of_int mn) * w \<le> (of_int mx - of_int mn) * 1"
    using assms by (intro mult_left_mono) simp_all
  ultimately have r: "of_int mn \<le> ?r" "?r \<le> of_int mx" by simp_all
  then show ?thesis
    unfolding random_val_def trunc_def by (auto simp: le_floor_iff floor_le_iff ceiling_le_iff le_ceiling_iff)
qed

lemma sint_of_range: "Tmin \<le> x \<Longrightarrow> x \<le> Tmax \<Longrightarrow> sint (word_of_int x :: i32) = x"
  by (simp only: sint_sbintrunc') (rule signed_take_bit_int_eq_self, simp_all add: Tmin_def Tmax_def)

text \<open>The ranges \<^verbatim>\<open>gen_vals\<close> handles without overflow, and those of the table are.\<close>

definition good_range :: "int \<times> int \<Rightarrow> bool" where
  "good_range rng \<longleftrightarrow> Tmin \<le> fst rng \<and> Tmin + 32 \<le> snd rng \<and> snd rng \<le> Tmax \<and> fst rng \<le> snd rng \<and>
     (snd rng = Tmax \<longrightarrow> fst rng < Tmax - 32) \<and>
     (fst rng < snd rng - 32 \<longrightarrow> int_ok (snd rng + fst rng) \<and> int_ok (snd rng + fst rng - TEST_RANGE))"

definition rnd_ok :: "(nat \<Rightarrow> rat) \<Rightarrow> bool" where
  "rnd_ok rnd \<longleftrightarrow> (\<forall>i. 0 \<le> rnd i \<and> rnd i \<le> 1)"

lemma mid_range:
  assumes "\<not> mx - 32 \<le> mn" and "0 \<le> i" and "i \<le> 4"
  shows "mn \<le> (mx + mn - 5) sdiv 2 + i \<and> (mx + mn - 5) sdiv 2 + i \<le> (mx :: int)"
proof -
  have "(mx + mn - 5) sdiv 2 = (mx + mn - 5) div 2 \<or> (mx + mn - 5) sdiv 2 = (mx + mn - 5) div 2 + 1"
    unfolding signed_divide_int_def sgn_if by (auto split: if_splits)
  then show ?thesis using assms by linarith
qed

lemma in_range_word:
  "Tmin \<le> mn \<Longrightarrow> mx \<le> Tmax \<Longrightarrow> mn \<le> x \<Longrightarrow> x \<le> mx \<Longrightarrow> in_range (mn, mx) (word_of_int x)"
  using sint_of_range [of x] by (simp add: in_range_def)

lemma in_range_words:
  "Tmin \<le> mn \<Longrightarrow> mx \<le> Tmax \<Longrightarrow> \<forall>x \<in> set xs. mn \<le> x \<and> x \<le> mx \<Longrightarrow> list_all (in_range (mn, mx)) (map word_of_int xs)"
  unfolding list_all_iff set_map by (auto simp del: of_int_add of_int_diff intro!: in_range_word)

lemma gen_vals_range:
  assumes "rnd_ok rnd" and "good_range rng"
  shows "\<exists>vs k'. gen_vals rnd k rng = Some (vs, k') \<and> list_all (in_range rng) vs"
proof -
  obtain mn mx where rng: "rng = (mn, mx)" by (cases rng)
  note bd = assms(2) [unfolded good_range_def rng fst_conv snd_conv]
  have g1: "int_ok (mx - 32)" using bd by (simp add: int_ok_def Tmin_def Tmax_def)
  show ?thesis
  proof (cases "mx - 32 \<le> mn")
    case True
    then have "gen_vals rnd k rng = Some (map word_of_int [mn..mx], k)"
      using bd g1 by (auto simp: gen_vals_def rng)
    then show ?thesis using bd in_range_words [of mn mx "[mn..mx]"] by (simp add: rng)
  next
    case False
    let ?four = "\<lambda>i. [mn + i, mx - i, (mx + mn - TEST_RANGE) sdiv 2 + i, random_val (rnd (k + nat i)) mn mx]"
    have "gen_vals rnd k rng = Some (concat (map (\<lambda>i. map word_of_int (?four i)) [0..TEST_RANGE - 1]), k + nat TEST_RANGE)"
      using bd g1 False by (simp add: gen_vals_def rng)
    moreover have "list_all (in_range (mn, mx)) (map word_of_int (?four i))" if "i \<in> {0..TEST_RANGE - 1}" for i
      using that False bd assms(1) mid_range [OF False, of i] random_val_range [of "rnd (k + nat i)" mn mx]
      by (intro in_range_words) (auto simp: TEST_RANGE_def rnd_ok_def)
    ultimately show ?thesis by (simp add: rng list_all_iff)
  qed
qed

section \<open>Every puzzle agrees with its reference\<close>

definition agrees :: "test_rec \<Rightarrow> i32 list \<Rightarrow> bool" where
  "agrees t as \<longleftrightarrow> test_args t as = Some 0"

lemma agrees_0: "f = g \<Longrightarrow> agrees (mk_test nm (F0 f) (F0 g) n rt rs) []"
  and agrees_1: "f1 a = g1 a \<Longrightarrow> agrees (mk_test nm (F1 f1) (F1 g1) n rt rs) [a]"
  and agrees_2: "f2 a b = g2 a b \<Longrightarrow> agrees (mk_test nm (F2 f2) (F2 g2) n rt rs) [a, b]"
  by (simp_all add: agrees_def test_args_def mk_test_def)

lemma unat_of_range:
  assumes "0 \<le> sint (v :: i32)" and "sint v \<le> int n"
  shows "unat v \<le> n" and "0 < sint v \<Longrightarrow> 0 < unat v"
proof -
  have v: "v = of_nat (nat (sint v))" using assms(1) of_int_sint_32 [of v] by simp
  have "nat (sint v) < 2 ^ 32" using sint_range [of v] by simp
  then have "unat v = nat (sint v)"
    by (subst v) (simp add: unat_of_nat take_bit_nat_eq_self_iff)
  then show "unat v \<le> n" "0 < sint v \<Longrightarrow> 0 < unat v" using assms by simp_all
qed

lemma fits_any [simp]: "in_range any v"
  using sint_range [of v] by (simp add: in_range_def any_def Tmin_def Tmax_def)

text \<open>The argument lists of a test: one value from the range of each argument.\<close>

definition valid_args :: "test_rec \<Rightarrow> i32 list \<Rightarrow> bool" where
  "valid_args t as \<longleftrightarrow> length as = tr_args t \<and> list_all2 in_range (take (tr_args t) (tr_ranges t)) as"

lemma mk_test_sel [simp]:
  "tr_args (mk_test nm f ft n rt rs) = n" "tr_ranges (mk_test nm f ft n rt rs) = rs"
  "tr_name (mk_test nm f ft n rt rs) = nm" "tr_rating (mk_test nm f ft n rt rs) = rt"
  by (simp_all add: mk_test_def)

lemma valid_1: "valid_args (mk_test nm f ft 1 rt [r0, r1, r2]) as \<longleftrightarrow> (\<exists>a. as = [a] \<and> in_range r0 a)"
  by (auto simp: valid_args_def length_Suc_conv list_all2_Cons1)

lemma valid_2: "valid_args (mk_test nm f ft 2 rt [r0, r1, r2]) as \<longleftrightarrow>
  (\<exists>a b. as = [a, b] \<and> in_range r0 a \<and> in_range r1 b)"
  by (auto simp: valid_args_def numeral_2_eq_2 length_Suc_conv list_all2_Cons1)

lemma valid_0: "valid_args (mk_test nm f ft 0 rt rs) as \<longleftrightarrow> as = []"
  by (auto simp: valid_args_def)

lemma all_agree:
  assumes "t \<in> set test_set" and "valid_args t as"
  shows "agrees t as"
proof -
  have le: "unat b \<le> n \<and> (0 < sint b \<longrightarrow> 0 < unat b)" if "in_range (lo, int n) b" "0 \<le> lo" for lo n b
    using that unat_of_range [of b n] by (auto simp: in_range_def)
  have "agrees (mk_test nm (F2 divpwr2) (F2 test_divpwr2) m rt rs) [a, b]" if "in_range (0, 30) b" for nm m rt rs a b
    using that le [of 0 30 b] by (intro agrees_2 divpwr2_ok) simp
  moreover have "agrees (mk_test nm (F2 fitsBits) (F2 test_fitsBits) m rt rs) [a, b]" if "in_range (1, 32) b" for nm m rt rs a b
    using that le [of 1 32 b] by (intro agrees_2 fitsBits_ok) (auto simp: in_range_def)
  moreover have "agrees (mk_test nm (F2 getByte) (F2 test_getByte) m rt rs) [a, b]" if "in_range (0, 3) b" for nm m rt rs a b
    using that le [of 0 3 b] by (intro agrees_2 getByte_ok) simp
  moreover have "agrees (mk_test nm (F2 logicalShift) (F2 test_logicalShift) m rt rs) [a, b]" if "in_range (1, 31) b" for nm m rt rs a b
    using that le [of 1 31 b] by (intro agrees_2 logicalShift_ok) (auto simp: in_range_def)
  ultimately show ?thesis
    using assms unfolding test_set_def list.set insert_iff empty_iff
    by (elim disjE)
       (auto simp: valid_0 valid_1 [unfolded One_nat_def] valid_1 valid_2 agrees_0 agrees_1 agrees_2 bang_ok bitCount_ok copyLSB_ok evenBits_ok
          isGreater_ok isNonNegative_ok isNotEqual_ok isPower2_ok leastBitPos_ok satAdd_ok tc2sm_ok)
qed

lemma sum_ub_0: "list_all (\<lambda>x. f x = Some 0) xs \<Longrightarrow> sum_ub f xs = Some 0"
  by (induction xs) auto

lemma test_set_ranges:
  "t \<in> set test_set \<Longrightarrow> length (tr_ranges t) = 3 \<and> tr_args t \<le> 2 \<and> (\<forall>r \<in> set (tr_ranges t). good_range r)"
  by (auto simp: test_set_def any_def good_range_def int_ok_def Tmin_def Tmax_def TEST_RANGE_def)

lemma test_function_0:
  assumes "t \<in> set test_set" and rnd: "rnd_ok rnd"
  shows "\<exists>k'. test_function rnd k t = Some (0, k')"
proof -
  obtain r0 r1 r2 where rs: "tr_ranges t = [r0, r1, r2]"
    using test_set_ranges [OF assms(1)] by (auto simp: numeral_3_eq_3 length_Suc_conv)
  then have gr: "good_range r0" "good_range r1" "good_range r2" using test_set_ranges [OF assms(1)] by auto
  obtain v0 k0 where v0: "gen_vals rnd k r0 = Some (v0, k0)" "list_all (in_range r0) v0"
    using gen_vals_range [OF rnd gr(1)] by blast
  obtain v1 k1 where v1: "gen_vals rnd k0 r1 = Some (v1, k1)" "list_all (in_range r1) v1"
    using gen_vals_range [OF rnd gr(2)] by blast
  obtain v2 k2 where v2: "gen_vals rnd k1 r2 = Some (v2, k2)"
    using gen_vals_range [OF rnd gr(3)] by blast
  have ag: "agrees t as" if "valid_args t as" for as using all_agree [OF assms(1) that] .
  have "tr_args t \<le> 2" using test_set_ranges [OF assms(1)] by simp
  then consider "tr_args t = 0" | "tr_args t = 1" | "tr_args t = 2" by linarith
  then have "test_all t v0 v1 v2 = Some 0"
  proof cases
    case 1
    then show ?thesis using ag [of "[]"] by (simp add: valid_args_def agrees_def test_all_def)
  next
    case 2
    then show ?thesis using ag v0(2) unfolding test_all_def
      by (auto simp: valid_args_def agrees_def rs list_all_iff intro!: sum_ub_0)
  next
    case 3
    then show ?thesis using ag v0(2) v1(2) unfolding test_all_def
      by (auto simp: valid_args_def agrees_def rs list_all_iff numeral_2_eq_2 intro!: sum_ub_0)
  qed
  then show ?thesis by (simp add: test_function_def rs v0 v1 v2 numeral_2_eq_2)
qed

text \<open>The points possible: the ratings of the tests that are run.\<close>

fun possible :: "string option \<Rightarrow> nat \<Rightarrow> test_rec list \<Rightarrow> nat" where
  "possible fname grating [] = 0"
| "possible fname grating (t # ts) =
     (if fname = None \<or> fname = Some (tr_name t) then (if grating \<noteq> 0 then grating else tr_rating t) else 0)
     + possible fname grating ts"

lemma run_tests_0:
  assumes "rnd_ok rnd" and "set ts \<subseteq> set test_set"
  shows "run_tests fname grating rnd k ts =
    Some (0, of_nat (possible fname grating ts), of_nat (possible fname grating ts))"
  using assms(2)
proof (induction ts arbitrary: k)
  case (Cons t ts)
  have "t \<in> set test_set" using Cons.prems by simp
  then obtain k' where "test_function rnd k t = Some (0, k')"
    using test_function_0 [OF _ assms(1)] by blast
  then show ?case using Cons by (auto simp: tscore_def Let_def)
qed simp

lemma possible_total: "possible None 0 test_set = 45"
  by (simp add: test_set_def)

lemma sint_satAdd: "sint (satAdd x y) = max Tmin (min Tmax (sint x + sint y))"
proof -
  have c: "sint TOP = Tmin" "sint LOW31 = Tmax"
    by (simp_all add: TOP_def LOW31_def mask_eq_exp_minus_1 Tmin_def Tmax_def)
  have s: "sint (x + y) = signed_take_bit 31 (sint x + sint y)" by (simp add: sint_word_ariths(1))
  note r = sint_range [of x] sint_range [of y]
  consider "sint x + sint y < Tmin" | "Tmax < sint x + sint y" | "Tmin \<le> sint x + sint y" "sint x + sint y \<le> Tmax" by linarith
  then show ?thesis
  proof cases
    case 1
    then have "sint (x + y) = sint x + sint y + 2 ^ 32"
      using r mod_add_self2 [of "sint x + sint y + 2 ^ 31" "2 ^ 32"]
        mod_pos_pos_trivial [of "sint x + sint y + 2 ^ 31 + 2 ^ 32" "2 ^ 32"]
      unfolding s signed_take_bit_eq_take_bit_shift take_bit_eq_mod Tmin_def by simp
    then show ?thesis using 1 r by (auto simp: satAdd_val c sint_neg_bit Tmin_def Tmax_def)
  next
    case 2
    then have "sint (x + y) = sint x + sint y - 2 ^ 32"
      using r mod_add_self2 [of "sint x + sint y + 2 ^ 31 - 2 ^ 32" "2 ^ 32"]
        mod_pos_pos_trivial [of "sint x + sint y + 2 ^ 31 - 2 ^ 32" "2 ^ 32"]
      unfolding s signed_take_bit_eq_take_bit_shift take_bit_eq_mod Tmax_def by (simp add: ac_simps)
    then show ?thesis using 2 r by (auto simp: satAdd_val c sint_neg_bit Tmin_def Tmax_def)
  next
    case 3
    then have "sint (x + y) = sint x + sint y" unfolding s
      by (intro signed_take_bit_int_eq_self) (auto simp: Tmin_def Tmax_def)
    then show ?thesis using 3 by (auto simp: satAdd_val c sint_neg_bit)
  qed
qed

lemma unat_bitCount: "unat (bitCount x) = card {n. bit x n}"
proof -
  have "{n. bit x n} = set (filter (bit x) [0..<32])" by (auto dest: bit_imp_le_length)
  then have "card {n. bit x n} = length (filter (bit x) [0..<32])" by (simp only: distinct_card distinct_filter distinct_upt)
  moreover have "length (filter (bit x) [0..<32]) \<le> 32" using length_filter_le [of "bit x" "[0..<32]"] by simp
  ultimately show ?thesis
    by (simp add: bitCount_def count_ones_val ones_filter unat_of_nat take_bit_nat_eq_self)
qed

section \<open>Properties\<close>

text \<open>C11: Every solution of the data lab returns what its reference function returns, for all arguments
  in the ranges of the table: bit for bit over all 32-bit values where the range is all of \<^verbatim>\<open>int\<close>.\<close>

theorem puzzles_correct:
  assumes "t \<in> set test_set" and "valid_args t as"
  shows "\<exists>r. call (tr_solution t) as = Some r \<and> call (tr_test t) as = Some r"
  using all_agree [OF assms] by (auto simp: agrees_def test_args_def bind_eq_Some_conv)

theorem puzzles_correct_witness:
  "\<exists>r. call (F2 divpwr2) [- 7, 1] = Some r \<and> call (F2 test_divpwr2) [- 7, 1] = Some r"
  using puzzles_correct [of "mk_test ''divpwr2'' (F2 divpwr2) (F2 test_divpwr2) 2 2 [any, (0, 30), any]" "[- 7, 1]"]
  by (simp add: test_set_def valid_args_def numeral_2_eq_2) (simp add: mk_test_def in_range_def)



text \<open>\<^verbatim>\<open>satAdd\<close> is addition clamped to the range of \<^verbatim>\<open>int\<close>: it never wraps, and it is exact whenever the
  sum is representable.\<close>

lemma satAdd_clamps: "sint (satAdd x y) = max Tmin (min Tmax (sint x + sint y))"
  by (rule sint_satAdd)

text \<open>\<^verbatim>\<open>bitCount\<close> computes the number of one bits of the word, with additions on parallel fields that
  never carry into one another.\<close>

theorem bitCount_card: "unat (bitCount x) = card {n. bit x n}"
  by (rule unat_bitCount)

end
