(* ===== verification/Trans.thy ===== *)
theory Trans
  imports Prelude
begin

text \<open>
  The matrix transposes of \<^verbatim>\<open>lab8/trans.c\<close> and the harness that checks them (\<^verbatim>\<open>lab8/cachelab.c\<close>,
  \<^verbatim>\<open>lab8/tracegen.c\<close>).  A matrix is a function of its row and column; every access is checked against
  the dimensions of its declaration, and \<^term>\<open>None\<close> is an access outside them.  Dimensions and
  indices are natural numbers: no index is ever negative.
\<close>

section \<open>Matrices and loops\<close>

type_synonym mat = "nat \<Rightarrow> nat \<Rightarrow> i32"

definition rd :: "nat \<Rightarrow> nat \<Rightarrow> mat \<Rightarrow> nat \<Rightarrow> nat \<Rightarrow> i32 ub" where
  "rd rows cols X i j = (if i < rows \<and> j < cols then Some (X i j) else None)"

definition wr :: "nat \<Rightarrow> nat \<Rightarrow> mat \<Rightarrow> nat \<Rightarrow> nat \<Rightarrow> i32 \<Rightarrow> mat ub" where
  "wr rows cols X i j v = (if i < rows \<and> j < cols then Some (X(i := (X i)(j := v))) else None)"

text \<open>\<^verbatim>\<open>for (i = i; i < n; i += d)\<close>, with a positive step.\<close>

function for_step :: "nat \<Rightarrow> nat \<Rightarrow> nat \<Rightarrow> (nat \<Rightarrow> 's \<Rightarrow> 's ub) \<Rightarrow> 's \<Rightarrow> 's ub" where
  "for_step i n d f s = (if i < n \<and> 0 < d then do { s' \<leftarrow> f i s; for_step (i + d) n d f s' } else Some s)"
  by pat_completeness auto
termination by (relation "measure (\<lambda>(i, n, d, f, s). n - i)") auto

declare for_step.simps [simp del]

section \<open>\<^verbatim>\<open>trans.c\<close>\<close>

text \<open>Two writes of one column of \<^verbatim>\<open>B\<close>, in rows \<open>j\<close> to \<open>j + 3\<close>, recur in all of the blocked loops.\<close>

definition wr4 :: "nat \<Rightarrow> nat \<Rightarrow> nat \<Rightarrow> nat \<Rightarrow> i32 \<Rightarrow> i32 \<Rightarrow> i32 \<Rightarrow> i32 \<Rightarrow> mat \<Rightarrow> mat ub" where
  "wr4 M N j m v1 v2 v3 v4 B = do {
     B \<leftarrow> wr M N B j m v1;
     B \<leftarrow> wr M N B (j + 1) m v2;
     B \<leftarrow> wr M N B (j + 2) m v3;
     wr M N B (j + 3) m v4
   }"

definition row8 :: "nat \<Rightarrow> nat \<Rightarrow> mat \<Rightarrow> nat \<Rightarrow> nat \<Rightarrow> mat \<Rightarrow> mat ub" where
  "row8 M N A j m B = do {
     tmp1 \<leftarrow> rd N M A m j;
     tmp2 \<leftarrow> rd N M A m (j + 1);
     tmp3 \<leftarrow> rd N M A m (j + 2);
     tmp4 \<leftarrow> rd N M A m (j + 3);
     tmp5 \<leftarrow> rd N M A m (j + 4);
     tmp6 \<leftarrow> rd N M A m (j + 5);
     tmp7 \<leftarrow> rd N M A m (j + 6);
     tmp8 \<leftarrow> rd N M A m (j + 7);
     B \<leftarrow> wr4 M N j m tmp1 tmp2 tmp3 tmp4 B;
     wr4 M N (j + 4) m tmp5 tmp6 tmp7 tmp8 B
   }"

definition transpose_32 :: "nat \<Rightarrow> nat \<Rightarrow> mat \<Rightarrow> mat \<Rightarrow> mat ub" where
  "transpose_32 M N A =
     for_step 0 N 24 (\<lambda>i. for_step 0 M 8 (\<lambda>j. for_step i (min (i + 24) N) 1 (\<lambda>m. row8 M N A j m)))"

text \<open>The three loops on an 8 by 8 block.  The first parks the upper right quarter of the block of \<^verbatim>\<open>A\<close> in
  the upper right quarter of the block of \<^verbatim>\<open>B\<close>.\<close>

definition block_up :: "nat \<Rightarrow> nat \<Rightarrow> mat \<Rightarrow> nat \<Rightarrow> nat \<Rightarrow> mat \<Rightarrow> mat ub" where
  "block_up M N A j m B = do {
     tmp1 \<leftarrow> rd N M A m j;
     tmp2 \<leftarrow> rd N M A m (j + 1);
     tmp3 \<leftarrow> rd N M A m (j + 2);
     tmp4 \<leftarrow> rd N M A m (j + 3);
     tmp5 \<leftarrow> rd N M A m (j + 4);
     tmp6 \<leftarrow> rd N M A m (j + 5);
     tmp7 \<leftarrow> rd N M A m (j + 6);
     tmp8 \<leftarrow> rd N M A m (j + 7);
     B \<leftarrow> wr4 M N j m tmp1 tmp2 tmp3 tmp4 B;
     wr4 M N j (m + 4) tmp5 tmp6 tmp7 tmp8 B
   }"

definition block_swap :: "nat \<Rightarrow> nat \<Rightarrow> mat \<Rightarrow> nat \<Rightarrow> nat \<Rightarrow> mat \<Rightarrow> mat ub" where
  "block_swap M N A i n B =
     (let m = i + 4 in do {
       tmp1 \<leftarrow> rd N M A m n;
       tmp2 \<leftarrow> rd N M A (m + 1) n;
       tmp3 \<leftarrow> rd N M A (m + 2) n;
       tmp4 \<leftarrow> rd N M A (m + 3) n;
       tmp5 \<leftarrow> rd M N B n m;
       tmp6 \<leftarrow> rd M N B n (m + 1);
       tmp7 \<leftarrow> rd M N B n (m + 2);
       tmp8 \<leftarrow> rd M N B n (m + 3);
       B \<leftarrow> wr M N B n m tmp1;
       B \<leftarrow> wr M N B n (m + 1) tmp2;
       B \<leftarrow> wr M N B n (m + 2) tmp3;
       B \<leftarrow> wr M N B n (m + 3) tmp4;
       B \<leftarrow> wr M N B (n + 4) (m - 4) tmp5;
       B \<leftarrow> wr M N B (n + 4) (m - 3) tmp6;
       B \<leftarrow> wr M N B (n + 4) (m - 2) tmp7;
       wr M N B (n + 4) (m - 1) tmp8
     })"

definition block_low :: "nat \<Rightarrow> nat \<Rightarrow> mat \<Rightarrow> nat \<Rightarrow> nat \<Rightarrow> mat \<Rightarrow> mat ub" where
  "block_low M N A j m B =
     (let n = j + 4 in do {
       tmp1 \<leftarrow> rd N M A m n;
       tmp2 \<leftarrow> rd N M A m (n + 1);
       tmp3 \<leftarrow> rd N M A m (n + 2);
       tmp4 \<leftarrow> rd N M A m (n + 3);
       wr4 M N n m tmp1 tmp2 tmp3 tmp4 B
     })"

definition block_64 :: "nat \<Rightarrow> nat \<Rightarrow> mat \<Rightarrow> nat \<Rightarrow> nat \<Rightarrow> mat \<Rightarrow> mat ub" where
  "block_64 M N A i j B = do {
     B \<leftarrow> for_step i (i + 4) 1 (block_up M N A j) B;
     B \<leftarrow> for_step j (j + 4) 1 (block_swap M N A i) B;
     for_step (i + 4) (i + 8) 1 (block_low M N A j) B
   }"

definition transpose_64 :: "nat \<Rightarrow> nat \<Rightarrow> mat \<Rightarrow> mat \<Rightarrow> mat ub" where
  "transpose_64 M N A = for_step 0 N 8 (\<lambda>i. for_step 0 M 8 (\<lambda>j. block_64 M N A i j))"

definition move_cell :: "nat \<Rightarrow> nat \<Rightarrow> mat \<Rightarrow> nat \<Rightarrow> nat \<Rightarrow> mat \<Rightarrow> mat ub" where
  "move_cell M N A i j B = do { tmp \<leftarrow> rd N M A i j; wr M N B j i tmp }"

definition transpose_61 :: "nat \<Rightarrow> nat \<Rightarrow> mat \<Rightarrow> mat \<Rightarrow> mat ub" where
  "transpose_61 M N A =
     for_step 0 N 18 (\<lambda>i. for_step 0 M 18 (\<lambda>j.
       for_step i (min (i + 18) N) 1 (\<lambda>m. for_step j (min (j + 18) M) 1 (\<lambda>n. move_cell M N A m n))))"

definition trans :: "nat \<Rightarrow> nat \<Rightarrow> mat \<Rightarrow> mat \<Rightarrow> mat ub" where
  "trans M N A = for_step 0 N 1 (\<lambda>i. for_step 0 M 1 (\<lambda>j. move_cell M N A i j))"

definition transpose_submit :: "nat \<Rightarrow> nat \<Rightarrow> mat \<Rightarrow> mat \<Rightarrow> mat ub" where
  "transpose_submit M N A B =
     (if M = 32 \<and> N = 32 then transpose_32 M N A B
      else if 64 = M \<and> 64 = N then transpose_64 M N A B
      else if M = 61 \<and> N = 67 then transpose_61 M N A B
      else trans M N A B)"

text \<open>A search loop with an early return.\<close>

function all_upto :: "nat \<Rightarrow> nat \<Rightarrow> (nat \<Rightarrow> bool ub) \<Rightarrow> bool ub" where
  "all_upto i n p = (if i < n then do { b \<leftarrow> p i; if b then all_upto (i + 1) n p else Some False } else Some True)"
  by pat_completeness auto
termination by (relation "measure (\<lambda>(i, n, p). n - i)") auto

declare all_upto.simps [simp del]

definition is_transpose :: "nat \<Rightarrow> nat \<Rightarrow> mat \<Rightarrow> mat \<Rightarrow> bool ub" where
  "is_transpose M N A B =
     all_upto 0 N (\<lambda>i. all_upto 0 M (\<lambda>j. do { a \<leftarrow> rd N M A i j; b \<leftarrow> rd M N B j i; Some (a = b) }))"

section \<open>The harness\<close>

definition correctTrans :: "nat \<Rightarrow> nat \<Rightarrow> mat \<Rightarrow> mat \<Rightarrow> mat ub" where
  "correctTrans M N A = for_step 0 N 1 (\<lambda>i. for_step 0 M 1 (\<lambda>j. move_cell M N A i j))"

definition validate :: "nat \<Rightarrow> nat \<Rightarrow> mat \<Rightarrow> mat \<Rightarrow> bool ub" where
  "validate M N A B = do {
     C \<leftarrow> correctTrans M N A (\<lambda>_ _. 0);
     all_upto 0 M (\<lambda>i. all_upto 0 N (\<lambda>j. do { b \<leftarrow> rd M N B i j; c \<leftarrow> rd M N C i j; Some (b = c) }))
   }"

record trans_func =
  func_ptr :: "nat \<Rightarrow> nat \<Rightarrow> mat \<Rightarrow> mat \<Rightarrow> mat ub"
  description :: string
  correct :: bool
  num_hits :: nat
  num_misses :: nat
  num_evictions :: nat

definition MAX_TRANS_FUNCS :: nat where "MAX_TRANS_FUNCS = 100"

text \<open>\<^verbatim>\<open>func_list\<close> up to \<^verbatim>\<open>func_counter\<close>; there is no check before the table is full.\<close>

definition registerTransFunction ::
  "(nat \<Rightarrow> nat \<Rightarrow> mat \<Rightarrow> mat \<Rightarrow> mat ub) \<Rightarrow> string \<Rightarrow> trans_func list \<Rightarrow> trans_func list ub" where
  "registerTransFunction f desc fs =
     (if length fs < MAX_TRANS_FUNCS
      then Some (fs @ [\<lparr>func_ptr = f, description = desc, correct = False, num_hits = 0, num_misses = 0,
                        num_evictions = 0\<rparr>])
      else None)"

definition registerFunctions :: "trans_func list \<Rightarrow> trans_func list ub" where
  "registerFunctions fs = do {
     fs \<leftarrow> registerTransFunction transpose_submit ''Transpose submission'' fs;
     registerTransFunction trans ''Simple row-wise scan transpose'' fs
   }"

text \<open>\<^verbatim>\<open>rand\<close> is a sequence of draws; \<open>k\<close> is the next one.\<close>

definition initMatrix :: "(nat \<Rightarrow> i32) \<Rightarrow> nat \<Rightarrow> nat \<Rightarrow> mat \<Rightarrow> mat \<Rightarrow> (mat \<times> mat) ub" where
  "initMatrix rnd M N A B =
     map_option (\<lambda>(A, B, k). (A, B))
       (for_step 0 N 1 (\<lambda>i. for_step 0 M 1 (\<lambda>j (A, B, k). do {
          A \<leftarrow> wr N M A i j (rnd k);
          B \<leftarrow> wr M N B j i (rnd (k + 1));
          Some (A, B, k + 2)
        })) (A, B, 0))"

definition randMatrix :: "(nat \<Rightarrow> i32) \<Rightarrow> nat \<Rightarrow> nat \<Rightarrow> mat \<Rightarrow> mat ub" where
  "randMatrix rnd M N A =
     map_option fst
       (for_step 0 N 1 (\<lambda>i. for_step 0 M 1 (\<lambda>j (A, k). do { A \<leftarrow> wr N M A i j (rnd k); Some (A, k + 1) })) (A, 0))"

text \<open>The loop of \<^verbatim>\<open>tracegen\<close> over all registered functions from the \<open>i\<close>-th: the exit status.\<close>

fun run_funcs :: "nat \<Rightarrow> trans_func list \<Rightarrow> nat \<Rightarrow> nat \<Rightarrow> mat \<Rightarrow> mat \<Rightarrow> nat ub" where
  "run_funcs i [] M N A B = Some 0"
| "run_funcs i (f # fs) M N A B = do {
     B \<leftarrow> func_ptr f M N A B;
     ok \<leftarrow> validate M N A B;
     if \<not> ok then Some (i + 1) else run_funcs (i + 1) fs M N A B
   }"

text \<open>\<^verbatim>\<open>main\<close> of \<^verbatim>\<open>tracegen\<close> after the options; \<^verbatim>\<open>-F\<close> chooses one function.  The arrays are 256 by 256
  and are passed as \<open>M\<close> by \<open>N\<close> matrices.\<close>

definition tracegen_main :: "(nat \<Rightarrow> i32) \<Rightarrow> nat option \<Rightarrow> nat \<Rightarrow> nat \<Rightarrow> nat ub" where
  "tracegen_main rnd selected M N = do {
     fs \<leftarrow> registerFunctions [];
     (A, B) \<leftarrow> if M * N \<le> 256 * 256 then initMatrix rnd M N (\<lambda>_ _. 0) (\<lambda>_ _. 0) else None;
     (case selected of
        None \<Rightarrow> run_funcs 0 fs M N A B
      | Some i \<Rightarrow> if i < length fs then do {
          B \<leftarrow> func_ptr (fs ! i) M N A B;
          ok \<leftarrow> validate M N A B;
          Some (if \<not> ok then i + 1 else 0)
        } else None)
   }"

section \<open>Copied cells\<close>

text \<open>\<open>B\<close> after the cells \<open>(row, column)\<close> of \<open>S\<close> of \<open>A\<close> are moved to their transposed places.\<close>

definition copied :: "(nat \<times> nat) set \<Rightarrow> mat \<Rightarrow> mat \<Rightarrow> mat" where
  "copied S A B = (\<lambda>r c. if (c, r) \<in> S then A c r else B r c)"

lemma copied_copied [simp]: "copied T A (copied S A B) = copied (S \<union> T) A B"
  by (auto simp: copied_def fun_eq_iff)

lemma copied_empty [simp]: "copied {} A B = B"
  by (simp add: copied_def)

lemma move_cell_copied: "i < N \<Longrightarrow> j < M \<Longrightarrow> move_cell M N A i j B = Some (copied {(i, j)} A B)"
  by (auto simp: move_cell_def rd_def wr_def copied_def fun_eq_iff)

definition steps :: "nat \<Rightarrow> nat \<Rightarrow> nat \<Rightarrow> nat set" where
  "steps lo n d = {i. lo \<le> i \<and> i < n \<and> d dvd (i - lo)}"

lemma steps_rec: "0 < d \<Longrightarrow> steps lo n d = (if lo < n then insert lo (steps (lo + d) n d) else {})"
proof (intro set_eqI)
  fix i assume d: "0 < d"
  have "lo + d \<le> i" if "lo < i" "d dvd i - lo" using that dvd_imp_le [of d "i - lo"] by simp
  moreover have "d dvd i - lo \<longleftrightarrow> d dvd i - (lo + d)" if "lo + d \<le> i"
  proof -
    have "\<not> i - lo < d" using that by simp
    then show ?thesis using dvd_minus_self [of d "i - lo"] by simp
  qed
  ultimately show "i \<in> steps lo n d \<longleftrightarrow> i \<in> (if lo < n then insert lo (steps (lo + d) n d) else {})"
    by (auto simp: steps_def d le_less)
qed

lemma for_copied:
  assumes "\<And>i B. i \<in> steps lo n d \<Longrightarrow> f i B = Some (copied (S i) A B)" and "0 < d"
  shows "for_step lo n d f B = Some (copied (\<Union>i \<in> steps lo n d. S i) A B)"
  using assms
proof (induction lo n d f B rule: for_step.induct)
  case (1 lo n d f B)
  show ?case
  proof (cases "lo < n")
    case True
    have f: "f lo B = Some (copied (S lo) A B)" using 1(2) True by (simp add: steps_def)
    have "for_step (lo + d) n d f (copied (S lo) A B) =
        Some (copied (\<Union>i \<in> steps (lo + d) n d. S i) A (copied (S lo) A B))"
      using 1(1) [of "copied (S lo) A B"] 1(2,3) True f steps_rec [OF 1(3), of lo n] by auto
    then show ?thesis using True 1(3) f by (subst for_step.simps) (simp add: steps_rec [of d lo n])
  qed (use 1(3) in \<open>simp add: for_step.simps steps_rec\<close>)
qed

lemma steps_1: "steps lo n 1 = {lo..<n}" "steps lo n (Suc 0) = {lo..<n}"
  by (auto simp: steps_def)

section \<open>The blocked loops\<close>

lemma for_count:
  assumes "\<And>t. t < k \<Longrightarrow> f (a + t) (g t) = Some (g (Suc t))"
  shows "for_step a (a + k) 1 f (g 0) = Some (g k)"
proof -
  have "for_step (a + t) (a + k) 1 f (g t) = Some (g k)" if "t \<le> k" for t
    using that
  proof (induction "k - t" arbitrary: t)
    case 0
    then show ?case by (simp add: for_step.simps)
  next
    case (Suc n)
    then have "t < k" "n = k - Suc t" by auto
    then show ?case using Suc.hyps(1) [of "Suc t"] assms by (subst for_step.simps) simp
  qed
  from this [of 0] show ?thesis by simp
qed

lemma wr_in: "i < rows \<Longrightarrow> j < cols \<Longrightarrow> wr rows cols X i j v = Some (X(i := (X i)(j := v)))"
  by (simp add: wr_def)

lemma rd_in: "i < rows \<Longrightarrow> j < cols \<Longrightarrow> rd rows cols X i j = Some (X i j)"
  by (simp add: rd_def)

text \<open>What \<^verbatim>\<open>wr4\<close> writes, when the values are those of a function of the row.\<close>

lemma wr4_val:
  assumes "j + 3 < M" and "m < N"
  shows "wr4 M N j m (v 0) (v 1) (v 2) (v 3) B =
    Some (\<lambda>r c. if c = m \<and> j \<le> r \<and> r < j + 4 then v (r - j) else B r c)"
proof -
  have r: "r - j \<in> {0, 1, 2, 3}" if "j \<le> r" "r < j + 4" for r using that by auto
  have "wr4 M N j m (v 0) (v 1) (v 2) (v 3) B =
    Some (((B(j := (B j)(m := v 0)))(j + 1 := (B (j + 1))(m := v 1)))
      (j + 2 := (B (j + 2))(m := v 2), j + 3 := (B (j + 3))(m := v 3)))"
    using assms by (simp add: wr4_def wr_in)
  also have "\<dots> = Some (\<lambda>r c. if c = m \<and> j \<le> r \<and> r < j + 4 then v (r - j) else B r c)"
    by (auto simp: fun_eq_iff numeral_eq_Suc dest: r less_antisym split: if_splits)
  finally show ?thesis .
qed

lemma row8_copied:
  assumes "j + 7 < M" and "m < N"
  shows "row8 M N A j m B = Some (copied ({m} \<times> {j..<j + 8}) A B)"
proof -
  have "row8 M N A j m B = do {
      B \<leftarrow> wr4 M N j m (A m (j + 0)) (A m (j + 1)) (A m (j + 2)) (A m (j + 3)) B;
      wr4 M N (j + 4) m (A m (j + 4 + 0)) (A m (j + 4 + 1)) (A m (j + 4 + 2)) (A m (j + 4 + 3)) B }"
    using assms by (simp add: row8_def rd_in ac_simps)
  then show ?thesis
    using assms wr4_val [of j M m N "\<lambda>k. A m (j + k)" B] wr4_val [of "j + 4" M m N "\<lambda>k. A m (j + 4 + k)"]
    by (auto simp: copied_def fun_eq_iff)
qed

definition parked :: "mat \<Rightarrow> mat \<Rightarrow> nat \<Rightarrow> nat \<Rightarrow> nat \<Rightarrow> mat" where
  "parked A B i j t = (\<lambda>r c.
     if j \<le> r \<and> r < j + 4 \<and> i \<le> c \<and> c < i + t then A c r
     else if j \<le> r \<and> r < j + 4 \<and> i + 4 \<le> c \<and> c < i + 4 + t then A (c - 4) (r + 4)
     else B r c)"

lemma block_up_step:
  assumes "j + 7 < M" and "i + 7 < N" and "t < 4"
  shows "block_up M N A j (i + t) (parked A B i j t) = Some (parked A B i j (Suc t))"
proof -
  let ?m = "i + t"
  have "block_up M N A j ?m X = do {
      X \<leftarrow> wr4 M N j ?m (A ?m (j + 0)) (A ?m (j + 1)) (A ?m (j + 2)) (A ?m (j + 3)) X;
      wr4 M N j (?m + 4) (A ?m (j + 4 + 0)) (A ?m (j + 4 + 1)) (A ?m (j + 4 + 2)) (A ?m (j + 4 + 3)) X }" for X
    using assms by (simp add: block_up_def rd_in ac_simps)
  then show ?thesis
    using assms wr4_val [of j M ?m N "\<lambda>k. A ?m (j + k)"] wr4_val [of j M "?m + 4" N "\<lambda>k. A ?m (j + 4 + k)"]
    by (auto simp: parked_def fun_eq_iff ac_simps)
qed

definition swapped :: "mat \<Rightarrow> mat \<Rightarrow> nat \<Rightarrow> nat \<Rightarrow> nat \<Rightarrow> mat" where
  "swapped A B i j t = (\<lambda>r c.
     if j \<le> r \<and> r < j + t \<and> i + 4 \<le> c \<and> c < i + 8 then A c r
     else if j + 4 \<le> r \<and> r < j + 4 + t \<and> i \<le> c \<and> c < i + 4 then A c r
     else parked A B i j 4 r c)"

lemma block_swap_step:
  assumes "j + 7 < M" and "i + 7 < N" and "t < 4"
  shows "block_swap M N A i (j + t) (swapped A B i j t) = Some (swapped A B i j (Suc t))"
proof -
  let ?X = "swapped A B i j t" and ?n = "j + t"
  have tmp: "?X ?n (i + 4 + k) = A (i + k) (?n + 4)" if "k < 4" for k
    using that assms by (auto simp: swapped_def parked_def)
  have row1: "?X(?n := (?X ?n)(i + 4 := A (i + 4) ?n, i + 5 := A (i + 5) ?n, i + 6 := A (i + 6) ?n, i + 7 := A (i + 7) ?n)) =
      (\<lambda>r c. if r = ?n \<and> i + 4 \<le> c \<and> c < i + 8 then A c r else ?X r c)" (is "_ = ?Y")
    by (auto simp: fun_eq_iff numeral_eq_Suc less_Suc_eq)
  have row2: "?Y(?n + 4 := (?Y (?n + 4))(i := A i (?n + 4), i + 1 := A (i + 1) (?n + 4), i + 2 := A (i + 2) (?n + 4), i + 3 := A (i + 3) (?n + 4))) =
      (\<lambda>r c. if r = ?n + 4 \<and> i \<le> c \<and> c < i + 4 then A c r else ?Y r c)"
    by (auto simp: fun_eq_iff numeral_eq_Suc less_Suc_eq)
  have fin: "(\<lambda>r c. if r = ?n + 4 \<and> i \<le> c \<and> c < i + 4 then A c r else ?Y r c) = swapped A B i j (Suc t)"
    using assms by (auto simp: swapped_def fun_eq_iff)
  show ?thesis
    using assms tmp [of 0] tmp [of 1] tmp [of 2] tmp [of 3] row1 row2 fin
    by (simp add: block_swap_def rd_in wr_in Let_def ac_simps)
qed

definition lowered :: "mat \<Rightarrow> mat \<Rightarrow> nat \<Rightarrow> nat \<Rightarrow> nat \<Rightarrow> mat" where
  "lowered A B i j t = (\<lambda>r c. if j + 4 \<le> r \<and> r < j + 8 \<and> i + 4 \<le> c \<and> c < i + 4 + t then A c r else swapped A B i j 4 r c)"

lemma block_low_step:
  assumes "j + 7 < M" and "i + 7 < N" and "t < 4"
  shows "block_low M N A j (i + 4 + t) (lowered A B i j t) = Some (lowered A B i j (Suc t))"
proof -
  let ?m = "i + 4 + t"
  have "block_low M N A j ?m X =
      wr4 M N (j + 4) ?m (A ?m (j + 4 + 0)) (A ?m (j + 4 + 1)) (A ?m (j + 4 + 2)) (A ?m (j + 4 + 3)) X" for X
    using assms by (simp add: block_low_def rd_in Let_def ac_simps)
  then show ?thesis
    using assms wr4_val [of "j + 4" M ?m N "\<lambda>k. A ?m (j + 4 + k)"]
    by (auto simp: lowered_def fun_eq_iff)
qed

lemma block_64_copied:
  assumes "j + 7 < M" and "i + 7 < N"
  shows "block_64 M N A i j B = Some (copied ({i..<i + 8} \<times> {j..<j + 8}) A B)"
proof -
  have 1: "for_step i (i + 4) 1 (block_up M N A j) (parked A B i j 0) = Some (parked A B i j 4)"
    by (rule for_count) (rule block_up_step [OF assms])
  have 2: "for_step j (j + 4) 1 (block_swap M N A i) (swapped A B i j 0) = Some (swapped A B i j 4)"
    by (rule for_count) (rule block_swap_step [OF assms])
  have 3: "for_step (i + 4) (i + 4 + 4) 1 (block_low M N A j) (lowered A B i j 0) = Some (lowered A B i j 4)"
    by (rule for_count) (rule block_low_step [OF assms])
  have 0: "parked A B i j 0 = B" "swapped A B i j 0 = parked A B i j 4" "lowered A B i j 0 = swapped A B i j 4"
    by (auto simp: parked_def swapped_def lowered_def fun_eq_iff)
  have "lowered A B i j 4 = copied ({i..<i + 8} \<times> {j..<j + 8}) A B"
    by (auto simp: lowered_def swapped_def parked_def copied_def fun_eq_iff)
  then show ?thesis using 1 2 3 by (simp add: block_64_def 0 ac_simps)
qed

section \<open>Every loop nest moves every cell\<close>

lemma steps_block: "i \<in> steps 0 n d \<Longrightarrow> d dvd n \<Longrightarrow> i + d \<le> n"
  by (auto simp: steps_def dvd_def) (metis Suc_leI mult_Suc_right mult_le_mono2 add.commute)

lemma steps_cover: "0 < d \<Longrightarrow> (\<Union>i \<in> steps 0 n d. {i..<min (i + d) n}) = {0..<n}"
proof (intro set_eqI)
  fix x assume d: "0 < d"
  have "x - x mod d \<in> steps 0 n d \<and> x - x mod d \<le> x \<and> x < x - x mod d + d" if "x < n"
    using that d mod_less_divisor [OF d, of x] mod_less_eq_dividend [of x d] dvd_minus_mod [of d x] by (auto simp: steps_def)
  then show "x \<in> (\<Union>i \<in> steps 0 n d. {i..<min (i + d) n}) \<longleftrightarrow> x \<in> {0..<n}" by fastforce
qed

lemma steps_cover_dvd: "0 < d \<Longrightarrow> d dvd n \<Longrightarrow> (\<Union>i \<in> steps 0 n d. {i..<i + d}) = {0..<n}"
  using steps_cover [of d n] steps_block [of _ n d] by (simp add: min_absorb1)

abbreviation (input) "all_cells M N \<equiv> {0..<N} \<times> {0..<M :: nat}"

lemma trans_copied: "trans M N A B = Some (copied (all_cells M N) A B)"
proof -
  have 1: "for_step 0 M 1 (\<lambda>j. move_cell M N A i j) B = Some (copied (\<Union>j \<in> steps 0 M 1. {(i, j)}) A B)"
    if "i < N" for i B using that by (intro for_copied) (auto simp: steps_1 move_cell_copied)
  have "trans M N A B = Some (copied (\<Union>i \<in> steps 0 N 1. \<Union>j \<in> steps 0 M 1. {(i, j)}) A B)"
    unfolding trans_def by (rule for_copied) (simp_all add: 1 steps_1(1) del: One_nat_def)
  moreover have "(\<Union>i \<in> steps 0 N 1. \<Union>j \<in> steps 0 M 1. {(i, j)}) = all_cells M N" by (auto simp: steps_1)
  ultimately show ?thesis by simp
qed

lemma transpose_32_copied: "transpose_32 32 32 A B = Some (copied (all_cells 32 32) A B)"
proof -
  have 1: "for_step i (min (i + 24) 32) 1 (\<lambda>m. row8 32 32 A j m) B =
      Some (copied (\<Union>m \<in> steps i (min (i + 24) 32) 1. {m} \<times> {j..<j + 8}) A B)" if "j \<in> steps 0 32 8" for i j B
    using steps_block [OF that] by (intro for_copied) (auto simp: steps_1 intro!: row8_copied)
  have 2: "for_step 0 32 8 (\<lambda>j. for_step i (min (i + 24) 32) 1 (\<lambda>m. row8 32 32 A j m)) B =
      Some (copied (\<Union>j \<in> steps 0 32 8. \<Union>m \<in> steps i (min (i + 24) 32) 1. {m} \<times> {j..<j + 8}) A B)" for i B
    by (rule for_copied) (simp_all add: 1 del: One_nat_def)
  have 3: "transpose_32 32 32 A B = Some (copied (\<Union>i \<in> steps 0 32 24. \<Union>j \<in> steps 0 32 8.
      \<Union>m \<in> steps i (min (i + 24) 32) 1. {m} \<times> {j..<j + 8}) A B)"
    unfolding transpose_32_def by (rule for_copied) (simp_all add: 2 del: One_nat_def)
  have "(\<Union>i \<in> steps 0 32 24. \<Union>j \<in> steps 0 32 8. \<Union>m \<in> steps i (min (i + 24) 32) 1. {m} \<times> {j..<j + 8}) =
      (\<Union>i \<in> steps 0 32 24. {i..<min (i + 24) 32}) \<times> (\<Union>j \<in> steps 0 32 8. {j..<j + 8})"
    unfolding steps_1 by blast
  then show ?thesis using steps_cover [of 24 32] steps_cover_dvd [of 8 32] 3 by simp
qed

lemma transpose_64_copied: "transpose_64 64 64 A B = Some (copied (all_cells 64 64) A B)"
proof -
  have 1: "for_step 0 64 8 (\<lambda>j. block_64 64 64 A i j) B =
      Some (copied (\<Union>j \<in> steps 0 64 8. {i..<i + 8} \<times> {j..<j + 8}) A B)" if "i \<in> steps 0 64 8" for i B
  proof (rule for_copied)
    fix j B assume "j \<in> steps 0 64 8"
    then show "block_64 64 64 A i j B = Some (copied ({i..<i + 8} \<times> {j..<j + 8}) A B)"
      using steps_block [OF that] steps_block [of j 64 8] by (intro block_64_copied) simp_all
  qed simp
  have 2: "transpose_64 64 64 A B = Some (copied (\<Union>i \<in> steps 0 64 8. \<Union>j \<in> steps 0 64 8. {i..<i + 8} \<times> {j..<j + 8}) A B)"
    unfolding transpose_64_def by (rule for_copied) (simp_all add: 1)
  have "(\<Union>i \<in> steps 0 64 8. \<Union>j \<in> steps 0 64 8. {i..<i + 8} \<times> {j..<j + 8}) =
      (\<Union>i \<in> steps 0 64 8. {i..<i + 8}) \<times> (\<Union>j \<in> steps 0 64 8. {j..<j + 8})" by blast
  then show ?thesis using steps_cover_dvd [of 8 64] 2 by simp
qed

lemma transpose_61_copied: "transpose_61 61 67 A B = Some (copied (all_cells 61 67) A B)"
proof -
  have 1: "for_step j (min (j + 18) 61) 1 (\<lambda>n. move_cell 61 67 A m n) B =
      Some (copied (\<Union>n \<in> steps j (min (j + 18) 61) 1. {(m, n)}) A B)" if "m < 67" for j m B
    using that by (intro for_copied) (auto simp: steps_1 intro!: move_cell_copied)
  have 2: "for_step i (min (i + 18) 67) 1 (\<lambda>m. for_step j (min (j + 18) 61) 1 (\<lambda>n. move_cell 61 67 A m n)) B =
      Some (copied (\<Union>m \<in> steps i (min (i + 18) 67) 1. \<Union>n \<in> steps j (min (j + 18) 61) 1. {(m, n)}) A B)" for i j B
    by (rule for_copied) (simp_all add: 1 steps_1 del: One_nat_def)
  have 3: "for_step 0 61 18 (\<lambda>j. for_step i (min (i + 18) 67) 1 (\<lambda>m. for_step j (min (j + 18) 61) 1 (\<lambda>n. move_cell 61 67 A m n))) B =
      Some (copied (\<Union>j \<in> steps 0 61 18. \<Union>m \<in> steps i (min (i + 18) 67) 1. \<Union>n \<in> steps j (min (j + 18) 61) 1. {(m, n)}) A B)" for i B
    by (rule for_copied) (simp_all add: 2 del: One_nat_def)
  have 4: "transpose_61 61 67 A B = Some (copied (\<Union>i \<in> steps 0 67 18. \<Union>j \<in> steps 0 61 18.
      \<Union>m \<in> steps i (min (i + 18) 67) 1. \<Union>n \<in> steps j (min (j + 18) 61) 1. {(m, n)}) A B)"
    unfolding transpose_61_def by (rule for_copied) (simp_all add: 3 del: One_nat_def)
  have "(\<Union>i \<in> steps 0 67 18. \<Union>j \<in> steps 0 61 18.
      \<Union>m \<in> steps i (min (i + 18) 67) 1. \<Union>n \<in> steps j (min (j + 18) 61) 1. {(m, n)}) =
      (\<Union>i \<in> steps 0 67 18. {i..<min (i + 18) 67}) \<times> (\<Union>j \<in> steps 0 61 18. {j..<min (j + 18) 61})"
    unfolding steps_1 by blast
  then show ?thesis using steps_cover [of 18 67] steps_cover [of 18 61] 4 by simp
qed

lemma submit_copied: "transpose_submit M N A B = Some (copied (all_cells M N) A B)"
  by (simp add: transpose_submit_def transpose_32_copied transpose_64_copied transpose_61_copied trans_copied)

lemma correctTrans_copied: "correctTrans M N A B = Some (copied (all_cells M N) A B)"
  using trans_copied by (simp add: correctTrans_def trans_def)

lemma all_upto_true: "(\<And>i. i < n \<Longrightarrow> p i = Some True) \<Longrightarrow> all_upto i n p = Some True"
  by (induction i n p rule: all_upto.induct) (subst all_upto.simps, simp)

lemma all_upto_false:
  assumes "\<And>i. i < n \<Longrightarrow> p i = Some (q i)" and "i \<le> k" "k < n" and "\<not> q k"
  shows "all_upto i n p = Some False"
  using assms
proof (induction i n p rule: all_upto.induct)
  case (1 i n p)
  then show ?case by (subst all_upto.simps) (cases "i = k"; auto simp: not_less_eq_eq Suc_le_eq)
qed

lemma all_upto_val: "(\<And>i. i < n \<Longrightarrow> p i = Some (q i)) \<Longrightarrow> all_upto 0 n p = Some (\<forall>i<n. q i)"
  using all_upto_true [of n p 0] all_upto_false [of n p q 0] by (cases "\<forall>i<n. q i") auto

lemma is_transpose_val: "is_transpose M N A B = Some (\<forall>i<N. \<forall>j<M. A i j = B j i)"
proof -
  have "all_upto 0 M (\<lambda>j. do { a \<leftarrow> rd N M A i j; b \<leftarrow> rd M N B j i; Some (a = b) }) = Some (\<forall>j<M. A i j = B j i)"
    if "i < N" for i using that by (intro all_upto_val) (simp add: rd_in)
  then show ?thesis unfolding is_transpose_def by (rule all_upto_val)
qed

lemma validate_val: "validate M N A B = Some (\<forall>j<M. \<forall>i<N. B j i = A i j)"
proof -
  let ?C = "copied (all_cells M N) A (\<lambda>_ _. 0)"
  have "all_upto 0 N (\<lambda>i. do { b \<leftarrow> rd M N B j i; c \<leftarrow> rd M N ?C j i; Some (b = c) }) = Some (\<forall>i<N. B j i = A i j)"
    if "j < M" for j using that by (intro all_upto_val) (simp add: rd_in copied_def)
  then have "all_upto 0 M (\<lambda>j. all_upto 0 N (\<lambda>i. do { b \<leftarrow> rd M N B j i; c \<leftarrow> rd M N ?C j i; Some (b = c) })) =
      Some (\<forall>j<M. \<forall>i<N. B j i = A i j)" by (rule all_upto_val)
  then show ?thesis by (simp add: validate_def correctTrans_copied)
qed

lemma for_step_total:
  assumes "\<And>i s. lo \<le> i \<Longrightarrow> i < n \<Longrightarrow> \<exists>s'. f i s = Some s'"
  shows "\<exists>s'. for_step lo n d f s = Some s'"
  using assms
proof (induction lo n d f s rule: for_step.induct)
  case (1 lo n d f s)
  show ?case
  proof (cases "lo < n \<and> 0 < d")
    case True
    then obtain s1 where s1: "f lo s = Some s1" using 1(2) [of lo s] by auto
    have "\<exists>s'. for_step (lo + d) n d f s1 = Some s'" by (rule 1(1) [OF True]) (use 1(2) s1 in auto)
    then show ?thesis using True s1 by (subst for_step.simps) simp
  next
    case False
    then show ?thesis by (subst for_step.simps) (metis)
  qed
qed

lemma initMatrix_total: "\<exists>A' B'. initMatrix rnd M N A B = Some (A', B')"
proof -
  have 1: "\<exists>s'. for_step 0 M 1 (\<lambda>j (A, B, k). do {
      A \<leftarrow> wr N M A i j (rnd k); B \<leftarrow> wr M N B j i (rnd (k + 1)); Some (A, B, k + 2) }) s = Some s'" if "i < N" for i s
    using that by (intro for_step_total) (auto simp: wr_in split: prod.splits)
  have "\<exists>s'. for_step 0 N 1 (\<lambda>i. for_step 0 M 1 (\<lambda>j (A, B, k). do {
      A \<leftarrow> wr N M A i j (rnd k); B \<leftarrow> wr M N B j i (rnd (k + 1)); Some (A, B, k + 2) })) (A, B, 0) = Some s'"
    by (rule for_step_total) (rule 1)
  then show ?thesis unfolding initMatrix_def by auto
qed

lemma tracegen_runs:
  assumes "M * N \<le> 256 * 256" and "sel \<in> {None, Some 0, Some 1}"
  shows "tracegen_main rnd sel M N = Some 0"
proof -
  obtain A B where ab: "initMatrix rnd M N (\<lambda>_ _. 0) (\<lambda>_ _. 0) = Some (A, B)"
    using initMatrix_total by blast
  have reg: "registerFunctions [] = Some
    [\<lparr>func_ptr = transpose_submit, description = ''Transpose submission'', correct = False, num_hits = 0,
       num_misses = 0, num_evictions = 0\<rparr>,
     \<lparr>func_ptr = trans, description = ''Simple row-wise scan transpose'', correct = False, num_hits = 0,
       num_misses = 0, num_evictions = 0\<rparr>]"
    by (simp add: registerFunctions_def registerTransFunction_def MAX_TRANS_FUNCS_def)
  have val: "validate M N A (copied (all_cells M N) A X) = Some True" for X
    by (simp add: validate_val copied_def)
  show ?thesis using assms ab by (auto simp: tracegen_main_def reg submit_copied trans_copied val)
qed

section \<open>Properties\<close>

text \<open>C15: \<^verbatim>\<open>transpose_submit\<close> ends, for every size, in exactly the matrix that the baseline
  \<^verbatim>\<open>correctTrans\<close> of the harness computes: every cell of \<open>A\<close> stands transposed in \<open>B\<close>, the cells outside
  the declared dimensions are untouched, no access leaves the matrices, and \<^verbatim>\<open>is_transpose\<close> confirms it.
  For 64 by 64 this includes the block loops that park a quarter of each block in \<open>B\<close> itself.\<close>

theorem transpose_submit_correct:
  "\<exists>B'. transpose_submit M N A B = Some B' \<and> correctTrans M N A B = Some B' \<and>
     (\<forall>r c. B' r c = (if r < M \<and> c < N then A c r else B r c)) \<and> is_transpose M N A B' = Some True"
  by (intro exI [of _ "copied (all_cells M N) A B"])
     (auto simp: submit_copied correctTrans_copied is_transpose_val copied_def)

text \<open>C16: \<^verbatim>\<open>tracegen\<close> accepts both registered functions: for all sizes that fit its arrays, whatever
  \<^verbatim>\<open>rand\<close> fills them with and whichever function \<^verbatim>\<open>-F\<close> selects, its exit status is 0.\<close>

theorem tracegen_accepts:
  assumes "M * N \<le> 256 * 256" and "sel \<in> {None, Some 0, Some 1}"
  shows "tracegen_main rnd sel M N = Some 0"
  using assms by (rule tracegen_runs)

theorem tracegen_accepts_witness: "tracegen_main of_nat (Some 0) 61 67 = Some 0"
  using tracegen_accepts [of 61 67 "Some 0" of_nat] by simp

end
