(* ===== verification/Csim.thy ===== *)
theory Csim
  imports CStdio "HOL-Library.Signed_Division" "HOL-Library.Multiset"
begin

text \<open>
  The cache simulator \<^verbatim>\<open>lab8/csim.c\<close>.  The array \<^verbatim>\<open>cache\<close> is a list of \<^verbatim>\<open>long long\<close> values, a tag and
  an age per line, sets in order; the list may be longer than the allocated block, and what follows
  the block is memory the program does not own.  \<^term>\<open>None\<close> is an access outside the list, a division
  by zero or a signed overflow.
\<close>

section \<open>One access\<close>

record csim =
  cache :: "int list"
  hitCount :: int
  missCount :: int
  evictionCount :: int

definition start_idx :: "int \<Rightarrow> int \<Rightarrow> int" where
  "start_idx E index = index * 2 * E"

definition end_idx :: "int \<Rightarrow> int \<Rightarrow> int" where
  "end_idx E index = (index + 1) * 2 * E"

text \<open>The locals of the search loop: the hit if there is one, the first empty line, the oldest line.\<close>

record scan =
  sc_hit :: "int option"
  sc_miss :: bool
  sc_last :: int
  sc_miss_in :: int
  sc_evict_in :: int

function scan_lines :: "int list \<Rightarrow> int \<Rightarrow> int \<Rightarrow> int \<Rightarrow> scan \<Rightarrow> scan ub" where
  "scan_lines c tag fin j r =
     (if j < fin then do {
        t \<leftarrow> arr_get c j;
        h \<leftarrow> arr_get c (j + 1);
        if t = tag \<and> h \<noteq> 0 then Some (r\<lparr>sc_hit := Some j\<rparr>)
        else scan_lines c tag fin (j + 2)
          (if \<not> sc_miss r \<and> t = 0 \<and> h = 0 then r\<lparr>sc_miss := True, sc_miss_in := j\<rparr>
           else if h > sc_last r then r\<lparr>sc_last := to_int h, sc_evict_in := j\<rparr>
           else r)
      } else Some r)"
  by pat_completeness auto
termination by (relation "measure (\<lambda>(c, tag, fin, j, r). nat (fin - j))") auto

text \<open>The loops that make lines older: up to a bound, and on a hit while the ages are not zero.  The
  second one reads the age before it compares the index.\<close>

function bump_to :: "int list \<Rightarrow> int \<Rightarrow> int \<Rightarrow> int list ub" where
  "bump_to c fin j =
     (if j < fin then do { v \<leftarrow> arr_get c j; c' \<leftarrow> arr_set c j (v + 1); bump_to c' fin (j + 2) }
      else Some c)"
  by pat_completeness auto
termination by (relation "measure (\<lambda>(c, fin, j). nat (fin - j))") auto

function bump_while :: "int list \<Rightarrow> int \<Rightarrow> int \<Rightarrow> int list ub" where
  "bump_while c fin i = do {
     v \<leftarrow> arr_get c i;
     if v \<noteq> 0 \<and> i < fin then do { c' \<leftarrow> arr_set c i (v + 1); bump_while c' fin (i + 2) }
     else Some c
   }"
  by pat_completeness auto
termination by (relation "measure (\<lambda>(c, fin, i). nat (fin - i))") auto

declare scan_lines.simps [simp del] bump_to.simps [simp del] bump_while.simps [simp del]

definition put_line :: "int list \<Rightarrow> int \<Rightarrow> int \<Rightarrow> int list ub" where
  "put_line c j tag = do { c \<leftarrow> arr_set c j tag; arr_set c (j + 1) 1 }"

definition scan0 :: scan where
  "scan0 = \<lparr>sc_hit = None, sc_miss = False, sc_last = 0, sc_miss_in = 0, sc_evict_in = 0\<rparr>"

text \<open>The body of the \<^verbatim>\<open>switch\<close>, for the indices from \<open>start(index)\<close> to \<open>end(index)\<close>.\<close>

definition access_lines :: "int \<Rightarrow> int \<Rightarrow> int \<Rightarrow> csim \<Rightarrow> csim ub" where
  "access_lines lo fin tag st = do {
     r \<leftarrow> scan_lines (cache st) tag fin (to_int lo) scan0;
     (case sc_hit r of
        Some j \<Rightarrow> do {
          c \<leftarrow> bump_while (cache st) (fin + 1) (to_int (lo + 1));
          c \<leftarrow> arr_set c (j + 1) 1;
          Some (st\<lparr>cache := c, hitCount := hitCount st + 1\<rparr>)
        }
      | None \<Rightarrow>
          if sc_miss r then do {
            c \<leftarrow> arr_set (cache st) (sc_miss_in r) tag;
            c \<leftarrow> bump_to c (sc_miss_in r + 1) (to_int (lo + 1));
            c \<leftarrow> arr_set c (sc_miss_in r + 1) 1;
            Some (st\<lparr>cache := c, missCount := missCount st + 1\<rparr>)
          } else do {
            c \<leftarrow> bump_to (cache st) (fin + 1) (to_int (lo + 1));
            c \<leftarrow> put_line c (sc_evict_in r) tag;
            Some (st\<lparr>cache := c, missCount := missCount st + 1, evictionCount := evictionCount st + 1\<rparr>)
          })
   }"

definition addressCache :: "int \<Rightarrow> int \<Rightarrow> int \<Rightarrow> char \<Rightarrow> int \<Rightarrow> csim \<Rightarrow> csim ub" where
  "addressCache S E B action address st =
     (if B = 0 \<or> S = 0 \<or> \<not> int_ok (B * S) then None
      else
        let index = (address sdiv B) smod S;
            tag = address sdiv (B * S)
        in if action \<notin> {CHR ''L'', CHR ''M'', CHR ''S''} then Some st
           else do {
             st \<leftarrow> access_lines (start_idx E index) (end_idx E index) tag st;
             Some (if action = CHR ''M'' then st\<lparr>hitCount := hitCount st + 1\<rparr> else st)
           })"

section \<open>The trace file and \<^verbatim>\<open>main\<close>\<close>

text \<open>\<^verbatim>\<open>(int)pow(2, atoi(s))\<close>: a power that does not fit, or the conversion of one, is undefined.\<close>

definition pow2_arg :: "string \<Rightarrow> int ub" where
  "pow2_arg s =
     (let n = strto 10 s in if \<not> int_ok n \<or> n \<ge> 31 then None else Some (if n < 0 then 0 else 2 ^ nat n))"

text \<open>The successive results of \<^verbatim>\<open>getopt\<close> are a parameter (option and \<^verbatim>\<open>optarg\<close>; an exhausted list is
  -1), and so are the files.  The inner \<^term>\<open>None\<close> is the error return -1.\<close>

definition getInput :: "(string \<Rightarrow> string option) \<Rightarrow> (char \<times> string) list \<Rightarrow> (int \<times> int \<times> int \<times> string) option ub" where
  "getInput files opts =
     (case opts of
        (o1, a1) # opts1 \<Rightarrow>
          if o1 \<noteq> CHR ''s'' then Some None
          else do {
            S \<leftarrow> pow2_arg a1;
            (case opts1 of
               (o2, a2) # opts2 \<Rightarrow>
                 if o2 \<noteq> CHR ''E'' then Some None
                 else if \<not> int_ok (strto 10 a2) then None
                 else (case opts2 of
                    (o3, a3) # opts3 \<Rightarrow>
                      if o3 \<noteq> CHR ''b'' then Some None
                      else do {
                        B \<leftarrow> pow2_arg a3;
                        (case opts3 of
                           (o4, a4) # _ \<Rightarrow>
                             if o4 \<noteq> CHR ''t'' then Some None
                             else Some (map_option (\<lambda>f. (S, strto 10 a2, B, f)) (files a4))
                         | [] \<Rightarrow> Some None)
                      }
                  | [] \<Rightarrow> Some None)
             | [] \<Rightarrow> Some None)
          }
      | [] \<Rightarrow> Some None)"

text \<open>The static buffer \<^verbatim>\<open>line\<close> keeps what earlier lines left behind the terminator.  The copy to
  \<^verbatim>\<open>str[10]\<close> stops at the first comma.\<close>

definition line_buf :: "string \<Rightarrow> string \<Rightarrow> string" where
  "line_buf buf l = l @ CHR 0x00 # drop (length l + 1) buf"

definition line_address :: "string \<Rightarrow> int ub" where
  "line_address buf =
     (let s = takeWhile (\<lambda>c. c \<noteq> CHR '','') (drop 3 buf)
      in if length s > 10 \<or> length s = 10 \<and> CHR 0x00 \<notin> set s then None
         else Some (strto 16 (c_str s)))"

function trace_loop :: "int \<Rightarrow> int \<Rightarrow> int \<Rightarrow> string \<Rightarrow> string \<Rightarrow> csim \<Rightarrow> csim ub" where
  "trace_loop S E B buf content st =
     (if content = [] then Some st
      else let (l, rest) = fgets_line 99 content; buf = line_buf buf l
           in do {
             address \<leftarrow> line_address buf;
             st \<leftarrow> addressCache S E B (buf ! 1) address st;
             trace_loop S E B buf rest st
           })"
  by pat_completeness auto
termination
proof (relation "measure (\<lambda>(S, E, B, buf, content, st). length content)", goal_cases)
  case (2 S E B buf content st x l rest)
  then show ?case using fgets_line_length [of 99 content] by simp (metis snd_conv)
qed simp

declare trace_loop.simps [simp del]

text \<open>\<open>past\<close> is the memory behind the block of \<^verbatim>\<open>calloc\<close>, which fails for the huge size a negative
  \<^verbatim>\<open>E\<close> converts to.  The result is what \<^verbatim>\<open>printSummary\<close> gets.\<close>

definition csim_main ::
  "int list \<Rightarrow> (string \<Rightarrow> string option) \<Rightarrow> (char \<times> string) list \<Rightarrow> (int \<times> int \<times> int) option ub" where
  "csim_main past files opts = do {
     inp \<leftarrow> getInput files opts;
     (case inp of
        None \<Rightarrow> Some None
      | Some (S, E, B, content) \<Rightarrow>
          if \<not> int_ok (E * 2) then None
          else do {
            st \<leftarrow> trace_loop S E B (replicate 120 (CHR 0x00)) content
                   \<lparr>cache = (if E < 0 then [] else replicate (nat (S * E * 2)) 0 @ past), hitCount = 0, missCount = 0, evictionCount = 0\<rparr>;
            Some (Some (hitCount st, missCount st, evictionCount st))
          })
   }"

end
