(* ===== verification/Csim_Lru.thy ===== *)
theory Csim_Lru
  imports Csim
begin

text \<open>
  The simulator of \<^verbatim>\<open>lab8/csim.c\<close> implements a set-associative cache with least-recently-used
  replacement: each set is a list of tags, most recently used first.
\<close>

section \<open>The specification\<close>

datatype access = Hit | Miss | Evict

definition lru_access :: "nat \<Rightarrow> int \<Rightarrow> int list \<Rightarrow> access \<times> int list" where
  "lru_access E tag s =
     (if tag \<in> set s then (Hit, tag # remove1 tag s)
      else if length s < E then (Miss, tag # s)
      else (Evict, tag # butlast s))"

text \<open>Hits, misses and evictions; a modification is a load and a store, the second always a hit.\<close>

record lru =
  lru_sets :: "int list list"
  lru_hits :: nat
  lru_misses :: nat
  lru_evicts :: nat

definition is_access :: "char \<Rightarrow> bool" where
  "is_access a \<longleftrightarrow> a \<in> {CHR ''L'', CHR ''M'', CHR ''S''}"

definition lru_step :: "int \<Rightarrow> nat \<Rightarrow> int \<Rightarrow> char \<times> int \<Rightarrow> lru \<Rightarrow> lru" where
  "lru_step S E B acc s =
     (case acc of (a, addr) \<Rightarrow>
        if \<not> is_access a then s
        else let i = nat (addr div B mod S);
                 (res, set') = lru_access E (addr div (B * S)) (lru_sets s ! i)
             in \<lparr>lru_sets = (lru_sets s)[i := set'],
                 lru_hits = lru_hits s + of_bool (res = Hit) + of_bool (a = CHR ''M''),
                 lru_misses = lru_misses s + of_bool (res \<noteq> Hit),
                 lru_evicts = lru_evicts s + of_bool (res = Evict)\<rparr>)"

section \<open>A set in memory\<close>

definition flat :: "(int \<times> int) list \<Rightarrow> int list" where
  "flat ls = concat (map (\<lambda>(t, h). [t, h]) ls)"

definition older :: "int \<times> int \<Rightarrow> int \<times> int" where
  "older l = (fst l, snd l + 1)"

lemma flat_simps [simp]: "flat [] = []" "flat (l # ls) = fst l # snd l # flat ls" "flat (ls @ ms) = flat ls @ flat ms"
  by (auto simp: flat_def split: prod.splits)

lemma length_flat [simp]: "length (flat ls) = 2 * length ls"
  by (induction ls) auto

lemma flat_replicate [simp]: "flat (replicate n (0, 0)) = replicate (2 * n) 0"
  by (induction n) auto

lemma fst_older [simp]: "fst (older l) = fst l" "snd (older l) = snd l + 1"
  by (simp_all add: older_def)

text \<open>Reading and writing in the middle of a list.\<close>

lemma arr_mid:
  "i = int (length xs) \<Longrightarrow> arr_get (xs @ y # zs) i = Some y"
  "i = int (length xs) + 1 \<Longrightarrow> arr_get (xs @ y # z # zs) i = Some z"
  "i = int (length xs) \<Longrightarrow> arr_set (xs @ y # zs) i v = Some (xs @ v # zs)"
  "i = int (length xs) + 1 \<Longrightarrow> arr_set (xs @ y # z # zs) i v = Some (xs @ y # v # zs)"
  by (auto simp: arr_get_def arr_set_def nth_append list_update_append nat_add_distrib)

lemmas arr_mid_simps = arr_mid arr_get_out

lemma bump_to_flat:
  "bump_to (pre @ flat ls @ post) (int (length pre) + 2 * int (length ls) + 1) (int (length pre) + 1) =
   Some (pre @ flat (map older ls) @ post)"
proof (induction ls arbitrary: pre)
  case (Cons l ls)
  show ?case using Cons.IH [of "pre @ [fst l, snd l + 1]"]
    by (subst bump_to.simps) (simp add: arr_mid ac_simps del: arr_get_in arr_set_in)
qed (simp add: bump_to.simps)

lemma bump_while_full:
  assumes "\<forall>l \<in> set ls. snd l \<noteq> 0"
  shows "bump_while (pre @ flat ls @ post) (int (length pre) + 2 * int (length ls) + 1) (int (length pre) + 1) =
    (if length post < 2 then None else Some (pre @ flat (map older ls) @ post))"
  using assms
proof (induction ls arbitrary: pre)
  case Nil
  then show ?case by (subst bump_while.simps) (simp add: arr_get_def)
next
  case (Cons l ls)
  then show ?case using Cons.IH [of "pre @ [fst l, snd l + 1]"]
    by (subst bump_while.simps) (simp add: arr_mid ac_simps del: arr_get_in arr_set_in)
qed

lemma bump_while_room:
  assumes "\<forall>l \<in> set ls. snd l \<noteq> 0" and "int (length pre) + 2 * int (length ls) + 1 \<le> fin"
  shows "bump_while (pre @ flat ls @ 0 # 0 # post) fin (int (length pre) + 1) =
    Some (pre @ flat (map older ls) @ 0 # 0 # post)"
  using assms
proof (induction ls arbitrary: pre)
  case Nil
  then show ?case by (subst bump_while.simps) (simp add: arr_mid del: arr_get_in)
next
  case (Cons l ls)
  then show ?case using Cons.IH [of "pre @ [fst l, snd l + 1]"]
    by (subst bump_while.simps) (simp add: arr_mid ac_simps del: arr_get_in arr_set_in)
qed

section \<open>The search\<close>

lemma scan_hit:
  assumes "\<forall>l \<in> set a. fst l \<noteq> tag" and "h \<noteq> 0" and "int (length pre) + 2 * int (length a) < fin"
  shows "\<exists>r'. scan_lines (pre @ flat a @ tag # h # post) tag fin (int (length pre)) r = Some r' \<and>
    sc_hit r' = Some (int (length pre) + 2 * int (length a))"
  using assms
proof (induction a arbitrary: pre r)
  case Nil
  then show ?case by (subst scan_lines.simps) (simp add: arr_mid del: arr_get_in)
next
  case (Cons l a)
  then show ?case using Cons.IH [of "pre @ [fst l, snd l]"]
    by (subst scan_lines.simps) (simp add: arr_mid ac_simps del: arr_get_in)
qed

text \<open>The search over valid lines with another tag: the oldest one so far, its age and its index.\<close>

fun oldest :: "int \<Rightarrow> (int \<times> int) list \<Rightarrow> int \<times> int \<Rightarrow> int \<times> int" where
  "oldest p [] me = me"
| "oldest p (l # ls) me = oldest (p + 2) ls (if snd l > fst me then (snd l, p) else me)"

lemma oldest_spec:
  "oldest p vs me = me \<and> (\<forall>l \<in> set vs. snd l \<le> fst me) \<or>
   (\<exists>k < length vs. oldest p vs me = (snd (vs ! k), p + 2 * int k) \<and> fst me < snd (vs ! k) \<and>
      (\<forall>l \<in> set vs. snd l \<le> snd (vs ! k)))"
proof (induction vs arbitrary: p me)
  case (Cons l vs)
  let ?me = "if snd l > fst me then (snd l, p) else me"
  from Cons.IH [of "p + 2" ?me] show ?case
  proof (elim disjE conjE exE)
    assume o: "oldest (p + 2) vs ?me = ?me" "\<forall>l \<in> set vs. snd l \<le> fst ?me"
    show ?thesis
    proof (cases "snd l > fst me")
      case True
      then show ?thesis using o by (intro disjI2 exI [of _ 0]) auto
    qed (use o in auto)
  next
    fix k assume "k < length vs" "oldest (p + 2) vs ?me = (snd (vs ! k), p + 2 + 2 * int k)"
      "fst ?me < snd (vs ! k)" "\<forall>l \<in> set vs. snd l \<le> snd (vs ! k)"
    then show ?thesis by (intro disjI2 exI [of _ "Suc k"]) (auto split: if_splits)
  qed
qed simp

definition set_oldest :: "scan \<Rightarrow> int \<times> int \<Rightarrow> scan" where
  "set_oldest r me = r\<lparr>sc_last := fst me, sc_evict_in := snd me\<rparr>"

lemma scan_valid:
  assumes "\<forall>l \<in> set vs. fst l \<noteq> tag \<and> 0 < snd l \<and> snd l < 2 ^ 31" and "int (length pre) + 2 * int (length vs) \<le> fin"
  shows "scan_lines (pre @ flat vs @ post) tag fin (int (length pre)) (set_oldest r me) =
    scan_lines (pre @ flat vs @ post) tag fin (int (length pre) + 2 * int (length vs))
      (set_oldest r (oldest (int (length pre)) vs me))"
  using assms
proof (induction vs arbitrary: pre me)
  case (Cons l vs)
  let ?me = "if snd l > fst me then (snd l, int (length pre)) else me"
  have k: "to_int (snd l) = snd l" using Cons.prems by (intro to_int_id) (simp add: int_ok_def)
  have "scan_lines (pre @ flat (l # vs) @ post) tag fin (int (length pre)) (set_oldest r me) =
      scan_lines (pre @ flat (l # vs) @ post) tag fin (int (length pre) + 2) (set_oldest r ?me)"
    using Cons.prems by (subst scan_lines.simps) (simp add: arr_mid k set_oldest_def del: arr_get_in)
  then show ?case using Cons.IH [of "pre @ [fst l, snd l]" ?me] Cons.prems by (simp add: ac_simps)
qed simp

lemma scan_empty:
  assumes "sc_miss r" and "0 \<le> sc_last r"
  shows "scan_lines (pre @ replicate (2 * n) 0 @ post) tag (int (length pre) + 2 * int n) (int (length pre)) r = Some r"
proof (induction n arbitrary: pre)
  case 0
  then show ?case by (subst scan_lines.simps) simp
next
  case (Suc n)
  then show ?case using assms Suc [of "pre @ [0, 0]"]
    by (subst scan_lines.simps) (simp add: arr_mid ac_simps del: arr_get_in)
qed

section \<open>The representation of a set\<close>

text \<open>The valid lines stand first; their ages, at most \<open>k\<close>, are different and order them by recency.\<close>

definition set_rep :: "nat \<Rightarrow> int \<Rightarrow> (int \<times> int) list \<Rightarrow> int list \<Rightarrow> bool" where
  "set_rep E k ls s \<longleftrightarrow>
     (\<exists>vs ord. ls = vs @ replicate (E - length vs) (0, 0) \<and> length vs \<le> E \<and> mset ord = mset vs \<and>
        sorted_wrt (<) (map snd ord) \<and> distinct (map fst ord) \<and> s = map fst ord \<and>
        (\<forall>l \<in> set vs. 0 < snd l \<and> snd l \<le> k))"

lemma set_repI:
  assumes "ls = vs @ replicate (E - length vs) (0, 0)" and "length vs \<le> E" and "mset ord = mset vs"
    and "sorted_wrt (<) (map snd ord)" and "distinct s" and "s = map fst ord"
    and "\<forall>l \<in> set vs. 0 < snd l \<and> snd l \<le> k"
  shows "set_rep E k ls s"
  using assms unfolding set_rep_def by blast

lemma sorted_step [simp]: "sorted_wrt (\<lambda>x y. snd x + 1 \<le> (snd y :: int)) xs \<longleftrightarrow> sorted_wrt (\<lambda>x y. snd x < snd y) xs"
  by (simp add: add1_zle_eq)

lemma map_fst_older [simp]: "map fst (map older xs) = map fst xs"
  by (simp add: comp_def)

lemma mset_older: "mset xs = mset ys \<Longrightarrow> mset (map older xs) = mset (map older ys)"
  by simp

lemma older_ages: "\<forall>l \<in> S. 0 < snd l \<and> snd l \<le> k \<Longrightarrow> \<forall>l \<in> older ` S. 0 < snd l \<and> snd l \<le> k + 1"
  by auto

lemma rep_hit:
  assumes "mset ord = mset (a @ (tag, h) # b)" and "sorted_wrt (<) (map snd ord)" and "distinct (map fst ord)"
    and "\<forall>l \<in> set ord. 0 < snd l \<and> snd l \<le> k" and "length a + length b < E"
  shows "set_rep E (k + 1) (map older a @ (tag, 1) # map older b @ replicate (E - Suc (length a + length b)) (0, 0))
    (tag # remove1 tag (map fst ord))"
proof -
  have "(tag, h) \<in> set ord" using mset_eq_setD [OF assms(1)] by simp
  then obtain x y where ord: "ord = x @ (tag, h) # y" by (meson split_list)
  have m: "mset (x @ y) = mset (a @ b)" using assms(1) by (simp add: ord)
  then have xy: "set (x @ y) = set (a @ b)" by (rule mset_eq_setD)
  have pos: "\<forall>l \<in> set x. 0 < snd l" "\<forall>l \<in> set y. 0 < snd l" using assms(4) by (simp_all add: ord)
  have before: "\<forall>l \<in> set x. \<forall>m \<in> set y. snd l < snd m"
    using assms(2) by (simp add: ord sorted_wrt_map sorted_wrt_append)
  have r: "remove1 tag (map fst ord) = map fst (x @ y)"
    using assms(3) by (simp add: ord remove1_append)
  show ?thesis
  proof (rule set_repI [where vs = "map older a @ (tag, 1) # map older b" and ord = "(tag, 1) # map older (x @ y)"])
    show "mset ((tag, 1) # map older (x @ y)) = mset (map older a @ (tag, 1) # map older b)"
      using mset_older [OF m] by simp
    show "sorted_wrt (<) (map snd ((tag, 1) # map older (x @ y)))"
      using assms(2) pos before by (simp add: ord sorted_wrt_map sorted_wrt_append add1_zle_eq ball_Un)
    show "distinct (tag # remove1 tag (map fst ord))" using assms(3) by (auto simp: ord remove1_append)
    show "\<forall>l \<in> set (map older a @ (tag, 1) # map older b). 0 < snd l \<and> snd l \<le> k + 1"
    proof -
      have "\<forall>l \<in> set (x @ y). 0 < snd l \<and> snd l \<le> k" using assms(4) by (simp add: ord)
      from older_ages [OF this] have "\<forall>l \<in> insert (tag, 1) (older ` set (x @ y)). 0 < snd l \<and> snd l \<le> k + 1"
        using assms(4) by (simp add: ord)
      moreover have "set (map older a @ (tag, 1) # map older b) = insert (tag, 1) (older ` set (x @ y))"
        unfolding xy by (simp add: image_Un)
      ultimately show ?thesis by (simp only:)
    qed
  qed (use assms(5) r in \<open>auto simp: comp_def\<close>)
qed

lemma rep_miss:
  assumes "mset ord = mset vs" and "sorted_wrt (<) (map snd ord)" and "distinct (map fst ord)"
    and "\<forall>l \<in> set vs. 0 < snd l \<and> snd l \<le> k" and "length vs < E" and "tag \<notin> set (map fst ord)" and "0 \<le> k"
  shows "set_rep E (k + 1) (map older vs @ (tag, 1) # replicate (E - Suc (length vs)) (0, 0)) (tag # map fst ord)"
proof (rule set_repI [where vs = "map older vs @ [(tag, 1)]" and ord = "(tag, 1) # map older ord"])
  show "sorted_wrt (<) (map snd ((tag, 1) # map older ord))"
    using assms(2,4) mset_eq_setD [OF assms(1)] by (auto simp: sorted_wrt_map)
  show "mset ((tag, 1) # map older ord) = mset (map older vs @ [(tag, 1)])" using mset_older [OF assms(1)] by simp
qed (use assms in \<open>auto simp: comp_def\<close>)

lemma rep_evict:
  assumes "mset ord = mset vs" and "sorted_wrt (<) (map snd ord)" and "distinct (map fst ord)"
    and "\<forall>l \<in> set vs. 0 < snd l \<and> snd l \<le> k" and "length vs = E" and "tag \<notin> set (map fst ord)"
    and "i < length vs" and "\<forall>l \<in> set vs. snd l \<le> snd (vs ! i)"
  shows "set_rep E (k + 1) ((map older vs)[i := (tag, 1)]) (tag # butlast (map fst ord))"
proof -
  have "ord \<noteq> []" using assms(1,7) by auto
  then obtain x z where ord: "ord = x @ [z]" by (metis append_butlast_last_id)
  have z: "z = vs ! i"
  proof (rule ccontr)
    assume "z \<noteq> vs ! i"
    then have "vs ! i \<in> set x" using mset_eq_setD [OF assms(1)] nth_mem [OF assms(7)] by (auto simp: ord)
    then have "snd (vs ! i) < snd z" using assms(2) by (auto simp: ord sorted_wrt_map sorted_wrt_append)
    moreover have "snd z \<le> snd (vs ! i)" using assms(8) mset_eq_setD [OF assms(1)] by (auto simp: ord)
    ultimately show False by simp
  qed
  have xm: "mset x = mset vs - {#vs ! i#}" using assms(1) unfolding ord z [symmetric] by (metis mset_append add_diff_cancel_right' mset.simps)
  have "image_mset older (mset vs - {#vs ! i#}) = mset (map older vs) - {#older (vs ! i)#}"
    using assms(7) by (simp add: image_mset_Diff)
  then have m: "mset ((tag, 1) # map older x) = mset ((map older vs)[i := (tag, 1)])"
    using assms(7) xm by (simp add: mset_update)
  have s: "set x \<subseteq> set vs" using mset_eq_setD [OF assms(1)] by (auto simp: ord)
  have older_pos: "0 < snd l \<and> snd l \<le> k + 1" if "l \<in> insert (tag, 1) (older ` set vs)" for l
    using that assms(4) nth_mem [OF assms(7)] by fastforce
  show ?thesis
  proof (rule set_repI [where vs = "(map older vs)[i := (tag, 1)]" and ord = "(tag, 1) # map older x"])
    show "sorted_wrt (<) (map snd ((tag, 1) # map older x))"
      using assms(2,4) s by (auto simp: ord sorted_wrt_map sorted_wrt_append)
    show "\<forall>l \<in> set ((map older vs)[i := (tag, 1)]). 0 < snd l \<and> snd l \<le> k + 1"
      using older_pos set_update_subset_insert [of "map older vs" i "(tag, 1)"] by (simp only: set_map) blast
  qed (use assms m in \<open>auto simp: ord comp_def butlast_append\<close>)
qed

section \<open>One access on a set\<close>

lemma bump_while_set:
  assumes "\<forall>l \<in> set vs. 0 < snd l \<and> snd l \<le> k" and "length vs \<le> E"
  shows "bump_while (pre @ flat (vs @ replicate (E - length vs) (0, 0)) @ post)
      (int (length pre) + 2 * int E + 1) (int (length pre) + 1) =
    (if length vs = E \<and> length post < 2 then None
     else Some (pre @ flat (map older vs @ replicate (E - length vs) (0, 0)) @ post))"
proof (cases "length vs = E")
  case True
  moreover have "\<forall>l \<in> set vs. snd l \<noteq> 0" using assms(1) by fastforce
  ultimately show ?thesis using bump_while_full [of vs pre post] by auto
next
  case False
  then obtain n where "E - length vs = Suc n" using assms(2) by (cases "E - length vs") auto
  moreover have "\<forall>l \<in> set vs. snd l \<noteq> 0" using assms(1) by fastforce
  ultimately show ?thesis
    using bump_while_room [of vs pre "int (length pre) + 2 * int E + 1" "flat (replicate n (0, 0)) @ post"] assms(2) False
    by (simp del: flat_replicate)
qed

lemma put_mid: "put_line (xs @ y # z # zs) (int (length xs)) tag = Some (xs @ tag # 1 # zs)"
  by (simp add: put_line_def arr_mid del: arr_set_in)

lemma access_lines_hit:
  assumes vs: "\<forall>l \<in> set vs. 0 < snd l \<and> snd l \<le> k" "length vs \<le> E" "distinct (map fst vs)" "vs = a @ (tag, h) # b"
    and st: "cache st = pre @ flat (vs @ replicate (E - length vs) (0, 0)) @ post"
    and fit: "int (length pre) + 2 * int E + 1 < 2 ^ 31"
  shows "access_lines (int (length pre)) (int (length pre) + 2 * int E) tag st =
    (if length vs = E \<and> length post < 2 then None
     else Some (st\<lparr>cache := pre @ flat (map older a @ (tag, 1) # map older b @ replicate (E - length vs) (0, 0)) @ post,
       hitCount := hitCount st + 1\<rparr>))"
proof -
  have int: "to_int (int (length pre)) = int (length pre)" "to_int (int (length pre) + 1) = int (length pre) + 1"
    using fit by (auto intro!: to_int_id simp: int_ok_def)
  obtain r' where "scan_lines (cache st) tag (int (length pre) + 2 * int E) (int (length pre)) scan0 = Some r'"
    "sc_hit r' = Some (int (length pre) + 2 * int (length a))"
    using scan_hit [of a tag h pre "int (length pre) + 2 * int E" "flat (b @ replicate (E - length vs) (0, 0)) @ post" scan0] vs
    by (auto simp: st)
  moreover have "arr_set (pre @ flat (map older vs @ replicate (E - length vs) (0, 0)) @ post)
      (int (length pre) + 2 * int (length a) + 1) 1 =
    Some (pre @ flat (map older a @ (tag, 1) # map older b @ replicate (E - length vs) (0, 0)) @ post)"
    using arr_mid(4) [of "int (length pre) + 2 * int (length a) + 1" "pre @ flat (map older a)" tag "h + 1"] vs(4) by simp
  ultimately show ?thesis
    using bump_while_set [OF vs(1,2), of pre post, folded st] unfolding access_lines_def int
    by (simp del: flat_simps flat_replicate arr_set_in)
qed

lemma scan0_oldest: "scan0 = set_oldest scan0 (0, 0)"
  by (simp add: scan0_def set_oldest_def)

lemma oldest_nonneg: "0 \<le> fst me \<Longrightarrow> 0 \<le> fst (oldest p vs me)"
  by (induction p vs me rule: oldest.induct) auto

lemma access_lines_miss:
  assumes vs: "\<forall>l \<in> set vs. fst l \<noteq> tag \<and> 0 < snd l \<and> snd l < 2 ^ 31" "E = Suc (length vs + n)"
    and st: "cache st = pre @ flat (vs @ replicate (Suc n) (0, 0)) @ post"
    and fit: "int (length pre) + 2 * int E + 1 < 2 ^ 31"
  shows "access_lines (int (length pre)) (int (length pre) + 2 * int E) tag st =
    Some (st\<lparr>cache := pre @ flat (map older vs @ (tag, 1) # replicate n (0, 0)) @ post, missCount := missCount st + 1\<rparr>)"
proof -
  have int: "to_int (int (length pre)) = int (length pre)" "to_int (int (length pre) + 1) = int (length pre) + 1"
    using fit by (auto intro!: to_int_id simp: int_ok_def)
  let ?p = "int (length pre) + 2 * int (length vs)" and ?fin = "int (length pre) + 2 * int E"
  let ?r = "set_oldest scan0 (oldest (int (length pre)) vs (0, 0))"
  let ?r' = "?r\<lparr>sc_miss := True, sc_miss_in := ?p\<rparr>"
  let ?rest = "replicate (2 * n) 0 @ post"
  have c: "cache st = pre @ flat vs @ 0 # 0 # ?rest" by (simp add: st)
  have "scan_lines (cache st) tag ?fin (int (length pre)) scan0 = scan_lines (cache st) tag ?fin ?p ?r"
    using scan_valid [OF vs(1), of pre ?fin "0 # 0 # ?rest" scan0 "(0, 0)"] vs(2) by (simp add: c scan0_oldest [symmetric])
  also have "\<dots> = scan_lines (cache st) tag ?fin (?p + 2) ?r'"
    using vs(2) arr_mid(1) [of ?p "pre @ flat vs" 0 "0 # ?rest"] arr_mid(2) [of "?p + 1" "pre @ flat vs" 0 0 ?rest]
    by (subst scan_lines.simps) (simp add: c set_oldest_def scan0_def del: arr_get_in)
  also have "\<dots> = Some ?r'"
    using scan_empty [of ?r' "pre @ flat vs @ [0, 0]" n post tag] oldest_nonneg [of "(0, 0)" "int (length pre)" vs] vs(2)
    by (simp add: c set_oldest_def ac_simps)
  finally have scan: "scan_lines (cache st) tag ?fin (int (length pre)) scan0 = Some ?r'" .
  have 1: "arr_set (cache st) ?p tag = Some (pre @ flat vs @ tag # 0 # ?rest)"
    using arr_mid(3) [of ?p "pre @ flat vs" 0 "0 # ?rest"] by (simp add: c)
  have 2: "bump_to (pre @ flat vs @ tag # 0 # ?rest) (?p + 1) (int (length pre) + 1) = Some (pre @ flat (map older vs) @ tag # 0 # ?rest)"
    by (rule bump_to_flat)
  have 3: "arr_set (pre @ flat (map older vs) @ tag # 0 # ?rest) (?p + 1) 1 = Some (pre @ flat (map older vs) @ tag # 1 # ?rest)"
    using arr_mid(4) [of "?p + 1" "pre @ flat (map older vs)" tag 0 ?rest] by simp
  have "sc_hit ?r' = None" "sc_miss ?r'" "sc_miss_in ?r' = ?p" by (simp_all add: set_oldest_def scan0_def)
  then show ?thesis unfolding access_lines_def int by (simp add: scan 1 2 3 del: arr_set_in)
qed

lemma list_update_flat:
  "i < length ls \<Longrightarrow> \<exists>x y. flat ls = flat (take i ls) @ x # y # flat (drop (Suc i) ls)"
  using id_take_nth_drop [of i ls] by (metis flat_simps(2,3))

lemma access_lines_evict:
  assumes vs: "\<forall>l \<in> set vs. fst l \<noteq> tag \<and> 0 < snd l \<and> snd l < 2 ^ 31" "vs \<noteq> []"
    and st: "cache st = pre @ flat vs @ post"
    and fit: "int (length pre) + 2 * int (length vs) + 1 < 2 ^ 31"
  shows "\<exists>i < length vs. (\<forall>l \<in> set vs. snd l \<le> snd (vs ! i)) \<and>
    access_lines (int (length pre)) (int (length pre) + 2 * int (length vs)) tag st =
    Some (st\<lparr>cache := pre @ flat ((map older vs)[i := (tag, 1)]) @ post,
      missCount := missCount st + 1, evictionCount := evictionCount st + 1\<rparr>)"
proof -
  have int: "to_int (int (length pre)) = int (length pre)" "to_int (int (length pre) + 1) = int (length pre) + 1"
    using fit by (auto intro!: to_int_id simp: int_ok_def)
  let ?fin = "int (length pre) + 2 * int (length vs)"
  have "hd vs \<in> set vs" "0 < snd (hd vs)" using vs by simp_all
  then obtain i where i: "i < length vs" "\<forall>l \<in> set vs. snd l \<le> snd (vs ! i)"
    "oldest (int (length pre)) vs (0, 0) = (snd (vs ! i), int (length pre) + 2 * int i)"
    using oldest_spec [of "int (length pre)" vs "(0, 0)"] by fastforce
  let ?r = "set_oldest scan0 (snd (vs ! i), int (length pre) + 2 * int i)"
  have "scan_lines (cache st) tag ?fin (int (length pre)) scan0 = scan_lines (cache st) tag ?fin ?fin ?r"
    using scan_valid [OF vs(1), of pre ?fin post scan0 "(0, 0)"] i(3) by (simp add: st scan0_oldest [symmetric])
  then have scan: "scan_lines (cache st) tag ?fin (int (length pre)) scan0 = Some ?r"
    by (simp add: scan_lines.simps [of _ _ ?fin ?fin])
  obtain x y where xy: "flat (map older vs) = flat (take i (map older vs)) @ x # y # flat (drop (Suc i) (map older vs))"
    using list_update_flat [of i "map older vs"] i(1) by auto
  have put: "put_line (pre @ flat (map older vs) @ post) (int (length pre) + 2 * int i) tag =
      Some (pre @ flat ((map older vs)[i := (tag, 1)]) @ post)"
    using put_mid [of "pre @ flat (take i (map older vs))" x y "flat (drop (Suc i) (map older vs)) @ post" tag] i(1)
    by (simp add: xy upd_conv_take_nth_drop)
  have "sc_hit ?r = None" "\<not> sc_miss ?r" "sc_evict_in ?r = int (length pre) + 2 * int i"
    by (simp_all add: set_oldest_def scan0_def)
  then have "access_lines (int (length pre)) ?fin tag st =
    Some (st\<lparr>cache := pre @ flat ((map older vs)[i := (tag, 1)]) @ post,
      missCount := missCount st + 1, evictionCount := evictionCount st + 1\<rparr>)"
    unfolding access_lines_def int using bump_to_flat [of pre vs post, folded st] put by (simp add: scan)
  with i show ?thesis by blast
qed

text \<open>Together: without two cells of memory behind the set, a hit on a full set reads past it; otherwise
  the access is that of the specification.\<close>

lemma set_repE:
  assumes "set_rep E k ls s"
  obtains vs ord where "ls = vs @ replicate (E - length vs) (0, 0)" and "length vs \<le> E"
    and "mset ord = mset vs" and "sorted_wrt (<) (map snd ord)" and "distinct (map fst ord)" and "s = map fst ord"
    and "\<forall>l \<in> set vs. 0 < snd l \<and> snd l \<le> k" and "set ord = set vs" and "length s = length vs"
    and "distinct (map fst vs)"
proof -
  obtain vs ord where o: "ls = vs @ replicate (E - length vs) (0, 0)" "length vs \<le> E"
    "mset ord = mset vs" "sorted_wrt (<) (map snd ord)" "distinct (map fst ord)" "s = map fst ord"
    "\<forall>l \<in> set vs. 0 < snd l \<and> snd l \<le> k"
    using assms unfolding set_rep_def by blast
  have "mset (map fst ord) = mset (map fst vs)" using o(3) by simp
  then have "distinct (map fst vs)" using o(5) mset_eq_imp_distinct_iff by blast
  then show ?thesis using that [OF o] mset_eq_setD [OF o(3)] mset_eq_length [OF o(3)] o(6) by simp
qed

lemma tag_split: "tag \<in> fst ` set vs \<Longrightarrow> \<exists>a h b. vs = a @ (tag, h) # b"
  by (force dest: split_list)

lemma access_set_past:
  assumes "set_rep E k ls s" and st: "cache st = pre @ flat ls @ post" and "int (length pre) + 2 * int E + 1 < 2 ^ 31"
    and "tag \<in> set s" and "length s = E" and "length post < 2"
  shows "access_lines (int (length pre)) (int (length pre) + 2 * int E) tag st = None"
  using assms(1)
proof (rule set_repE)
  fix vs ord assume o: "ls = vs @ replicate (E - length vs) (0, 0)" "length vs \<le> E" "s = map fst ord"
    "\<forall>l \<in> set vs. 0 < snd l \<and> snd l \<le> k" "set ord = set vs" "length s = length vs" "distinct (map fst vs)"
  then obtain a h b where "vs = a @ (tag, h) # b" using tag_split [of tag vs] assms(4) by auto
  from access_lines_hit [OF o(4,2,7) this st [unfolded o(1)] assms(3)] show ?thesis
    using assms(5,6) o(6) by simp
qed

lemma access_set:
  assumes "set_rep E k ls s" and st: "cache st = pre @ flat ls @ post" and fit: "int (length pre) + 2 * int E + 1 < 2 ^ 31"
    and k: "0 \<le> k" "k < 2 ^ 31" and "0 < E" and post: "tag \<in> set s \<Longrightarrow> length s = E \<Longrightarrow> 2 \<le> length post"
    and acc: "lru_access E tag s = (res, s')"
  shows "\<exists>ls'. set_rep E (k + 1) ls' s' \<and>
    access_lines (int (length pre)) (int (length pre) + 2 * int E) tag st =
       Some (st\<lparr>cache := pre @ flat ls' @ post, hitCount := hitCount st + of_bool (res = Hit),
         missCount := missCount st + of_bool (res \<noteq> Hit), evictionCount := evictionCount st + of_bool (res = Evict)\<rparr>)"
  using assms(1)
proof (rule set_repE)
  fix vs ord assume o: "ls = vs @ replicate (E - length vs) (0, 0)" "length vs \<le> E"
    "mset ord = mset vs" "sorted_wrt (<) (map snd ord)" "distinct (map fst ord)" "s = map fst ord"
    "\<forall>l \<in> set vs. 0 < snd l \<and> snd l \<le> k" "set ord = set vs" "length s = length vs" "distinct (map fst vs)"
  have so: "set s = fst ` set vs" and lo: "length ord = length vs" using o(6,8,9) by simp_all
  show ?thesis
  proof (cases "tag \<in> set s")
    case True
    then obtain a h b where vs: "vs = a @ (tag, h) # b" using tag_split [of tag vs] so by blast
    have "\<not> (length vs = E \<and> length post < 2)" using post True o(9) by auto
    moreover have "\<forall>l \<in> set ord. 0 < snd l \<and> snd l \<le> k" using o(7,8) by simp
    ultimately show ?thesis
      using access_lines_hit [OF o(7,2,10) vs st [unfolded o(1)] fit] rep_hit [OF o(3) [unfolded vs] o(4,5), of k E] True acc o(2)
      by (auto simp: vs lru_access_def o(6))
  next
    case False
    then have val: "\<forall>l \<in> set vs. fst l \<noteq> tag \<and> 0 < snd l \<and> snd l < 2 ^ 31" using o(7) k(2) so by force
    show ?thesis
    proof (cases "length vs < E")
      case True
      then obtain n where E: "E = Suc (length vs + n)" using less_iff_Suc_add by blast
      then show ?thesis
        using access_lines_miss [OF val E, of st pre post] st fit rep_miss [OF o(3,4,5,7) True, of tag] False k acc
        by (auto simp: o(1,6) lo lru_access_def simp del: flat_simps flat_replicate)
    next
      case F: False
      then have E: "E = length vs" using o(2) by simp
      then have "vs \<noteq> []" using \<open>0 < E\<close> by auto
      then obtain i where "i < length vs" "\<forall>l \<in> set vs. snd l \<le> snd (vs ! i)"
        "access_lines (int (length pre)) (int (length pre) + 2 * int E) tag st =
           Some (st\<lparr>cache := pre @ flat ((map older vs)[i := (tag, 1)]) @ post,
             missCount := missCount st + 1, evictionCount := evictionCount st + 1\<rparr>)"
        using access_lines_evict [OF val, of st pre post] st fit by (auto simp: o(1) E)
      then show ?thesis
        using rep_evict [OF o(3,4,5,7) E [symmetric], of tag i] False acc E
        by (auto simp: lo lru_access_def o(6))
    qed
  qed
qed

section \<open>The whole cache\<close>

definition geometry :: "int \<Rightarrow> int \<Rightarrow> int \<Rightarrow> bool" where
  "geometry S E B \<longleftrightarrow> 0 < S \<and> 0 < E \<and> 0 < B \<and> B * S < 2 ^ 31 \<and> S * 2 * E + 1 < 2 ^ 31"

definition cache_rep :: "int \<Rightarrow> int \<Rightarrow> int list \<Rightarrow> int \<Rightarrow> csim \<Rightarrow> lru \<Rightarrow> bool" where
  "cache_rep S E past k st s \<longleftrightarrow>
     (\<exists>sets. cache st = concat (map flat sets) @ past \<and> int (length sets) = S \<and>
        list_all2 (set_rep (nat E) k) sets (lru_sets s)) \<and>
     hitCount st = int (lru_hits s) \<and> missCount st = int (lru_misses s) \<and> evictionCount st = int (lru_evicts s)"

lemma set_rep_mono: "set_rep E k ls s \<Longrightarrow> k \<le> k' \<Longrightarrow> set_rep E k' ls s"
  by (erule set_repE, rule set_repI) (assumption | fastforce)+

lemma set_rep_length: "set_rep E k ls s \<Longrightarrow> length ls = E"
  by (auto simp: set_rep_def)

lemma length_concat_flat: "\<forall>ls \<in> set sets. length ls = E \<Longrightarrow> length (concat (map flat sets)) = 2 * E * length sets"
  by (induction sets) (auto simp: algebra_simps)

lemma index_in: "0 < S \<Longrightarrow> 0 < B \<Longrightarrow> 0 \<le> addr \<Longrightarrow> 0 \<le> addr div B mod S \<and> addr div B mod S < (S :: int)"
  by simp

lemma div_pos: "0 \<le> a \<Longrightarrow> 0 < b \<Longrightarrow> a sdiv b = a div b" "0 \<le> a \<Longrightarrow> 0 < b \<Longrightarrow> a smod b = a mod (b :: int)"
  by (simp_all add: signed_divide_int_def signed_modulo_int_def sgn_if)

text \<open>The memory around set \<open>i\<close>.\<close>

lemma split_sets:
  assumes "cache st = concat (map flat sets) @ past" and "i < length sets" and "\<forall>ls \<in> set sets. length ls = E"
  defines "pre \<equiv> concat (map flat (take i sets))" and "post \<equiv> concat (map flat (drop (Suc i) sets)) @ past"
  shows "cache st = pre @ flat (sets ! i) @ post \<and> length pre = 2 * E * i \<and>
    (0 < E \<longrightarrow> 2 \<le> length past \<or> Suc i < length sets \<longrightarrow> 2 \<le> length post) \<and>
    (\<forall>ls. pre @ flat ls @ post = concat (map flat (sets[i := ls])) @ past)"
proof (intro conjI allI impI)
  show "cache st = pre @ flat (sets ! i) @ post"
    using assms(1,2) id_take_nth_drop [of i sets] unfolding pre_def post_def by (metis append_assoc concat.simps(2) concat_append list.simps(9) map_append)
  show "length pre = 2 * E * i"
    unfolding pre_def using assms(2,3) by (subst length_concat_flat [of _ E]) (auto dest: in_set_takeD)
  show "pre @ flat ls @ post = concat (map flat (sets[i := ls])) @ past" for ls
    using assms(2) by (simp add: pre_def post_def upd_conv_take_nth_drop)
  assume "0 < E" "2 \<le> length past \<or> Suc i < length sets"
  then show "2 \<le> length post"
  proof (elim disjE)
    assume "Suc i < length sets"
    then have "length (concat (map flat (drop (Suc i) sets))) = 2 * E * (length sets - Suc i)"
      using assms(3) by (subst length_concat_flat [of _ E]) (auto dest: in_set_dropD)
    moreover obtain m n where "E = Suc m" "length sets - Suc i = Suc n"
      using \<open>0 < E\<close> \<open>Suc i < length sets\<close> by (metis Suc_pred zero_less_diff)
    ultimately show ?thesis unfolding post_def by simp
  qed (simp add: post_def)
qed

lemma access_step:
  assumes rep: "cache_rep S E past k st s" and g: "geometry S E B" and k: "0 \<le> k" "k < 2 ^ 31" and addr: "0 \<le> addr"
    and past: "is_access a \<Longrightarrow> addr div (B * S) \<in> set (lru_sets s ! nat (addr div B mod S)) \<Longrightarrow>
      length (lru_sets s ! nat (addr div B mod S)) = nat E \<Longrightarrow> addr div B mod S = S - 1 \<Longrightarrow> 2 \<le> length past"
  shows "\<exists>st'. addressCache S E B a addr st = Some st' \<and> cache_rep S E past (k + 1) st' (lru_step S (nat E) B (a, addr) s)"
proof -
  obtain sets where c: "cache st = concat (map flat sets) @ past" "int (length sets) = S"
    "list_all2 (set_rep (nat E) k) sets (lru_sets s)"
    and cnt: "hitCount st = int (lru_hits s)" "missCount st = int (lru_misses s)" "evictionCount st = int (lru_evicts s)"
    using rep unfolding cache_rep_def by blast
  have pos: "0 < S" "0 < E" "0 < B" "B * S < 2 ^ 31" "S * 2 * E + 1 < 2 ^ 31" using g by (simp_all add: geometry_def)
  then have BS: "0 < B * S" by simp
  define i where "i = nat (addr div B mod S)"
  define tag where "tag = addr div (B * S)"
  have i: "i < length sets" "int i = addr div B mod S" using index_in [OF pos(1,3) addr] c(2) by (auto simp: i_def)
  have len: "\<forall>ls \<in> set sets. length ls = nat E" using c(3) set_rep_length by (fastforce simp: list_all2_conv_all_nth in_set_conv_nth)
  have idx: "(addr sdiv B) smod S = int i" "addr sdiv (B * S) = tag"
    using pos BS addr by (simp_all add: div_pos i(2) tag_def pos_imp_zdiv_nonneg_iff)
  have ok: "int_ok (B * S)" "B \<noteq> 0" "S \<noteq> 0" using pos BS unfolding int_ok_def by linarith+
  have mono: "list_all2 (set_rep (nat E) (k + 1)) sets (lru_sets s)"
    using c(3) by (rule list_all2_mono) (simp add: set_rep_mono)
  show ?thesis
  proof (cases "is_access a")
    case False
    then show ?thesis using c cnt mono ok
      by (auto simp: addressCache_def is_access_def lru_step_def cache_rep_def)
  next
    case True
    define pre where "pre = concat (map flat (take i sets))"
    define post where "post = concat (map flat (drop (Suc i) sets)) @ past"
    have sp: "cache st = pre @ flat (sets ! i) @ post" "length pre = 2 * nat E * i"
      "2 \<le> length past \<or> Suc i < length sets \<Longrightarrow> 2 \<le> length post"
      "\<And>ls. pre @ flat ls @ post = concat (map flat (sets[i := ls])) @ past"
      using split_sets [OF c(1) i(1) len] pos(2) unfolding pre_def post_def by auto
    obtain res s' where acc: "lru_access (nat E) tag (lru_sets s ! i) = (res, s')" by fastforce
    have lo: "start_idx E (int i) = int (length pre)" "end_idx E (int i) = int (length pre) + 2 * int (nat E)"
      using pos(2) by (simp_all add: start_idx_def end_idx_def sp(2) algebra_simps)
    have "(int i + 1) * (2 * E) \<le> S * (2 * E)" using i c(2) pos(2) by (intro mult_right_mono) auto
    then have fit: "int (length pre) + 2 * int (nat E) + 1 < 2 ^ 31" using pos(2,5) unfolding lo(2) [symmetric] end_idx_def by (simp add: algebra_simps)
    have room: "2 \<le> length post" if "tag \<in> set (lru_sets s ! i)" "length (lru_sets s ! i) = nat E"
    proof (cases "Suc i < length sets")
      case False
      then have "addr div B mod S = S - 1" using i c(2) by linarith
      then show ?thesis using sp(3) past [OF True] that unfolding i_def tag_def by blast
    qed (use sp(3) in blast)
    have E0: "0 < nat E" using pos(2) by simp
    have rep_i: "set_rep (nat E) k (sets ! i) (lru_sets s ! i)" using c(3) i(1) by (simp add: list_all2_conv_all_nth)
    obtain ls' where ls': "set_rep (nat E) (k + 1) ls' s'"
      "access_lines (int (length pre)) (int (length pre) + 2 * int (nat E)) tag st =
       Some (st\<lparr>cache := pre @ flat ls' @ post, hitCount := hitCount st + of_bool (res = Hit),
         missCount := missCount st + of_bool (res \<noteq> Hit), evictionCount := evictionCount st + of_bool (res = Evict)\<rparr>)"
      using access_set [OF rep_i sp(1) fit k E0 room acc] by blast
    have "list_all2 (set_rep (nat E) (k + 1)) (sets[i := ls']) ((lru_sets s)[i := s'])"
      using list_all2_update_cong [OF mono ls'(1)] .
    moreover define st1 where "st1 = st\<lparr>cache := pre @ flat ls' @ post, hitCount := hitCount st + of_bool (res = Hit),
         missCount := missCount st + of_bool (res \<noteq> Hit), evictionCount := evictionCount st + of_bool (res = Evict)\<rparr>"
    moreover have "addressCache S E B a addr st = Some (if a = CHR ''M'' then st1\<lparr>hitCount := hitCount st1 + 1\<rparr> else st1)"
      using True ls'(2) ok unfolding addressCache_def Let_def idx lo is_access_def st1_def [symmetric] by auto
    moreover have "lru_step S (nat E) B (a, addr) s =
        \<lparr>lru_sets = (lru_sets s)[i := s'],
         lru_hits = lru_hits s + of_bool (res = Hit) + of_bool (a = CHR ''M''),
         lru_misses = lru_misses s + of_bool (res \<noteq> Hit),
         lru_evicts = lru_evicts s + of_bool (res = Evict)\<rparr>"
      using True acc by (simp add: lru_step_def i_def tag_def)
    ultimately show ?thesis
      using cnt c(2) sp(4) [of ls'] by (auto simp: cache_rep_def intro!: exI [of _ "sets[i := ls']"])
  qed
qed

text \<open>The one way out of defined behaviour: the loop \<^verbatim>\<open>cache[i] != 0 && i < end(index) + 1\<close> reads one cell
  behind the last set when that set is full.\<close>

definition reads_past :: "int \<Rightarrow> int \<Rightarrow> int \<Rightarrow> int list \<Rightarrow> char \<Rightarrow> int \<Rightarrow> lru \<Rightarrow> bool" where
  "reads_past S E B past a addr s \<longleftrightarrow>
     (let set' = lru_sets s ! nat (addr div B mod S)
      in is_access a \<and> addr div (B * S) \<in> set set' \<and> length set' = nat E \<and> addr div B mod S = S - 1 \<and> length past < 2)"

lemma access_past:
  assumes rep: "cache_rep S E past k st s" and g: "geometry S E B" and addr: "0 \<le> addr"
    and past: "reads_past S E B past a addr s"
  shows "addressCache S E B a addr st = None"
proof -
  obtain sets where c: "cache st = concat (map flat sets) @ past" "int (length sets) = S"
    "list_all2 (set_rep (nat E) k) sets (lru_sets s)"
    using rep unfolding cache_rep_def by blast
  have pos: "0 < S" "0 < E" "0 < B" "B * S < 2 ^ 31" "S * 2 * E + 1 < 2 ^ 31" using g by (simp_all add: geometry_def)
  then have BS: "0 < B * S" by simp
  define i where "i = nat (addr div B mod S)"
  define tag where "tag = addr div (B * S)"
  note p = past [unfolded reads_past_def Let_def, folded i_def tag_def]
  have i: "i < length sets" "int i = addr div B mod S" using index_in [OF pos(1,3) addr] c(2) by (auto simp: i_def)
  have len: "\<forall>ls \<in> set sets. length ls = nat E" using c(3) set_rep_length by (fastforce simp: list_all2_conv_all_nth in_set_conv_nth)
  have idx: "(addr sdiv B) smod S = int i" "addr sdiv (B * S) = tag"
    using pos BS addr by (simp_all add: div_pos i(2) tag_def pos_imp_zdiv_nonneg_iff)
  have ok: "int_ok (B * S)" "B \<noteq> 0" "S \<noteq> 0" using pos BS unfolding int_ok_def by linarith+
  define pre where "pre = concat (map flat (take i sets))"
  define post where "post = concat (map flat (drop (Suc i) sets)) @ past"
  have sp: "cache st = pre @ flat (sets ! i) @ post" "length pre = 2 * nat E * i"
    using split_sets [OF c(1) i(1) len] pos(2) unfolding pre_def post_def by auto
  have "Suc i = length sets" using p i c(2) by linarith
  then have short: "length post < 2" using p by (simp add: post_def)
  have lo: "start_idx E (int i) = int (length pre)" "end_idx E (int i) = int (length pre) + 2 * int (nat E)"
    using pos(2) by (simp_all add: start_idx_def end_idx_def sp(2) algebra_simps)
  have "(int i + 1) * (2 * E) \<le> S * (2 * E)" using i c(2) pos(2) by (intro mult_right_mono) auto
  then have fit: "int (length pre) + 2 * int (nat E) + 1 < 2 ^ 31" using pos(2,5) unfolding lo(2) [symmetric] end_idx_def by (simp add: algebra_simps)
  have rep_i: "set_rep (nat E) k (sets ! i) (lru_sets s ! i)" using c(3) i(1) by (simp add: list_all2_conv_all_nth)
  have "access_lines (start_idx E (int i)) (end_idx E (int i)) tag st = None"
    unfolding lo using access_set_past [OF rep_i sp(1) fit] p short by blast
  then show ?thesis using p ok unfolding addressCache_def Let_def idx by (simp add: is_access_def)
qed

section \<open>A trace file\<close>

text \<open>A line of a trace: a first character, the operation, a blank, hexadecimal digits, a comma, the size.\<close>

type_synonym tline = "char \<times> char \<times> string \<times> string"

definition line_text :: "tline \<Rightarrow> string" where
  "line_text l = (case l of (c, a, ds, sz) \<Rightarrow> [c, a, CHR '' ''] @ ds @ CHR '','' # sz @ [NL])"

definition wf_line :: "tline \<Rightarrow> bool" where
  "wf_line l = (case l of (c, a, ds, sz) \<Rightarrow>
     c \<noteq> NL \<and> a \<noteq> NL \<and> length ds \<le> 9 \<and> list_all (base_digit 16) ds \<and> NL \<notin> set sz \<and> length sz \<le> 80)"

definition line_acc :: "tline \<Rightarrow> char \<times> int" where
  "line_acc l = (case l of (c, a, ds, sz) \<Rightarrow> (a, int (digits_val 16 ds)))"

lemma line_gets: "wf_line l \<Longrightarrow> fgets_line 99 (line_text l @ t) = (line_text l, t)"
proof -
  assume wf: "wf_line l"
  obtain c a ds sz where l: "l = (c, a, ds, sz)" by (cases l)
  let ?s = "[c, a, CHR '' ''] @ ds @ CHR '','' # sz"
  have "NL \<notin> set ds" using wf base_digit_not(2) by (force simp: l wf_line_def list_all_iff)
  then have "NL \<notin> set ?s" "length ?s < 99" using wf by (auto simp: l wf_line_def)
  from fgets_whole [OF this] show ?thesis by (simp add: l line_text_def)
qed

lemma line_parse:
  assumes "wf_line l"
  shows "line_address (line_buf buf (line_text l)) = Some (snd (line_acc l))"
    and "line_buf buf (line_text l) ! 1 = fst (line_acc l)"
proof -
  obtain c a ds sz where l: "l = (c, a, ds, sz)" by (cases l)
  have d: "\<forall>x \<in> set ds. x \<noteq> CHR '','' \<and> x \<noteq> CHR 0x00" using assms base_digit_not(2) by (force simp: l wf_line_def list_all_iff)
  have "takeWhile (\<lambda>c. c \<noteq> CHR '','') (drop 3 (line_buf buf (line_text l))) = ds"
    using d by (simp add: l line_text_def line_buf_def numeral_3_eq_3)
  moreover have "c_str ds = ds" using d by (simp add: c_str_def)
  ultimately show "line_address (line_buf buf (line_text l)) = Some (snd (line_acc l))"
    using assms by (simp add: line_address_def l wf_line_def line_acc_def strto_hex)
  show "line_buf buf (line_text l) ! 1 = fst (line_acc l)" by (simp add: l line_text_def line_buf_def line_acc_def)
qed

lemma trace_loop_lru:
  assumes "cache_rep S E past k st s" and "geometry S E B" and "2 \<le> length past" and "0 \<le> k"
    and "k + int (length ls) \<le> 2 ^ 31" and "\<forall>l \<in> set ls. wf_line l"
  shows "\<exists>st'. trace_loop S E B buf (concat (map line_text ls)) st = Some st' \<and>
    cache_rep S E past (k + int (length ls)) st' (fold (lru_step S (nat E) B) (map line_acc ls) s)"
  using assms
proof (induction ls arbitrary: buf k st s)
  case Nil
  then show ?case by (simp add: trace_loop.simps)
next
  case (Cons l ls)
  obtain a addr where acc: "line_acc l = (a, addr)" by fastforce
  have "0 \<le> addr" using acc by (auto simp: line_acc_def split: prod.splits)
  then obtain st1 where st1: "addressCache S E B a addr st = Some st1"
    "cache_rep S E past (k + 1) st1 (lru_step S (nat E) B (a, addr) s)"
    using access_step [OF Cons.prems(1,2,4), of addr a] Cons.prems(3,5) by auto
  let ?buf = "line_buf buf (line_text l)"
  have ne: "line_text l \<noteq> []" by (simp add: line_text_def split: prod.splits)
  have "trace_loop S E B buf (concat (map line_text (l # ls))) st = trace_loop S E B ?buf (concat (map line_text ls)) st1"
    using Cons.prems(6) line_gets [of l "concat (map line_text ls)"] line_parse [of l buf] ne st1(1) acc
    by (subst trace_loop.simps) simp
  then show ?case using Cons.IH [OF st1(2) Cons.prems(2,3), of ?buf] Cons.prems(4,5,6) acc by (simp add: ac_simps)
qed

definition lru_init :: "int \<Rightarrow> lru" where
  "lru_init S = \<lparr>lru_sets = replicate (nat S) [], lru_hits = 0, lru_misses = 0, lru_evicts = 0\<rparr>"

definition lru_run :: "int \<Rightarrow> int \<Rightarrow> int \<Rightarrow> (char \<times> int) list \<Rightarrow> lru" where
  "lru_run S E B accs = fold (lru_step S (nat E) B) accs (lru_init S)"

lemma lru_step_counts:
  "lru_hits (lru_step S E B acc s) \<le> lru_hits s + 2 \<and> lru_misses (lru_step S E B acc s) \<le> lru_misses s + 2 \<and>
   lru_evicts (lru_step S E B acc s) \<le> lru_evicts s + 2"
  by (auto simp: lru_step_def Let_def split: prod.splits)

lemma lru_run_counts:
  "lru_hits (fold (lru_step S E B) accs s) \<le> lru_hits s + 2 * length accs \<and>
   lru_misses (fold (lru_step S E B) accs s) \<le> lru_misses s + 2 * length accs \<and>
   lru_evicts (fold (lru_step S E B) accs s) \<le> lru_evicts s + 2 * length accs"
proof (induction accs arbitrary: s)
  case (Cons acc accs)
  show ?case using lru_step_counts [of S E B acc s] Cons.IH [of "lru_step S E B acc s"] by auto
qed simp

lemma set_rep_empty: "set_rep E 0 (replicate E (0, 0)) []"
  by (rule set_repI [where vs = "[]" and ord = "[]"]) auto

lemma init_rep:
  assumes "geometry S E B"
  shows "cache_rep S E past 0
    \<lparr>cache = replicate (nat (S * E * 2)) 0 @ past, hitCount = 0, missCount = 0, evictionCount = 0\<rparr> (lru_init S)"
proof -
  have "concat (map flat (replicate n (replicate m (0, 0)))) = replicate (n * (2 * m)) 0" for n m
    by (induction n) (auto simp: replicate_add)
  moreover have "nat (S * E * 2) = nat S * (2 * nat E)" using assms by (simp add: geometry_def nat_mult_distrib)
  moreover have "list_all2 (set_rep (nat E) 0) (replicate (nat S) (replicate (nat E) (0, 0))) (replicate (nat S) [])"
    by (simp add: list_all2_conv_all_nth set_rep_empty)
  ultimately show ?thesis using assms unfolding cache_rep_def
    by (intro conjI exI [of _ "replicate (nat S) (replicate (nat E) (0, 0))"]) (simp_all add: geometry_def lru_init_def)
qed

lemma csim_main_run:
  assumes "getInput files opts = Some (Some (S, E, B, concat (map line_text ls)))" and "geometry S E B"
    and "\<forall>l \<in> set ls. wf_line l" and "length ls < 2 ^ 30" and "2 \<le> length past"
  shows "\<exists>s. s = lru_run S E B (map line_acc ls) \<and>
    csim_main past files opts = Some (Some (int (lru_hits s), int (lru_misses s), int (lru_evicts s))) \<and>
    int_ok (int (lru_hits s)) \<and> int_ok (int (lru_misses s)) \<and> int_ok (int (lru_evicts s))"
proof -
  let ?st = "\<lparr>cache = replicate (nat (S * E * 2)) 0 @ past, hitCount = 0, missCount = 0, evictionCount = 0\<rparr>"
  obtain st' where st': "trace_loop S E B (replicate 120 (CHR 0x00)) (concat (map line_text ls)) ?st = Some st'"
    "cache_rep S E past (0 + int (length ls)) st' (lru_run S E B (map line_acc ls))"
    using trace_loop_lru [OF init_rep [OF assms(2), of past] assms(2,5)] assms(3,4) unfolding lru_run_def by force
  have E: "0 < E" "0 < S" "S * 2 * E + 1 < 2 ^ 31" using assms(2) by (simp_all add: geometry_def)
  have "1 * (E * 2) \<le> S * (E * 2)" using E by (intro mult_right_mono) auto
  also have "\<dots> = S * 2 * E" by simp
  finally have "int_ok (E * 2)" using E unfolding int_ok_def by linarith
  then have "csim_main past files opts = Some (Some (hitCount st', missCount st', evictionCount st'))"
    using st'(1) assms(1) E(1) by (simp add: csim_main_def)
  then show ?thesis
    using st'(2) lru_run_counts [of S "nat E" B "map line_acc ls" "lru_init S"] assms(4)
    by (simp add: cache_rep_def lru_run_def lru_init_def int_ok_def)
qed

section \<open>Properties\<close>



text \<open>C14: On a cache in a state it can reach, \<^verbatim>\<open>addressCache\<close> leaves defined behaviour exactly when the access
  hits the last set while that set is full and nothing readable follows the array: the loop that ages
  the lines reads \<^verbatim>\<open>cache[i]\<close> before it tests \<^verbatim>\<open>i < end(index) + 1\<close>.\<close>

theorem addressCache_reads_past:
  assumes "cache_rep S E past k st s" and "geometry S E B" and "0 \<le> k" and "k < 2 ^ 31" and "0 \<le> addr"
  shows "addressCache S E B a addr st = None \<longleftrightarrow> reads_past S E B past a addr s"
proof
  assume "reads_past S E B past a addr s"
  then show "addressCache S E B a addr st = None" by (rule access_past [OF assms(1,2,5)])
next
  assume n: "addressCache S E B a addr st = None"
  show "reads_past S E B past a addr s"
  proof (rule ccontr)
    assume "\<not> reads_past S E B past a addr s"
    then have "\<exists>st'. addressCache S E B a addr st = Some st'"
      using access_step [OF assms, of a] unfolding reads_past_def Let_def by (meson not_less)
    with n show False by simp
  qed
qed

theorem addressCache_reads_past_witness:
  "addressCache 1 1 16 (CHR ''L'') 16 \<lparr>cache = [1, 1], hitCount = 0, missCount = 1, evictionCount = 0\<rparr> = None"
proof -
  have 1: "cache_rep 1 1 [] 1 \<lparr>cache = [1, 1], hitCount = 0, missCount = 1, evictionCount = 0\<rparr>
    \<lparr>lru_sets = [[1]], lru_hits = 0, lru_misses = 1, lru_evicts = 0\<rparr>"
    unfolding cache_rep_def
    by (intro conjI exI [of _ "[[(1, 1)]]"]) (auto intro!: set_repI [where vs = "[(1, 1)]" and ord = "[(1, 1)]"])
  have 2: "geometry 1 1 16" "reads_past 1 1 16 [] (CHR ''L'') 16 \<lparr>lru_sets = [[1]], lru_hits = 0, lru_misses = 1, lru_evicts = 0\<rparr>"
    by code_simp+
  show ?thesis using addressCache_reads_past [OF 1 2(1), of 16 "CHR ''L''"] 2(2) by simp
qed

end
