(* ===== verification/Cache_Files.thy ===== *)
theory Cache_Files
  imports Trans Csim_Lru
begin

text \<open>
  The files the programs of the cache lab hand to each other: the numbers \<^verbatim>\<open>scanf\<close> reads and \<^verbatim>\<open>printf\<close> writes, the
  results file of \<^verbatim>\<open>printSummary\<close> (\<^verbatim>\<open>lab8/cachelab.c\<close>), the marker file and the options of
  \<^verbatim>\<open>lab8/tracegen.c\<close>, and what a reference simulator promises, which \<^verbatim>\<open>lab8/csim.c\<close> keeps.
\<close>

section \<open>Numbers\<close>

text \<open>\<^verbatim>\<open>%x\<close> of a number.\<close>

definition hex_digit :: "nat \<Rightarrow> char" where
  "hex_digit d = ''0123456789abcdef'' ! d"

function show_hex :: "nat \<Rightarrow> string" where
  "show_hex n = (if n < 16 then [] else show_hex (n div 16)) @ [hex_digit (n mod 16)]"
  by pat_completeness auto

termination by (relation "measure id") auto

declare show_hex.simps [simp del]

text \<open>One conversion of \<^verbatim>\<open>scanf\<close> to an unsigned type of \<open>w\<close> bits, \<^verbatim>\<open>%x\<close> or \<^verbatim>\<open>%u\<close> by its base: the value and
  what is left.  The inner \<^term>\<open>None\<close> is a failure, which assigns nothing; a number that does not fit is
  undefined.\<close>

definition scan_uint :: "nat \<Rightarrow> nat \<Rightarrow> string \<Rightarrow> (int \<times> string) option ub" where
  "scan_uint base w s =
     (let (neg, t) = strtoull_sign (dropWhile isspace s);
          u = (if base = 16 \<and> hex_prefix t then drop 2 t else t);
          ds = takeWhile (base_digit base) u;
          n = digits_val base ds
      in if ds = [] then Some None
         else if 2 ^ w \<le> n then None
         else Some (Some ((if neg then - int n else int n) mod 2 ^ w, drop (length ds) u)))"

text \<open>Several conversions in a row; a failure leaves the rest of the variables as they were.\<close>

fun scan_vars :: "nat \<Rightarrow> nat \<Rightarrow> string \<Rightarrow> int option list \<Rightarrow> int option list ub" where
  "scan_vars base w s [] = Some []"
| "scan_vars base w s (v # vs) = do {
     r \<leftarrow> scan_uint base w s;
     (case r of
        None \<Rightarrow> Some (v # vs)
      | Some (n, s') \<Rightarrow> do { vs' \<leftarrow> scan_vars base w s' vs; Some (Some n # vs') })
   }"

lemma hex_digit_table:
  "list_all (\<lambda>d. base_digit 16 (hex_digit d) \<and> hex_val (hex_digit d) = Some d \<and> (d = 0 \<or> hex_digit d \<noteq> CHR ''0''))
     [0..<16]"
  by code_simp

lemma hex_digit:
  assumes "d < 16"
  shows "base_digit 16 (hex_digit d)" and "hex_val (hex_digit d) = Some d"
  using assms hex_digit_table by (auto simp: list_all_iff)

lemma show_hex_digits:
  "list_all (base_digit 16) (show_hex n) \<and> show_hex n \<noteq> [] \<and> digits_val 16 (show_hex n) = n"
proof (induction n rule: show_hex.induct)
  case (1 n)
  have d: "base_digit 16 (hex_digit (n mod 16))" "hex_val (hex_digit (n mod 16)) = Some (n mod 16)"
    using hex_digit [of "n mod 16"] by simp_all
  show ?case
  proof (cases "n < 16")
    case True
    then show ?thesis using d by (simp add: show_hex.simps [of n] digits_val_def)
  next
    case False
    then show ?thesis using 1 d by (simp add: show_hex.simps [of n] digits_val_snoc)
  qed
qed

lemma show_hex_length: "n < 16 ^ k \<Longrightarrow> 0 < k \<Longrightarrow> length (show_hex n) \<le> k"
proof (induction n arbitrary: k rule: show_hex.induct)
  case (1 n)
  show ?case
  proof (cases "n < 16")
    case False
    then obtain m where k: "k = Suc m" "0 < m" using 1(2,3) by (cases k; cases "k - 1") auto
    then have "n div 16 < 16 ^ m" using 1(2) by (simp add: less_mult_imp_div_less mult.commute)
    then show ?thesis using 1(1) [OF False, of m] k False by (simp add: show_hex.simps [of n])
  qed (use 1(3) in \<open>simp add: show_hex.simps [of n]\<close>)
qed

lemma show_nat_length: "n < 10 ^ k \<Longrightarrow> 0 < k \<Longrightarrow> length (show_nat n) \<le> k"
proof (induction n arbitrary: k rule: show_nat.induct)
  case (1 n)
  show ?case
  proof (cases "n < 10")
    case False
    then obtain m where k: "k = Suc m" "0 < m" using 1(2,3) by (cases k; cases "k - 1") auto
    then have "n div 10 < 10 ^ m" using 1(2) by (simp add: less_mult_imp_div_less mult.commute)
    then show ?thesis using 1(1) [OF False, of m] k False by (simp add: show_nat.simps [of n])
  qed (use 1(3) in \<open>simp add: show_nat.simps [of n]\<close>)
qed

lemma base_digit_mono: "base_digit b c \<Longrightarrow> b \<le> 16 \<Longrightarrow> base_digit 16 c"
  by (auto simp: base_digit_def split: option.splits)

lemma digits_no_prefix:
  assumes "list_all (base_digit 16) ds" and "ds \<noteq> []"
  shows "\<not> hex_prefix ds" and "c \<noteq> CHR ''x'' \<Longrightarrow> c \<noteq> CHR ''X'' \<Longrightarrow> \<not> hex_prefix (ds @ c # t)"
proof -
  obtain d r where ds: "ds = d # r" using assms(2) by (cases ds) auto
  have r: "x \<noteq> CHR ''x'' \<and> x \<noteq> CHR ''X''" if "x \<in> set r" for x
    using base_digit_not(2) [of x] assms(1) that by (auto simp: ds list_all_iff)
  have no: "\<not> hex_prefix (d # s)" if "s = [] \<or> hd s \<noteq> CHR ''x'' \<and> hd s \<noteq> CHR ''X''" for s
  proof (cases s)
    case (Cons x t)
    then show ?thesis using that by (cases t) simp_all
  qed simp
  show "\<not> hex_prefix ds" unfolding ds using r by (intro no) (cases r, simp_all)
  show "\<not> hex_prefix (ds @ c # t)" if c: "c \<noteq> CHR ''x''" "c \<noteq> CHR ''X''"
    unfolding ds append_Cons using r c by (intro no) (cases r, simp_all)
qed

text \<open>What stops a number: the end or a character that continues neither digits nor a prefix.\<close>

definition stops :: "string \<Rightarrow> bool" where
  "stops s \<longleftrightarrow> (case s of [] \<Rightarrow> True | c # _ \<Rightarrow> \<not> base_digit 16 c \<and> c \<noteq> CHR ''x'' \<and> c \<noteq> CHR ''X'')"

lemma scan_digits:
  assumes "list_all (base_digit b) ds" and "ds \<noteq> []" and "b \<le> 16" and "digits_val b ds < 2 ^ w" and "stops s"
    and "list_all isspace ws"
  shows "scan_uint b w (ws @ ds @ s) = Some (Some (int (digits_val b ds), s))"
proof -
  have h: "list_all (base_digit 16) ds" using assms(1,3) base_digit_mono by (force simp: list_all_iff)
  obtain c ds' where ds: "ds = c # ds'" "base_digit 16 c" using h assms(2) by (cases ds) auto
  have sg: "strtoull_sign (dropWhile isspace (ws @ ds @ s)) = (False, ds @ s)"
    using assms(6) base_digit_not [OF ds(2)] by (auto simp: dropWhile_append list_all_iff ds(1))
  have np: "\<not> hex_prefix (ds @ s)"
  proof (cases s)
    case (Cons c t)
    then show ?thesis using digits_no_prefix(2) [OF h assms(2), of c t] assms(5) by (simp add: stops_def)
  qed (use digits_no_prefix(1) [OF h assms(2)] in simp)
  have "takeWhile (base_digit b) (ds @ s) = ds @ takeWhile (base_digit b) s"
    using assms(1) by (intro takeWhile_append2) (simp add: list_all_iff)
  moreover have "takeWhile (base_digit b) s = []"
    using assms(3,5) base_digit_mono by (cases s) (auto simp: stops_def)
  ultimately have "takeWhile (base_digit b) (ds @ s) = ds" by simp
  moreover have "int (digits_val b ds) mod 2 ^ w = int (digits_val b ds)"
    using assms(4) by (metis mod_less of_nat_mod of_nat_numeral of_nat_power)
  ultimately show ?thesis using np assms(2,4) sg by (simp add: scan_uint_def Let_def not_le)
qed

lemma dec_digits_base: "list_all dec_char ds \<Longrightarrow> list_all (base_digit 10) ds"
  using dec_base_digit by (force simp: list_all_iff)

lemma scan_nat:
  "n < 2 ^ w \<Longrightarrow> stops s \<Longrightarrow> list_all isspace ws \<Longrightarrow> scan_uint 10 w (ws @ show_nat n @ s) = Some (Some (int n, s))"
  using scan_digits [of 10 "show_nat n" w s ws] show_nat_digits [of n] dec_digits_base by simp

lemma scan_hex:
  "n < 2 ^ w \<Longrightarrow> stops s \<Longrightarrow> list_all isspace ws \<Longrightarrow> scan_uint 16 w (ws @ show_hex n @ s) = Some (Some (int n, s))"
  using scan_digits [of 16 "show_hex n" w s ws] show_hex_digits [of n] by simp

section \<open>The results file\<close>

text \<open>What \<^verbatim>\<open>printSummary\<close> writes to \<^verbatim>\<open>.csim_results\<close>.\<close>

definition printSummary :: "int \<Rightarrow> int \<Rightarrow> int \<Rightarrow> string" where
  "printSummary hits misses evictions =
     show_int hits @ '' '' @ show_int misses @ '' '' @ show_int evictions @ [NL]"

lemma stops_simps [simp]: "stops []" "stops (CHR '' '' # s)" "stops (NL # s)" "stops (CHR '','' # s)"
  by (simp_all add: stops_def) (simp_all add: base_digit_def hex_val_def dec_char_def less_eq_char_def)

lemma isspace_simps [simp]: "isspace (CHR '' '')"
  by (simp add: isspace_def)

lemmas scan_simps = scan_nat [where ws = "[]", simplified] scan_nat [where ws = "'' ''", simplified]
  scan_hex [where ws = "[]", simplified] scan_hex [where ws = "'' ''", simplified]

lemma printSummary_scan:
  assumes "h < 2 ^ 31" and "m < 2 ^ 31" and "e < 2 ^ 31"
  shows "scan_vars 10 32 (printSummary (int h) (int m) (int e)) [v1, v2, v3] = Some [Some (int h), Some (int m), Some (int e)]"
  using assms by (simp add: printSummary_def show_int_def scan_simps)

text \<open>A run of \<^verbatim>\<open>csim\<close> on a trace file with the options of \<^verbatim>\<open>test-trans\<close>: what it leaves in \<^verbatim>\<open>.csim_results\<close>.\<close>

definition csim_results :: "int list \<Rightarrow> nat \<Rightarrow> nat \<Rightarrow> nat \<Rightarrow> string \<Rightarrow> string option" where
  "csim_results past s E b trace =
     (case csim_main past (\<lambda>f. if f = ''t'' then Some trace else None)
        [(CHR ''s'', show_nat s), (CHR ''E'', show_nat E), (CHR ''b'', show_nat b), (CHR ''t'', ''t'')] of
        Some (Some (h, m, e)) \<Rightarrow> Some (printSummary h m e)
      | _ \<Rightarrow> None)"

section \<open>Reference simulators\<close>

lemma lru_run_small:
  assumes "length accs < 2 ^ 30"
  shows "lru_hits (lru_run S E B accs) < 2 ^ 31 \<and> lru_misses (lru_run S E B accs) < 2 ^ 31 \<and> lru_evicts (lru_run S E B accs) < 2 ^ 31"
  using lru_run_counts [of S "nat E" B accs "lru_init S"] assms by (simp add: lru_run_def lru_init_def)

text \<open>What users of a simulator rely on: on a trace file of well-formed lines it writes the hits, misses and
  evictions of a cache with least-recently-used replacement.\<close>

locale simulator =
  fixes sim :: "nat \<Rightarrow> nat \<Rightarrow> nat \<Rightarrow> string \<Rightarrow> string option"
  assumes sim_lru:
    "geometry (2 ^ s) (int E) (2 ^ b) \<Longrightarrow> \<forall>l \<in> set ls. wf_line l \<Longrightarrow> length ls < 2 ^ 30 \<Longrightarrow>
     r = lru_run (2 ^ s) (int E) (2 ^ b) (map line_acc ls) \<Longrightarrow>
     sim s E b (concat (map line_text ls)) = Some (printSummary (int (lru_hits r)) (int (lru_misses r)) (int (lru_evicts r)))"
begin

lemma sim_scan:
  assumes "geometry (2 ^ s) (int E) (2 ^ b)" and "\<forall>l \<in> set ls. wf_line l" and "length ls < 2 ^ 30"
    and "r = lru_run (2 ^ s) (int E) (2 ^ b) (map line_acc ls)"
  shows "\<exists>txt. sim s E b (concat (map line_text ls)) = Some txt \<and>
    scan_vars 10 32 txt [v1, v2, v3] = Some [Some (int (lru_hits r)), Some (int (lru_misses r)), Some (int (lru_evicts r))]"
proof -
  have "lru_hits r < 2 ^ 31 \<and> lru_misses r < 2 ^ 31 \<and> lru_evicts r < 2 ^ 31"
    using lru_run_small [of "map line_acc ls"] assms(3,4) by simp
  then show ?thesis using sim_lru [OF assms] printSummary_scan by simp
qed

end

text \<open>The simulator of the lab is one, when two cells behind its array can be read.\<close>

lemma geometry_bits: "geometry (2 ^ s) E (2 ^ b) \<Longrightarrow> s < 31 \<and> b < 31"
proof -
  assume g: "geometry (2 ^ s) E (2 ^ b)"
  have "(2 :: int) ^ (b + s) < 2 ^ 31" using g by (simp add: geometry_def power_add)
  then have "b + s < 31" by (rule power_less_imp_less_exp [rotated]) simp
  then show ?thesis by simp
qed

lemma csim_input:
  assumes "geometry (2 ^ s) (int E) (2 ^ b)"
  shows "getInput (\<lambda>f. if f = ''t'' then Some txt else None)
     [(CHR ''s'', show_nat s), (CHR ''E'', show_nat E), (CHR ''b'', show_nat b), (CHR ''t'', ''t'')] =
   Some (Some (2 ^ s, int E, 2 ^ b, txt))"
proof -
  have "(1 :: int) * (2 * int E) \<le> 2 ^ s * (2 * int E)" by (intro mult_right_mono) simp_all
  moreover have "2 ^ s * (2 * int E) < 2 ^ 31" using assms unfolding geometry_def by linarith
  ultimately have "int E < 2 ^ 31" by linarith
  then show ?thesis using geometry_bits [OF assms] by (simp add: getInput_def pow2_arg_def int_ok_def)
qed

lemma csim_is_simulator: "simulator (csim_results (p # q # past))"
proof
  fix s E b ls r
  assume g: "geometry (2 ^ s) (int E) (2 ^ b)" and wf: "\<forall>l \<in> set ls. wf_line l" and n: "length ls < 2 ^ 30"
    and r: "r = lru_run (2 ^ s) (int E) (2 ^ b) (map line_acc ls)"
  have past: "2 \<le> length (p # q # past)" by simp
  show "csim_results (p # q # past) s E b (concat (map line_text ls)) =
      Some (printSummary (int (lru_hits r)) (int (lru_misses r)) (int (lru_evicts r)))"
    using csim_main_run [OF csim_input [OF g] g wf n past] r by (auto simp: csim_results_def)
qed

interpretation csim: simulator "csim_results (p # q # past)" for p q past
  by (rule csim_is_simulator)

section \<open>\<^verbatim>\<open>tracegen\<close>\<close>

text \<open>The options; \<open>None\<close> is the exit with status 1.  \<^verbatim>\<open>-1\<close> selects every function.\<close>

fun tracegen_opts :: "(char \<times> string) list \<Rightarrow> int \<times> int \<times> int \<Rightarrow> (int \<times> int \<times> int) option ub" where
  "tracegen_opts [] s = Some (Some s)"
| "tracegen_opts ((c, arg) # opts) (M, N, F) =
     (if c = CHR ''M'' then do { v \<leftarrow> atoi arg; tracegen_opts opts (v, N, F) }
      else if c = CHR ''N'' then do { v \<leftarrow> atoi arg; tracegen_opts opts (M, v, F) }
      else if c = CHR ''F'' then do { v \<leftarrow> atoi arg; tracegen_opts opts (M, N, v) }
      else Some None)"

text \<open>The marker file: the addresses of \<^verbatim>\<open>MARKER_START\<close> and \<^verbatim>\<open>MARKER_END\<close>.\<close>

definition marker_text :: "nat \<Rightarrow> nat \<Rightarrow> string" where
  "marker_text start fin = show_hex start @ '' '' @ show_hex fin"

text \<open>A run: the exit status and the marker file.  Matrix types need positive dimensions; any other
  negative function number is outside the table.\<close>

definition tracegen ::
  "(nat \<Rightarrow> i32) \<Rightarrow> nat \<Rightarrow> nat \<Rightarrow> (char \<times> string) list \<Rightarrow> (nat \<times> string option) ub" where
  "tracegen rnd start fin opts = do {
     parsed \<leftarrow> tracegen_opts opts (0, 0, -1);
     (case parsed of
        None \<Rightarrow> Some (1, None)
      | Some (M, N, F) \<Rightarrow>
          if M \<le> 0 \<or> N \<le> 0 \<or> F < -1 then None
          else do {
            status \<leftarrow> tracegen_main rnd (if F = -1 then None else Some (nat F)) (nat M) (nat N);
            Some (status, Some (marker_text start fin))
          })
   }"

lemma marker_scan:
  "a < 2 ^ 64 \<Longrightarrow> b < 2 ^ 64 \<Longrightarrow> scan_vars 16 64 (marker_text a b) [v1, v2] = Some [Some (int a), Some (int b)]"
  using scan_hex [of b 64 "[]" "'' ''"] by (simp add: marker_text_def scan_simps)

lemma atoi_show_nat: "n < 2 ^ 31 \<Longrightarrow> atoi (show_nat n) = Some (int n)"
  by (simp add: atoi_def int_ok_def)

lemma tracegen_ok:
  assumes "0 < M" and "0 < N" and "M \<le> 256" and "N \<le> 256" and "i < 2"
  shows "tracegen rnd a b [(CHR ''M'', show_nat M), (CHR ''N'', show_nat N), (CHR ''F'', show_nat i)] =
    Some (0, Some (marker_text a b))"
proof -
  have "M * N \<le> 256 * 256" by (rule mult_le_mono [OF assms(3,4)])
  moreover have "Some i \<in> {None, Some 0, Some 1}" using assms(5) by auto
  ultimately have "tracegen_main rnd (Some i) M N = Some 0" by (rule tracegen_runs)
  then show ?thesis using assms by (simp add: tracegen_def atoi_show_nat)
qed

end
