(* ===== verification/Test_Trans.thy ===== *)
theory Test_Trans
  imports Cache_Files
begin

text \<open>
  \<^verbatim>\<open>lab8/test-trans.c\<close>: it runs \<^verbatim>\<open>tracegen\<close> under valgrind for each registered transpose, cuts the trace between the
  markers out, lets the reference simulator count the misses and reports those of the submission.
\<close>

section \<open>Data\<close>

definition MAXN :: int where "MAXN = 256"

definition SUBMIT_DESCRIPTION :: string where "SUBMIT_DESCRIPTION = ''Transpose submission''"

record results =
  funcid :: int
  res_correct :: int
  res_misses :: int

datatype tt_msg =
  Usage | MissingArgument | ExceedsMax | NoHandler
| Validating nat nat | ValidationError int nat | Evaluating nat nat nat | Performance nat string int int int
| NoSubmission | Summary int int int | Results int int | SegmentationFault | TimedOut

datatype tt_signal = SIGSEGV | SIGALRM

text \<open>What surrounds the program: the exit status of \<^verbatim>\<open>tracegen\<close> and the files it leaves under valgrind for each
  function, the reference simulator (trace to results file), how much of a stream that was never closed has
  reached its file, whether \<^verbatim>\<open>signal\<close> succeeds, and the signals that arrive.\<close>

record env =
  status :: "int \<Rightarrow> int \<Rightarrow> nat \<Rightarrow> nat"
  trace_tmp :: "nat \<Rightarrow> string option"
  marker :: "nat \<Rightarrow> string option"
  csim_ref :: "nat \<Rightarrow> nat \<Rightarrow> nat \<Rightarrow> string \<Rightarrow> string option"
  flushed :: "string \<Rightarrow> string"
  signal_ok :: "tt_signal \<Rightarrow> bool"
  arrives :: "nat \<Rightarrow> tt_signal option"

text \<open>The variables of \<^verbatim>\<open>eval_perf\<close> keep their values from one function to the next; \<open>None\<close> is uninitialised.\<close>

record perf =
  func_list :: "trans_func list"
  results :: results
  markers :: "int option list"
  addr :: "int option"
  counts :: "int option list"
  msgs :: "tt_msg list"

text \<open>How the program ends: a failed \<^verbatim>\<open>assert\<close>, or an exit status after some output.\<close>

datatype tt_end = Abort | Exit int "tt_msg list"

section \<open>The trace of one function\<close>

text \<open>A line of the trace that is a data access.\<close>

fun is_data :: "string \<Rightarrow> bool" where
  "is_data (c0 # c1 # c2 # _) \<longleftrightarrow> c0 = CHR '' '' \<and> c2 = CHR '' '' \<and> c1 \<in> {CHR ''S'', CHR ''M'', CHR ''L''}"
| "is_data _ \<longleftrightarrow> False"

text \<open>\<^verbatim>\<open>sscanf(buf + 3, "%llx,%u", &addr, &len)\<close>; the length is not used but has to fit.\<close>

definition scan_access :: "string \<Rightarrow> int option \<Rightarrow> int option ub" where
  "scan_access s a = do {
     r \<leftarrow> scan_uint 16 64 s;
     (case r of
        None \<Rightarrow> Some a
      | Some (n, t) \<Rightarrow>
          if t \<noteq> [] \<and> hd t = CHR '','' then do { _ \<leftarrow> scan_uint 10 32 (tl t); Some (Some n) } else Some (Some n))
   }"

text \<open>The loop over the lines: the last address, what is written to the filtered trace, and whether the end
  marker was found, which closes it.\<close>

function locate :: "int option \<Rightarrow> int option \<Rightarrow> string \<Rightarrow> int option \<Rightarrow> bool \<Rightarrow> string \<Rightarrow> (int option \<times> string \<times> bool) ub" where
  "locate start fin trace a flag out =
     (if trace = [] then Some (a, out, False)
      else let (buf, rest) = fgets_line 999 trace
           in if \<not> is_data buf then locate start fin rest a flag out
              else do {
                a \<leftarrow> scan_access (c_str (drop 3 buf)) a;
                addr \<leftarrow> a; marker_start \<leftarrow> start; marker_end \<leftarrow> fin;
                let flag = (flag \<or> addr = marker_start);
                let out = (if flag \<and> addr < 0xffffffff then out @ c_str buf else out);
                if addr = marker_end then Some (a, out, True)
                else locate start fin rest a flag out
              })"
  by pat_completeness auto
termination
proof (relation "measure (\<lambda>(start, fin, trace, a, flag, out). length trace)", goal_cases)
  case (2 start fin trace a flag out x buf rest)
  then show ?case using fgets_line_length [of 999 trace] by simp (metis snd_conv)
next
  case (3 start fin trace a flag out x buf rest)
  then show ?case using fgets_line_length [of 999 trace] by simp (metis snd_conv)
qed simp

declare locate.simps [simp del]

section \<open>\<^verbatim>\<open>eval_perf\<close>\<close>

text \<open>What the simulator reads: all of a closed file, otherwise what has been flushed.\<close>

definition part_trace :: "env \<Rightarrow> string \<times> bool \<Rightarrow> string" where
  "part_trace w p = (case p of (out, closed) \<Rightarrow> if closed then out else flushed w out)"

definition printing :: "tt_msg \<Rightarrow> perf \<Rightarrow> perf" where
  "printing t p = p\<lparr>msgs := msgs p @ [t]\<rparr>"

text \<open>Step 1: the function is validated and its markers are read.  The second component tells that the
  evaluation of this function is skipped.\<close>

definition validate_func :: "env \<Rightarrow> int \<Rightarrow> int \<Rightarrow> nat \<Rightarrow> perf \<Rightarrow> (tt_end + perf \<times> bool) ub" where
  "validate_func w M N i p =
     (let p = (if description (func_list p ! i) = SUBMIT_DESCRIPTION then p\<lparr>results := (results p)\<lparr>funcid := int i\<rparr>\<rparr> else p);
          p = printing (Validating i (length (func_list p))) p;
          flag = status w M N i
      in if flag \<noteq> 0 then Some (Inr (printing (ValidationError (int flag - 1) i) p, True))
         else (case marker w i of
             None \<Rightarrow> Some (Inl Abort)
           | Some text \<Rightarrow> do {
               ms \<leftarrow> scan_vars 16 64 text (markers p);
               let p = p\<lparr>markers := ms, func_list := (func_list p)[i := (func_list p ! i)\<lparr>correct := True\<rparr>]\<rparr>;
               let p = (if funcid (results p) = int i then p\<lparr>results := (results p)\<lparr>res_correct := 1\<rparr>\<rparr> else p);
               Some (Inr (p, False))
             }))"

text \<open>The results file of the simulator; \<^verbatim>\<open>misses\<close> is converted to \<^verbatim>\<open>int\<close> for the results.\<close>

definition collect :: "nat \<Rightarrow> string \<Rightarrow> perf \<Rightarrow> perf ub" where
  "collect i text p = do {
     cs \<leftarrow> scan_vars 10 32 text (counts p);
     hits \<leftarrow> cs ! 0; misses \<leftarrow> cs ! 1; evictions \<leftarrow> cs ! 2;
     let f = (func_list p ! i)\<lparr>num_hits := nat hits, num_misses := nat misses, num_evictions := nat evictions\<rparr>;
     let p = printing (Performance i (description f) hits misses evictions) (p\<lparr>counts := cs, func_list := (func_list p)[i := f]\<rparr>);
     Some (if funcid (results p) = int i then p\<lparr>results := (results p)\<lparr>res_misses := to_int misses\<rparr>\<rparr> else p)
   }"

text \<open>Step 2: the trace is filtered and simulated.\<close>

definition measure_func :: "env \<Rightarrow> nat \<Rightarrow> nat \<Rightarrow> nat \<Rightarrow> nat \<Rightarrow> perf \<Rightarrow> (tt_end + perf) ub" where
  "measure_func w s E b i p =
     (case trace_tmp w i of
        None \<Rightarrow> Some (Inl Abort)
      | Some trace \<Rightarrow> do {
          (a, part) \<leftarrow> locate (markers p ! 0) (markers p ! 1) trace (addr p) False [];
          let p = printing (Evaluating s E b) (p\<lparr>addr := a\<rparr>);
          (case csim_ref w s E b (part_trace w part) of
             None \<Rightarrow> Some (Inl Abort)
           | Some text \<Rightarrow> map_option Inr (collect i text p))
        })"

definition handler :: "tt_signal \<Rightarrow> tt_msg list \<Rightarrow> tt_end" where
  "handler sig out = Exit 1 (out @ [case sig of SIGSEGV \<Rightarrow> SegmentationFault | SIGALRM \<Rightarrow> TimedOut, Results 0 0])"

definition eval_func :: "env \<Rightarrow> int \<Rightarrow> int \<Rightarrow> nat \<Rightarrow> nat \<Rightarrow> nat \<Rightarrow> nat \<Rightarrow> perf \<Rightarrow> (tt_end + perf) ub" where
  "eval_func w M N s E b i p = do {
     r \<leftarrow> validate_func w M N i p;
     (case r of
        Inl e \<Rightarrow> Some (Inl e)
      | Inr (p, skipped) \<Rightarrow>
          (case arrives w i of
             Some sig \<Rightarrow> Some (Inl (handler sig (msgs p)))
           | None \<Rightarrow> if skipped then Some (Inr p) else measure_func w s E b i p))
   }"

text \<open>The loop over the functions from the \<open>i\<close>-th, of which \<open>n\<close> are left.\<close>

fun eval_funcs :: "env \<Rightarrow> int \<Rightarrow> int \<Rightarrow> nat \<Rightarrow> nat \<Rightarrow> nat \<Rightarrow> nat \<Rightarrow> nat \<Rightarrow> perf \<Rightarrow> (tt_end + perf) ub" where
  "eval_funcs w M N s E b 0 i p = Some (Inr p)"
| "eval_funcs w M N s E b (Suc n) i p = do {
     r \<leftarrow> eval_func w M N s E b i p;
     (case r of Inl e \<Rightarrow> Some (Inl e) | Inr p \<Rightarrow> eval_funcs w M N s E b n (i + 1) p)
   }"

definition eval_perf :: "env \<Rightarrow> int \<Rightarrow> int \<Rightarrow> nat \<Rightarrow> nat \<Rightarrow> nat \<Rightarrow> perf \<Rightarrow> (tt_end + perf) ub" where
  "eval_perf w M N s E b p = do {
     fs \<leftarrow> registerFunctions (func_list p);
     eval_funcs w M N s E b (length fs) 0 (p\<lparr>func_list := fs\<rparr>)
   }"

section \<open>\<^verbatim>\<open>main\<close>\<close>

text \<open>The options, as \<^verbatim>\<open>getopt\<close> yields them: the dimensions or the exit status after the usage.\<close>

fun tt_opts :: "(char \<times> string) list \<Rightarrow> int \<times> int \<Rightarrow> (int + int \<times> int) ub" where
  "tt_opts [] s = Some (Inr s)"
| "tt_opts ((c, arg) # opts) (M, N) =
     (if c = CHR ''M'' then do { v \<leftarrow> atoi arg; tt_opts opts (v, N) }
      else if c = CHR ''N'' then do { v \<leftarrow> atoi arg; tt_opts opts (M, v) }
      else Some (Inl (if c = CHR ''h'' then 0 else 1)))"

definition perf0 :: perf where
  "perf0 = \<lparr>func_list = [], results = \<lparr>funcid = -1, res_correct = 0, res_misses = 2 ^ 31 - 1\<rparr>,
     markers = [None, None], addr = None, counts = [None, None, None], msgs = []\<rparr>"

definition report :: "results \<Rightarrow> tt_msg list" where
  "report r =
     (if funcid r = -1 then [NoSubmission, Results 0 0]
      else [Summary (funcid r) (res_correct r) (res_misses r), Results (res_correct r) (res_misses r)])"

definition tt_main :: "env \<Rightarrow> (char \<times> string) list \<Rightarrow> tt_end ub" where
  "tt_main w opts = do {
     parsed \<leftarrow> tt_opts opts (0, 0);
     (case parsed of
        Inl e \<Rightarrow> Some (Exit e [Usage])
      | Inr (M, N) \<Rightarrow>
          if M = 0 \<or> N = 0 then Some (Exit 1 [MissingArgument, Usage])
          else if M > MAXN \<or> N > MAXN then Some (Exit 1 [ExceedsMax, Usage])
          else if \<not> signal_ok w SIGSEGV \<or> \<not> signal_ok w SIGALRM then Some (Exit 1 [NoHandler])
          else do {
            r \<leftarrow> eval_perf w M N 5 1 5 perf0;
            Some (case r of Inl e \<Rightarrow> e | Inr p \<Rightarrow> Exit 0 (msgs p @ report (results p)))
          })
   }"

section \<open>Traces\<close>

text \<open>A trace of valgrind: data accesses (\<^verbatim>\<open>%08lx\<close> and the size), and other lines.\<close>

datatype tr_line = Access char nat nat | Other string

definition hex8 :: "nat \<Rightarrow> string" where
  "hex8 a = replicate (8 - length (show_hex a)) (CHR ''0'') @ show_hex a"

fun tr_text :: "tr_line \<Rightarrow> string" where
  "tr_text (Access c a z) = line_text (CHR '' '', c, hex8 a, show_nat z)"
| "tr_text (Other s) = s @ [NL]"

fun wf_tr :: "tr_line \<Rightarrow> bool" where
  "wf_tr (Access c a z) \<longleftrightarrow> is_access c \<and> a < 2 ^ 64 \<and> z < 2 ^ 32"
| "wf_tr (Other s) \<longleftrightarrow> NL \<notin> set s \<and> length s < 999 \<and> \<not> is_data (s @ [NL])"

fun at_address :: "nat \<Rightarrow> tr_line \<Rightarrow> bool" where
  "at_address m (Access c a z) \<longleftrightarrow> a = m"
| "at_address m (Other s) \<longleftrightarrow> False"

text \<open>The accesses below the stack, as lines and as accesses.\<close>

fun low_lines :: "tr_line list \<Rightarrow> tline list" where
  "low_lines [] = []"
| "low_lines (Access c a z # ls) = (if a < 0xffffffff then [(CHR '' '', c, hex8 a, show_nat z)] else []) @ low_lines ls"
| "low_lines (Other s # ls) = low_lines ls"

fun low_accesses :: "tr_line list \<Rightarrow> (char \<times> int) list" where
  "low_accesses [] = []"
| "low_accesses (Access c a z # ls) = (if a < 0xffffffff then [(c, int a)] else []) @ low_accesses ls"
| "low_accesses (Other s # ls) = low_accesses ls"

lemma hex8_digits: "list_all (base_digit 16) (hex8 a) \<and> hex8 a \<noteq> [] \<and> digits_val 16 (hex8 a) = a"
proof -
  have "digits_val 16 (replicate k (CHR ''0'') @ ds) = digits_val 16 ds" for k ds
    by (induction k) (simp_all add: digits_val_def hex_val_def dec_char_def)
  moreover have "base_digit 16 (CHR ''0'')" by code_simp
  ultimately show ?thesis using show_hex_digits [of a] by (auto simp: hex8_def list_all_iff)
qed

lemma hex8_length: "a < 2 ^ 32 \<Longrightarrow> length (hex8 a) = 8" "a < 2 ^ 64 \<Longrightarrow> length (hex8 a) \<le> 16"
  using show_hex_length [of a 8] show_hex_length [of a 16] by (simp_all add: hex8_def)

lemma no_special:
  "c \<in> set (hex8 a) \<Longrightarrow> c \<noteq> NL \<and> c \<noteq> CHR 0x00" "c \<in> set (show_nat z) \<Longrightarrow> c \<noteq> NL \<and> c \<noteq> CHR 0x00"
  using hex8_digits [of a] show_nat_digits [of z] base_digit_not(2) [of c] base_digit_mono [of 10 c] dec_base_digit [of c]
  by (force simp: list_all_iff)+

lemma low_lines_ok:
  "list_all wf_tr ls \<Longrightarrow> list_all wf_line (low_lines ls) \<and> map line_acc (low_lines ls) = low_accesses ls \<and>
   length (low_lines ls) \<le> length ls"
proof (induction ls rule: low_lines.induct)
  case (2 c a z ls)
  have "wf_line (CHR '' '', c, hex8 a, show_nat z)" if "a < 0xffffffff"
    using 2(2) that hex8_length(1) [of a] hex8_digits [of a] show_nat_length [of z 10] no_special(2) [of NL z]
    by (auto simp: wf_line_def is_access_def)
  then show ?case using 2 hex8_digits [of a] by (simp add: line_acc_def)
qed (simp_all add: le_SucI)

lemma low_lines_append: "low_lines (xs @ ys) = low_lines xs @ low_lines ys"
  by (induction xs rule: low_lines.induct) auto

lemma locate_other:
  assumes "wf_tr (Other s)"
  shows "locate m0 m1 (tr_text (Other s) @ rest) a flag out = locate m0 m1 rest a flag out"
  using assms fgets_whole [of s 999 rest] by (subst locate.simps) simp

lemma locate_access:
  assumes "wf_tr (Access c a z)"
  shows "locate (Some m0) (Some m1) (tr_text (Access c a z) @ rest) x flag out =
    (let flag = (flag \<or> int a = m0);
         out = (if flag \<and> a < 0xffffffff then out @ tr_text (Access c a z) else out)
     in if int a = m1 then Some (Some (int a), out, True) else locate (Some m0) (Some m1) rest (Some (int a)) flag out)"
proof -
  let ?s = "[CHR '' '', c, CHR '' ''] @ hex8 a @ CHR '','' # show_nat z"
  have t: "tr_text (Access c a z) = ?s @ [NL]" by (simp add: line_text_def)
  have c: "c \<in> {CHR ''S'', CHR ''M'', CHR ''L''}" using assms by (auto simp: is_access_def)
  have "length ?s < 999" using assms hex8_length(2) [of a] show_nat_length [of z 10] by simp
  moreover have n: "\<forall>x \<in> set ?s. x \<noteq> NL \<and> x \<noteq> CHR 0x00" using c no_special(1) [of _ a] no_special(2) [of _ z] by auto
  ultimately have f: "fgets_line 999 (?s @ NL # rest) = (?s @ [NL], rest)" by (intro fgets_whole) auto
  have cs: "c_str (?s @ [NL]) = ?s @ [NL]" "c_str (drop 3 (?s @ [NL])) = hex8 a @ CHR '','' # show_nat z @ [NL]"
    using n by (auto simp: c_str_def)
  have "scan_access (hex8 a @ CHR '','' # show_nat z @ [NL]) x = Some (Some (int a))"
    using assms scan_digits [of 16 "hex8 a" 64 "CHR '','' # show_nat z @ [NL]" "[]"] hex8_digits [of a]
      scan_nat [of z 32 "[NL]" "[]"] by (simp add: scan_access_def)
  then show ?thesis using f cs c unfolding t by (subst locate.simps) (simp add: Let_def)
qed

section \<open>Between the markers\<close>

text \<open>The lines from the first access to the start marker up to the next access to the end marker; a trace in
  which both are there and the end marker does not come first.\<close>

definition between :: "nat \<Rightarrow> nat \<Rightarrow> tr_line list \<Rightarrow> tr_line list" where
  "between m0 m1 ls =
     (let d = dropWhile (\<lambda>l. \<not> at_address m0 l) ls
      in takeWhile (\<lambda>l. \<not> at_address m1 l) d @ take 1 (dropWhile (\<lambda>l. \<not> at_address m1 l) d))"

definition marked :: "nat \<Rightarrow> nat \<Rightarrow> tr_line list \<Rightarrow> bool" where
  "marked m0 m1 ls \<longleftrightarrow> m0 \<noteq> m1 \<and> list_all wf_tr ls \<and> list_ex (at_address m0) ls \<and>
     list_ex (at_address m1) (dropWhile (\<lambda>l. \<not> at_address m0 l) ls) \<and>
     list_all (\<lambda>l. \<not> at_address m1 l) (takeWhile (\<lambda>l. \<not> at_address m0 l) ls)"

abbreviation (input) "texts ls \<equiv> concat (map tr_text ls)"
abbreviation (input) "low_text ls \<equiv> concat (map line_text (low_lines ls))"

lemma locate_run:
  assumes "list_all wf_tr ls" and "\<forall>l \<in> set ls. \<not> at_address m1 l" and "flag \<or> (\<forall>l \<in> set ls. \<not> at_address m0 l)"
  shows "\<exists>x'. locate (Some (int m0)) (Some (int m1)) (texts ls @ rest) x flag out =
    locate (Some (int m0)) (Some (int m1)) rest x' flag (if flag then out @ low_text ls else out)"
  using assms
proof (induction ls arbitrary: x out)
  case (Cons l ls)
  let ?out = "if flag then out @ low_text [l] else out"
  obtain x1 where l: "locate (Some (int m0)) (Some (int m1)) (tr_text l @ texts ls @ rest) x flag out =
      locate (Some (int m0)) (Some (int m1)) (texts ls @ rest) x1 flag ?out"
  proof (cases l)
    case (Access c a z)
    show thesis by (rule that [of "Some (int a)"])
      (use Access Cons.prems locate_access [of c a z "int m0" "int m1" "texts ls @ rest" x flag out] in auto)
  next
    case (Other s)
    show thesis by (rule that [of x])
      (use Other Cons.prems locate_other [of s "Some (int m0)" "Some (int m1)" "texts ls @ rest" x flag out] in auto)
  qed
  obtain x2 where "locate (Some (int m0)) (Some (int m1)) (texts ls @ rest) x1 flag ?out =
      locate (Some (int m0)) (Some (int m1)) rest x2 flag (if flag then ?out @ low_text ls else ?out)"
    using Cons.IH [of x1 ?out] Cons.prems by auto
  moreover have "(if flag then ?out @ low_text ls else ?out) = (if flag then out @ low_text (l # ls) else out)"
    using low_lines_append [of "[l]" ls] by simp
  ultimately show ?case using l by (intro exI [of _ x2]) (simp del: tr_text.simps)
qed auto

lemma locate_to_end:
  assumes "list_all wf_tr (body @ [e])" and "\<forall>l \<in> set body. \<not> at_address m1 l" and "at_address m1 e"
  shows "locate (Some (int m0)) (Some (int m1)) (texts body @ tr_text e @ rest) x True out =
    Some (Some (int m1), out @ low_text (body @ [e]), True)"
proof -
  obtain c z where e: "e = Access c m1 z" using assms(3) by (cases e) auto
  obtain x' where "locate (Some (int m0)) (Some (int m1)) (texts body @ tr_text e @ rest) x True out =
      locate (Some (int m0)) (Some (int m1)) (tr_text e @ rest) x' True (out @ low_text body)"
    using locate_run [of body m1 True m0 "tr_text e @ rest" x out] assms by auto
  then show ?thesis
    using assms(1) locate_access [of c m1 z "int m0" "int m1" rest x' True "out @ low_text body"]
    by (simp add: e low_lines_append)
qed

lemma locate_marked:
  assumes "marked m0 m1 ls"
  shows "locate (Some (int m0)) (Some (int m1)) (texts ls) x False [] =
    Some (Some (int m1), low_text (between m0 m1 ls), True)"
proof -
  let ?pre = "takeWhile (\<lambda>l. \<not> at_address m0 l) ls" and ?d = "dropWhile (\<lambda>l. \<not> at_address m0 l) ls"
  let ?body = "takeWhile (\<lambda>l. \<not> at_address m1 l) ?d" and ?tail = "dropWhile (\<lambda>l. \<not> at_address m1 l) ?d"
  have ls: "ls = ?pre @ ?d" "?d = ?body @ ?tail" by simp_all
  have tx: "texts ?pre @ texts ?d = texts ls" unfolding concat_append [symmetric] map_append [symmetric] by simp
  have wf: "list_all wf_tr ?pre" "list_all wf_tr ?d" using assms ls(1) unfolding marked_def by (metis list_all_append)+
  have wfe: "list_all wf_tr (?body @ [e])" if "?tail = e # post" for e post
    using wf(2) ls(2) that by (metis append.assoc append_Cons append_Nil list_all_append)
  have ne: "?d \<noteq> []" "?tail \<noteq> []" using assms by (auto simp: marked_def list_ex_iff)
  obtain y d where d: "?d = y # d" using ne(1) by (cases ?d) auto
  obtain e post where e: "?tail = e # post" using ne(2) by (cases ?tail) auto
  have td: "texts ?d = texts ?body @ tr_text e @ texts post" by (subst ls(2)) (simp add: e)
  have y: "at_address m0 y" using hd_dropWhile [OF ne(1)] by (simp add: d)
  have ae: "at_address m1 e" using hd_dropWhile [OF ne(2)] by (simp add: e)
  obtain c z where yA: "y = Access c m0 z" using y by (cases y) auto
  have "wf_tr y" using wf(2) by (simp add: d)
  then have start: "locate (Some (int m0)) (Some (int m1)) (tr_text y @ rest) x' False [] =
      locate (Some (int m0)) (Some (int m1)) (tr_text y @ rest) x' True []" for rest x'
    unfolding yA by (simp add: locate_access del: tr_text.simps)
  have "list_all (\<lambda>l. \<not> at_address m1 l) ?pre" using assms by (simp add: marked_def)
  then obtain x' where "locate (Some (int m0)) (Some (int m1)) (texts ?pre @ texts ?d) x False [] =
      locate (Some (int m0)) (Some (int m1)) (texts ?d) x' False []"
    using locate_run [OF wf(1), of m1 False m0 "texts ?d" x "[]"] by (auto simp: list_all_iff dest: set_takeWhileD)
  also have "\<dots> = locate (Some (int m0)) (Some (int m1)) (texts ?d) x' True []" using start by (simp add: d)
  also have "locate (Some (int m0)) (Some (int m1)) (texts ?d) x' True [] = Some (Some (int m1), low_text (?body @ [e]), True)"
    unfolding td using locate_to_end [of ?body e m1 m0 "texts post" x' "[]"] wfe [OF e] ae by (auto dest: set_takeWhileD)
  also have "?body @ [e] = between m0 m1 ls" by (simp add: between_def e)
  finally show ?thesis unfolding tx .
qed

section \<open>A whole run\<close>

text \<open>The files of the run for the \<open>i\<close>-th function: it was accepted, its markers and a trace with both of them.\<close>

definition traced :: "env \<Rightarrow> int \<Rightarrow> int \<Rightarrow> nat \<Rightarrow> nat \<Rightarrow> nat \<Rightarrow> tr_line list \<Rightarrow> bool" where
  "traced w M N i m0 m1 ls \<longleftrightarrow> status w M N i = 0 \<and> marker w i = Some (marker_text m0 m1) \<and>
     trace_tmp w i = Some (texts ls) \<and> marked m0 m1 ls \<and> length ls < 2 ^ 30 \<and> arrives w i = None"

definition counted :: "trans_func \<Rightarrow> lru \<Rightarrow> trans_func" where
  "counted f r = f\<lparr>correct := True, num_hits := lru_hits r, num_misses := lru_misses r, num_evictions := lru_evicts r\<rparr>"

lemma marked_bounds: "marked m0 m1 ls \<Longrightarrow> m0 < 2 ^ 64 \<and> m1 < 2 ^ 64"
proof -
  assume m: "marked m0 m1 ls"
  have b: "m < 2 ^ 64" if "l \<in> set ls" "at_address m l" for l m
    using m that by (cases l) (auto simp: marked_def list_all_iff)
  obtain l0 l1 where "l0 \<in> set ls" "at_address m0 l0"
    "l1 \<in> set (dropWhile (\<lambda>l. \<not> at_address m0 l) ls)" "at_address m1 l1"
    using m by (auto simp: marked_def list_ex_iff)
  then show ?thesis using b [of l0 m0] b [of l1 m1] set_dropWhileD [of l1 _ ls] by blast
qed

lemma between_le: "length (between m0 m1 ls) \<le> length ls"
proof -
  let ?d = "dropWhile (\<lambda>l. \<not> at_address m0 l) ls"
  have "length (takeWhile p d) + length (dropWhile p d) = length d" for p and d :: "tr_line list"
    by (metis length_append takeWhile_dropWhile_id)
  then have "length (between m0 m1 ls) \<le> length ?d" unfolding between_def Let_def length_append length_take
    by (metis add_left_mono min.cobounded1)
  then show ?thesis using length_dropWhile_le le_trans by blast
qed

lemma between_wf: "list_all wf_tr ls \<Longrightarrow> list_all wf_tr (between m0 m1 ls)"
  by (auto simp: between_def Let_def list_all_iff dest!: in_set_takeD set_takeWhileD set_dropWhileD)

context simulator
begin

lemma eval_func_lru:
  assumes "csim_ref w = sim" and "traced w M N i m0 m1 ls" and "i < length (func_list p)"
    and "length (markers p) = 2" and "length (counts p) = 3" and "geometry (2 ^ s) (int E) (2 ^ b)"
    and "description (func_list p ! i) \<noteq> SUBMIT_DESCRIPTION \<Longrightarrow> funcid (results p) \<noteq> int i"
    and r: "r = lru_run (2 ^ s) (int E) (2 ^ b) (low_accesses (between m0 m1 ls))"
  shows "eval_func w M N s E b i p = Some (Inr (p\<lparr>
    func_list := (func_list p)[i := counted (func_list p ! i) r],
    results := (if description (func_list p ! i) = SUBMIT_DESCRIPTION
      then \<lparr>funcid = int i, res_correct = 1, res_misses = int (lru_misses r)\<rparr> else results p),
    markers := [Some (int m0), Some (int m1)], addr := Some (int m1),
    counts := [Some (int (lru_hits r)), Some (int (lru_misses r)), Some (int (lru_evicts r))],
    msgs := msgs p @ [Validating i (length (func_list p)), Evaluating s E b,
      Performance i (description (func_list p ! i)) (int (lru_hits r)) (int (lru_misses r)) (int (lru_evicts r))]\<rparr>))"
proof -
  note tr = assms(2) [unfolded traced_def]
  let ?low = "low_lines (between m0 m1 ls)"
  obtain v1 v2 where ms: "markers p = [v1, v2]" using assms(4) by (auto simp: numeral_2_eq_2 length_Suc_conv)
  obtain v3 v4 v5 where cs: "counts p = [v3, v4, v5]" using assms(5) by (auto simp: numeral_3_eq_3 length_Suc_conv)
  have mk: "scan_vars 16 64 (marker_text m0 m1) [v1, v2] = Some [Some (int m0), Some (int m1)]"
    using tr marked_bounds by (intro marker_scan) auto
  have "list_all wf_tr (between m0 m1 ls)" using tr between_wf by (auto simp: marked_def)
  note low = low_lines_ok [OF this]
  have n: "length ?low < 2 ^ 30" using low between_le [of m0 m1 ls] tr by linarith
  obtain t where sim_t: "sim s E b (concat (map line_text ?low)) = Some t"
    "scan_vars 10 32 t [v3, v4, v5] = Some [Some (int (lru_hits r)), Some (int (lru_misses r)), Some (int (lru_evicts r))]"
    using sim_scan [OF assms(6), of ?low r v3 v4 v5] low n r by (auto simp: list_all_iff)
  have "lru_misses r < 2 ^ 31"
    using lru_run_small [of "low_accesses (between m0 m1 ls)"] n low r by (metis length_map)
  then have k: "to_int (int (lru_misses r)) = int (lru_misses r)" by (intro to_int_id) (simp add: int_ok_def)
  show ?thesis
    using tr assms(1,3,7) mk sim_t ms cs k locate_marked [of m0 m1 ls]
    by (auto simp: eval_func_def validate_func_def measure_func_def part_trace_def collect_def printing_def counted_def Let_def)
qed

end

text \<open>The two registered functions, and a run in which both are accepted and traced.\<close>

definition registered :: "trans_func list" where
  "registered =
     [\<lparr>func_ptr = transpose_submit, description = SUBMIT_DESCRIPTION, correct = False, num_hits = 0, num_misses = 0, num_evictions = 0\<rparr>,
      \<lparr>func_ptr = trans, description = ''Simple row-wise scan transpose'', correct = False, num_hits = 0, num_misses = 0, num_evictions = 0\<rparr>]"

lemma registerFunctions_val: "registerFunctions [] = Some registered"
  by (simp add: registerFunctions_def registerTransFunction_def MAX_TRANS_FUNCS_def registered_def SUBMIT_DESCRIPTION_def)

lemma submit_other: "''Simple row-wise scan transpose'' \<noteq> SUBMIT_DESCRIPTION"
  by (simp add: SUBMIT_DESCRIPTION_def)

text \<open>What the program prints of a function.\<close>

definition measured :: "nat \<Rightarrow> string \<Rightarrow> lru \<Rightarrow> tt_msg list" where
  "measured i desc r = [Validating i 2, Evaluating 5 1 5,
     Performance i desc (int (lru_hits r)) (int (lru_misses r)) (int (lru_evicts r))]"

context simulator
begin

lemma eval_perf_lru:
  assumes "csim_ref w = sim" and "\<forall>i<2. traced w M N i (m0 i) (m1 i) (ls i)"
    and r: "\<forall>i<2. r i = lru_run 32 1 32 (low_accesses (between (m0 i) (m1 i) (ls i)))"
  shows "\<exists>p. eval_perf w M N 5 1 5 perf0 = Some (Inr p) \<and>
    results p = \<lparr>funcid = 0, res_correct = 1, res_misses = int (lru_misses (r 0))\<rparr> \<and>
    msgs p = measured 0 SUBMIT_DESCRIPTION (r 0) @ measured 1 ''Simple row-wise scan transpose'' (r 1)"
proof -
  have g: "geometry (2 ^ 5) (int 1) (2 ^ 5)" by code_simp
  let ?p = "perf0\<lparr>func_list := registered\<rparr>"
  have len: "length registered = 2" "description (registered ! 0) = SUBMIT_DESCRIPTION"
    "description (registered ! 1) = ''Simple row-wise scan transpose''" by (simp_all add: registered_def)
  have t: "traced w M N 0 (m0 0) (m1 0) (ls 0)" "traced w M N 1 (m0 1) (m1 1) (ls 1)" using assms(2) by simp_all
  have r2: "r 0 = lru_run (2 ^ 5) (int 1) (2 ^ 5) (low_accesses (between (m0 0) (m1 0) (ls 0)))"
    "r 1 = lru_run (2 ^ 5) (int 1) (2 ^ 5) (low_accesses (between (m0 1) (m1 1) (ls 1)))" using r by simp_all
  obtain p1 where p1: "eval_func w M N 5 1 5 0 ?p = Some (Inr p1)"
    "p1 = ?p\<lparr>func_list := registered[0 := counted (registered ! 0) (r 0)],
      results := \<lparr>funcid = 0, res_correct = 1, res_misses = int (lru_misses (r 0))\<rparr>,
      markers := [Some (int (m0 0)), Some (int (m1 0))], addr := Some (int (m1 0)),
      counts := [Some (int (lru_hits (r 0))), Some (int (lru_misses (r 0))), Some (int (lru_evicts (r 0)))],
      msgs := measured 0 SUBMIT_DESCRIPTION (r 0)\<rparr>"
    using eval_func_lru [OF assms(1) t(1), of ?p 5 1 5, OF _ _ _ g _ r2(1)] len by (simp add: perf0_def measured_def)
  have fl: "length (func_list p1) = 2" "description (func_list p1 ! 1) = ''Simple row-wise scan transpose''"
    using len by (simp_all add: p1(2))
  obtain p2 where p2: "eval_func w M N 5 1 5 1 p1 = Some (Inr p2)" "results p2 = results p1"
    "msgs p2 = msgs p1 @ measured 1 ''Simple row-wise scan transpose'' (r 1)"
    using eval_func_lru [OF assms(1) t(2), of p1 5 1 5, OF _ _ _ g _ r2(2)] fl submit_other
    by (simp add: p1(2) measured_def)
  have "eval_perf w M N 5 1 5 perf0 = Some (Inr p2)"
    using p1(1) p2(1) by (simp add: eval_perf_def registerFunctions_val perf0_def numeral_2_eq_2 len)
  then show ?thesis using p2 by (simp add: p1(2))
qed

lemma tt_main_lru:
  assumes "csim_ref w = sim" and "0 < M" and "M \<le> 256" and "0 < N" and "N \<le> 256"
    and "signal_ok w SIGSEGV" and "signal_ok w SIGALRM"
    and "\<forall>i<2. traced w (int M) (int N) i (m0 i) (m1 i) (ls i)"
    and r: "\<forall>i<2. r i = lru_run 32 1 32 (low_accesses (between (m0 i) (m1 i) (ls i)))"
  shows "tt_main w [(CHR ''M'', show_nat M), (CHR ''N'', show_nat N)] =
    Some (Exit 0 (measured 0 SUBMIT_DESCRIPTION (r 0) @ measured 1 ''Simple row-wise scan transpose'' (r 1) @
      [Summary 0 1 (int (lru_misses (r 0))), Results 1 (int (lru_misses (r 0)))]))"
  using eval_perf_lru [OF assms(1,8) r] assms(2-7) by (auto simp: tt_main_def atoi_show_nat MAXN_def report_def)

end

section \<open>Rejected and interrupted runs\<close>

text \<open>When \<^verbatim>\<open>tracegen\<close> rejects both functions the score is 0 and the largest \<^verbatim>\<open>int\<close>; a run cut off by a signal
  ends with status 1 and a score of 0 and 0.\<close>

lemma tt_main_rejected:
  assumes "0 < M" and "M \<le> 256" and "0 < N" and "N \<le> 256" and "signal_ok w SIGSEGV" and "signal_ok w SIGALRM"
    and "\<forall>i<2. 0 < status w (int M) (int N) i \<and> arrives w i = None"
  shows "\<exists>out. tt_main w [(CHR ''M'', show_nat M), (CHR ''N'', show_nat N)] =
    Some (Exit 0 (out @ [Summary 0 0 (2 ^ 31 - 1), Results 0 (2 ^ 31 - 1)]))"
proof -
  have dims: "atoi (show_nat M) = Some (int M)" "atoi (show_nat N) = Some (int N)" using assms(2,4) by (simp_all add: atoi_show_nat)
  show ?thesis using assms submit_other
    by (auto simp: tt_main_def dims MAXN_def eval_perf_def perf0_def registerFunctions_val registered_def numeral_2_eq_2
        eval_func_def validate_func_def printing_def report_def)
qed

lemma tt_main_interrupted:
  assumes "0 < M" and "M \<le> 256" and "0 < N" and "N \<le> 256" and "signal_ok w SIGSEGV" and "signal_ok w SIGALRM"
    and "0 < status w (int M) (int N) 0" and "arrives w 0 = Some sig"
  shows "\<exists>out. tt_main w [(CHR ''M'', show_nat M), (CHR ''N'', show_nat N)] = Some (Exit 1 (out @ [Results 0 0]))"
  using assms
  by (auto simp: tt_main_def atoi_show_nat MAXN_def eval_perf_def perf0_def registerFunctions_val registered_def
      eval_func_def validate_func_def printing_def handler_def)

text \<open>The bound on the dimensions is only an upper one.\<close>

lemma tt_main_negative:
  assumes "signal_ok w SIGSEGV" and "signal_ok w SIGALRM"
  shows "tt_main w [(CHR ''M'', ''-3''), (CHR ''N'', ''8'')] =
    do { r \<leftarrow> eval_perf w (-3) 8 5 1 5 perf0;
         Some (case r of Inl e \<Rightarrow> e | Inr p \<Rightarrow> Exit 0 (msgs p @ report (results p))) }"
proof -
  have "atoi ''-3'' = Some (-3)" "atoi ''8'' = Some 8" by code_simp+
  then show ?thesis using assms by (simp add: tt_main_def MAXN_def)
qed

section \<open>Properties\<close>

text \<open>C17: End to end over the cache lab: when \<^verbatim>\<open>tracegen\<close> runs under valgrind as it is written, its traces hold
  the accesses to both markers in order, and the reference simulator writes what a cache with
  least-recently-used replacement of 32 sets of one 32-byte line counts, then \<^verbatim>\<open>test-trans\<close> accepts the
  submission for every size up to 256 by 256 and reports as its misses exactly those of the accesses
  between the markers outside the stack: nothing before, after or on the stack is counted, and no access
  of the trace needs to fit the address buffer of the simulator.\<close>

theorem test_trans_reports_lru:
  assumes "simulator (csim_ref w)" and "0 < M" and "M \<le> 256" and "0 < N" and "N \<le> 256"
    and "signal_ok w SIGSEGV" and "signal_ok w SIGALRM"
    and "\<forall>i<2. tracegen (rnd i) (m0 i) (m1 i) [(CHR ''M'', show_nat M), (CHR ''N'', show_nat N), (CHR ''F'', show_nat i)] =
      Some (status w (int M) (int N) i, marker w i)"
    and "\<forall>i<2. trace_tmp w i = Some (concat (map tr_text (ls i))) \<and> marked (m0 i) (m1 i) (ls i) \<and> length (ls i) < 2 ^ 30 \<and>
      arrives w i = None"
    and "\<forall>i<2. r i = lru_run 32 1 32 (low_accesses (between (m0 i) (m1 i) (ls i)))"
  shows "tt_main w [(CHR ''M'', show_nat M), (CHR ''N'', show_nat N)] =
    Some (Exit 0 (measured 0 SUBMIT_DESCRIPTION (r 0) @ measured 1 ''Simple row-wise scan transpose'' (r 1) @
      [Summary 0 1 (int (lru_misses (r 0))), Results 1 (int (lru_misses (r 0)))]))"
proof -
  have "traced w (int M) (int N) i (m0 i) (m1 i) (ls i)" if "i < 2" for i
    using assms(8,9) that tracegen_ok [OF assms(2,4,3,5) that, of "rnd i" "m0 i" "m1 i"] by (auto simp: traced_def)
  then show ?thesis using simulator.tt_main_lru [OF assms(1) refl assms(2-7) _ assms(10)] by blast
qed

theorem test_trans_reports_lru_witness:
  "tt_main \<lparr>status = (\<lambda>_ _ _. 0),
      trace_tmp = (\<lambda>_. Some (concat (map tr_text [Other ''==7== Lackey'', Access (CHR ''L'') 8192 4, Access (CHR ''S'') 4096 1,
        Access (CHR ''L'') 8192 4, Access (CHR ''S'') 137422172984 8, Access (CHR ''L'') 8192 4, Access (CHR ''S'') 4097 1]))),
      marker = (\<lambda>_. Some (marker_text 4096 4097)), csim_ref = csim_results [0, 0], flushed = id,
      signal_ok = (\<lambda>_. True), arrives = (\<lambda>_. None)\<rparr> [(CHR ''M'', show_nat 4), (CHR ''N'', show_nat 5)] =
   Some (Exit 0 [Validating 0 2, Evaluating 5 1 5, Performance 0 ''Transpose submission'' 1 3 2, Validating 1 2,
     Evaluating 5 1 5, Performance 1 ''Simple row-wise scan transpose'' 1 3 2, Summary 0 1 3, Results 1 3])"
proof -
  let ?ls = "[Other ''==7== Lackey'', Access (CHR ''L'') 8192 4, Access (CHR ''S'') 4096 1,
        Access (CHR ''L'') 8192 4, Access (CHR ''S'') 137422172984 8, Access (CHR ''L'') 8192 4, Access (CHR ''S'') 4097 1]"
  define L where "L = ?ls"
  define T where "T = concat (map tr_text L)"
  define R where "R = lru_run 32 1 32 (low_accesses (between 4096 4097 L))"
  let ?w = "\<lparr>status = (\<lambda>_ _ _. 0), trace_tmp = (\<lambda>_. Some T), marker = (\<lambda>_. Some (marker_text 4096 4097)),
      csim_ref = csim_results [0, 0], flushed = id, signal_ok = (\<lambda>_. True), arrives = (\<lambda>_. None)\<rparr>"
  have m: "marked 4096 4097 L" "length L < 2 ^ 30" unfolding L_def by (simp_all add: marked_def is_access_def)
  let ?acc = "[(CHR ''S'', 4096), (CHR ''L'', 8192), (CHR ''L'', 8192), (CHR ''S'', 4097)]"
  have low: "low_accesses (between 4096 4097 L) = ?acc" unfolding L_def by (simp add: between_def)
  have "lru_hits (lru_run 32 1 32 ?acc) = 1" "lru_misses (lru_run 32 1 32 ?acc) = 3" "lru_evicts (lru_run 32 1 32 ?acc) = 2"
    by code_simp+
  then have r: "lru_hits R = 1" "lru_misses R = 3" "lru_evicts R = 2" unfolding R_def low by simp_all
  have tg: "\<forall>i<2. tracegen (\<lambda>_. 0) 4096 4097 [(CHR ''M'', show_nat 4), (CHR ''N'', show_nat 5), (CHR ''F'', show_nat i)] =
      Some (0, Some (marker_text 4096 4097))" by (intro allI impI tracegen_ok) simp_all
  have sim: "simulator (csim_ref ?w)" using csim_is_simulator [of 0 0 "[]"] by simp
  show ?thesis
    using test_trans_reports_lru [of ?w 4 5 "\<lambda>_ _. 0" "\<lambda>_. 4096" "\<lambda>_. 4097" "\<lambda>_. L" "\<lambda>_. R", OF sim] m tg
    unfolding L_def [symmetric] T_def [symmetric] measured_def r SUBMIT_DESCRIPTION_def by (simp add: R_def T_def)
qed

end
