(* ===== verification/Tsh.thy ===== *)
theory Tsh
  imports CStdio
begin

text \<open>
  The shell \<^verbatim>\<open>lab9/tsh.c\<close>: its job table, its command-line parser, and the shell as a transition
  system in which the signal handlers interleave with the steps of \<^verbatim>\<open>eval\<close>, \<^verbatim>\<open>do_bgfg\<close> and \<^verbatim>\<open>waitfg\<close>.
  What the kernel decides (process identifiers, results of \<^verbatim>\<open>kill\<close>, which child changes its state and
  when) is nondeterminism of the steps.  Job identifiers are unbounded integers: to overflow one takes
  \<open>2 ^ 31\<close> jobs.
\<close>

section \<open>The job table\<close>

datatype jstate = UNDEF | FG | BG | ST

record job_t =
  pid :: int
  jid :: int
  state :: jstate
  cmdline :: string

datatype msg =
    Added_job int int string
  | Too_many
  | Launched int int string
  | Terminated int int int
  | Stopped_by int int int
  | Needs_arg string
  | Bad_arg string
  | No_process int
  | No_job int
  | Job_line int int jstate string

record tsh =
  jobs :: "job_t list"
  nextjid :: int
  verbose :: bool
  printed :: "msg list"

definition MAXJOBS :: nat where "MAXJOBS = 16"
definition MAXARGS :: nat where "MAXARGS = 128"

definition clearjob :: job_t where
  "clearjob = \<lparr>pid = 0, jid = 0, state = UNDEF, cmdline = []\<rparr>"

definition initjobs :: "job_t list" where
  "initjobs = replicate MAXJOBS clearjob"

definition maxjid :: "job_t list \<Rightarrow> int" where
  "maxjid js = foldl (\<lambda>m j. if jid j > m then jid j else m) 0 js"

text \<open>The index of the first entry that satisfies a condition.\<close>

fun first :: "('a \<Rightarrow> bool) \<Rightarrow> 'a list \<Rightarrow> nat option" where
  "first P [] = None"
| "first P (x # xs) = (if P x then Some 0 else map_option Suc (first P xs))"

definition say :: "msg \<Rightarrow> tsh \<Rightarrow> tsh" where
  "say m s = s\<lparr>printed := printed s @ [m]\<rparr>"

definition addjob :: "int \<Rightarrow> jstate \<Rightarrow> string \<Rightarrow> tsh \<Rightarrow> bool \<times> tsh" where
  "addjob p st cmd s =
     (if p < 1 then (False, s)
      else case first (\<lambda>j. pid j = 0) (jobs s) of
        Some i \<Rightarrow>
          let job = \<lparr>pid = p, jid = nextjid s, state = st, cmdline = cmd\<rparr>;
              next' = nextjid s + 1;
              s' = s\<lparr>jobs := (jobs s)[i := job], nextjid := (if next' > int MAXJOBS then 1 else next')\<rparr>
          in (True, if verbose s then say (Added_job (jid job) p cmd) s' else s')
      | None \<Rightarrow> (False, say Too_many s))"

definition deletejob :: "int \<Rightarrow> tsh \<Rightarrow> bool \<times> tsh" where
  "deletejob p s =
     (if p < 1 then (False, s)
      else case first (\<lambda>j. pid j = p) (jobs s) of
        Some i \<Rightarrow> let js = (jobs s)[i := clearjob] in (True, s\<lparr>jobs := js, nextjid := maxjid js + 1\<rparr>)
      | None \<Rightarrow> (False, s))"

definition fgpid :: "job_t list \<Rightarrow> int" where
  "fgpid js = (case first (\<lambda>j. state j = FG) js of Some i \<Rightarrow> pid (js ! i) | None \<Rightarrow> 0)"

definition getjobpid :: "job_t list \<Rightarrow> int \<Rightarrow> nat option" where
  "getjobpid js p = (if p < 1 then None else first (\<lambda>j. pid j = p) js)"

definition getjobjid :: "job_t list \<Rightarrow> int \<Rightarrow> nat option" where
  "getjobjid js n = (if n < 1 then None else first (\<lambda>j. jid j = n) js)"

definition pid2jid :: "job_t list \<Rightarrow> int \<Rightarrow> int" where
  "pid2jid js p = (if p < 1 then 0 else case first (\<lambda>j. pid j = p) js of Some i \<Rightarrow> jid (js ! i) | None \<Rightarrow> 0)"

definition listjobs :: "tsh \<Rightarrow> tsh" where
  "listjobs s = fold (\<lambda>j. if pid j \<noteq> 0 then say (Job_line (jid j) (pid j) (state j) (cmdline j)) else id) (jobs s) s"

section \<open>The command line\<close>

text \<open>One argument: the text up to the delimiter, a quote after an opening quote and a blank otherwise,
  and what follows the delimiter.\<close>

definition split_at_char :: "char \<Rightarrow> string \<Rightarrow> (string \<times> string) option" where
  "split_at_char d s =
     (case dropWhile (\<lambda>c. c \<noteq> d) s of [] \<Rightarrow> None | _ # r \<Rightarrow> Some (takeWhile (\<lambda>c. c \<noteq> d) s, r))"

definition next_arg :: "string \<Rightarrow> (string \<times> string) option" where
  "next_arg s =
     (case dropWhile (\<lambda>c. c = CHR '' '') s of
        [] \<Rightarrow> None
      | c # r \<Rightarrow> if c = CHR 0x27 then split_at_char (CHR 0x27) r else split_at_char (CHR '' '') (c # r))"

lemma dropWhile_length: "length (dropWhile P s) \<le> length s"
  by (induction s) auto

lemma split_at_char_length: "split_at_char d s = Some (a, r) \<Longrightarrow> length r < length s"
  using dropWhile_length [of "\<lambda>c. c \<noteq> d" s] by (auto simp: split_at_char_def split: list.splits)

lemma next_arg_length: "next_arg s = Some (a, r) \<Longrightarrow> length r < length s"
  using dropWhile_length [of "\<lambda>c. c = CHR '' ''" s]
  by (auto simp: next_arg_def split: list.splits if_splits dest!: split_at_char_length)

function args :: "string \<Rightarrow> string list" where
  "args s = (case next_arg s of None \<Rightarrow> [] | Some (a, r) \<Rightarrow> a # args r)"
  by pat_completeness auto
termination by (relation "measure length") (auto dest: next_arg_length)

declare args.simps [simp del]

text \<open>\<^term>\<open>None\<close>: an empty string, for which \<^verbatim>\<open>buf[strlen(buf) - 1]\<close> is outside the buffer, or more
  arguments than \<^verbatim>\<open>argv\<close> holds with its terminator.\<close>

definition parseline :: "string \<Rightarrow> (string list \<times> bool) ub" where
  "parseline cmd =
     (let s = c_str cmd
      in if s = [] then None
         else let as = args (butlast s @ [CHR '' ''])
              in if length as \<ge> MAXARGS then None
                 else if as = [] then Some ([], True)
                 else let bg = (case last as of [] \<Rightarrow> False | c # _ \<Rightarrow> c = CHR ''&'')
                      in Some (if bg then butlast as else as, bg))"

section \<open>The shell as a transition system\<close>

text \<open>Where the main thread is.  \<open>Fork\<close> and \<open>Forked\<close> are the part of \<^verbatim>\<open>eval\<close> with \<^verbatim>\<open>SIGCHLD\<close> blocked;
  in \<open>Bgfg\<close>, \<open>Bgfg_set\<close> and \<open>Fg_wait\<close> the pointer \<^verbatim>\<open>job\<close> of \<^verbatim>\<open>do_bgfg\<close> is an index of the table.\<close>

datatype pc =
    Main
  | Fork bool string
  | Forked int bool string
  | Ready int bool string
  | Waitfg int
  | Bgfg string nat
  | Bgfg_set string nat
  | Fg_wait nat
  | Exited int
  | Crashed

datatype signal = SIGINT | SIGTSTP | SIGCONT

record sys =
  sh :: tsh
  pc :: pc
  live :: "int set"
  sent :: "(int \<times> signal) list"

definition is_prefix_digit :: "string \<Rightarrow> bool" where
  "is_prefix_digit j = (case j of [] \<Rightarrow> False | c # _ \<Rightarrow> dec_char c)"

text \<open>\<^verbatim>\<open>do_bgfg\<close> up to the job it finds; \<^verbatim>\<open>atoi\<close> of a number that does not fit is undefined.\<close>

definition do_bgfg :: "string list \<Rightarrow> sys \<Rightarrow> sys" where
  "do_bgfg argv s =
     (case argv of
        [] \<Rightarrow> s\<lparr>pc := Crashed\<rparr>
      | [cmd] \<Rightarrow> s\<lparr>sh := say (Needs_arg cmd) (sh s), pc := Main\<rparr>
      | cmd # j # _ \<Rightarrow>
          if is_prefix_digit j then
            (if \<not> int_ok (strto 10 j) then s\<lparr>pc := Crashed\<rparr>
             else case getjobpid (jobs (sh s)) (strto 10 j) of
               None \<Rightarrow> s\<lparr>sh := say (No_process (strto 10 j)) (sh s), pc := Main\<rparr>
             | Some k \<Rightarrow> s\<lparr>pc := Bgfg cmd k\<rparr>)
          else if j \<noteq> [] \<and> hd j = CHR ''%'' then
            (if \<not> int_ok (strto 10 (tl j)) then s\<lparr>pc := Crashed\<rparr>
             else case getjobjid (jobs (sh s)) (strto 10 (tl j)) of
               None \<Rightarrow> s\<lparr>sh := say (No_job (strto 10 (tl j))) (sh s), pc := Main\<rparr>
             | Some k \<Rightarrow> s\<lparr>pc := Bgfg cmd k\<rparr>)
          else s\<lparr>sh := say (Bad_arg cmd) (sh s), pc := Main\<rparr>)"

text \<open>\<^verbatim>\<open>builtin_cmd\<close>: \<^term>\<open>None\<close> when the command is not one.\<close>

definition builtin_cmd :: "string list \<Rightarrow> sys \<Rightarrow> sys option" where
  "builtin_cmd argv s =
     (if argv ! 0 = ''quit'' then Some (s\<lparr>pc := Exited 0\<rparr>)
      else if argv ! 0 = ''jobs'' then Some (s\<lparr>sh := listjobs (sh s), pc := Main\<rparr>)
      else if argv ! 0 = ''bg'' \<or> argv ! 0 = ''fg'' then Some (do_bgfg argv s)
      else None)"

text \<open>\<^verbatim>\<open>eval\<close> up to the point where it blocks \<^verbatim>\<open>SIGCHLD\<close> and forks.\<close>

definition eval_line :: "string \<Rightarrow> sys \<Rightarrow> sys" where
  "eval_line cmd s =
     (case parseline cmd of
        None \<Rightarrow> s\<lparr>pc := Crashed\<rparr>
      | Some (argv, bg) \<Rightarrow>
          if argv = [] then s\<lparr>pc := Main\<rparr>
          else (case builtin_cmd argv s of Some s' \<Rightarrow> s' | None \<Rightarrow> s\<lparr>pc := Fork bg cmd\<rparr>))"

text \<open>\<^verbatim>\<open>eval\<close> after the fork: enter the job and unblock, then report or wait.\<close>

definition eval_add :: "int \<Rightarrow> bool \<Rightarrow> string \<Rightarrow> sys \<Rightarrow> sys" where
  "eval_add p bg cmd s = s\<lparr>sh := snd (addjob p (if bg then BG else FG) cmd (sh s)), pc := Ready p bg cmd\<rparr>"

definition eval_end :: "int \<Rightarrow> bool \<Rightarrow> string \<Rightarrow> sys \<Rightarrow> sys" where
  "eval_end p bg cmd s =
     (if bg then s\<lparr>sh := say (Launched (pid2jid (jobs (sh s)) p) p cmd) (sh s), pc := Main\<rparr>
      else s\<lparr>pc := Waitfg p\<rparr>)"

definition set_state :: "nat \<Rightarrow> jstate \<Rightarrow> tsh \<Rightarrow> tsh" where
  "set_state k st s = s\<lparr>jobs := (jobs s)[k := (jobs s ! k)\<lparr>state := st\<rparr>]\<rparr>"

definition bgfg_set :: "string \<Rightarrow> nat \<Rightarrow> sys \<Rightarrow> sys" where
  "bgfg_set cmd k s =
     (if cmd = ''bg'' then
        let t = set_state k BG (sh s); j = jobs t ! k
        in s\<lparr>sh := say (Launched (jid j) (pid j) (cmdline j)) t, pc := Main\<rparr>
      else if cmd = ''fg'' then s\<lparr>sh := set_state k FG (sh s), pc := Fg_wait k\<rparr>
      else s\<lparr>pc := Main\<rparr>)"

definition fg_wait :: "nat \<Rightarrow> sys \<Rightarrow> sys" where
  "fg_wait k s = s\<lparr>pc := Waitfg (pid (jobs (sh s) ! k))\<rparr>"

text \<open>One turn of the loop in \<^verbatim>\<open>waitfg\<close>.\<close>

definition waitfg :: "int \<Rightarrow> sys \<Rightarrow> sys" where
  "waitfg p s = (if fgpid (jobs (sh s)) = p then s else s\<lparr>pc := Main\<rparr>)"

section \<open>Signal handlers\<close>

datatype wstatus = Normal_exit | Killed int | Stop int

definition reap :: "int \<times> wstatus \<Rightarrow> tsh \<Rightarrow> tsh" where
  "reap e s =
     (case e of
        (p, Normal_exit) \<Rightarrow> snd (deletejob p s)
      | (p, Killed n) \<Rightarrow> snd (deletejob p (say (Terminated (pid2jid (jobs s) p) p n) s))
      | (p, Stop n) \<Rightarrow>
          let s = say (Stopped_by (pid2jid (jobs s) p) p n) s
          in (case getjobpid (jobs s) p of Some k \<Rightarrow> set_state k ST s | None \<Rightarrow> s))"

text \<open>The results of the successive calls of \<^verbatim>\<open>waitpid\<close> are a list.\<close>

definition sigchld_handler :: "(int \<times> wstatus) list \<Rightarrow> tsh \<Rightarrow> tsh" where
  "sigchld_handler evs s = fold reap evs s"

text \<open>\<^verbatim>\<open>waitpid\<close> reports children that are not reaped yet, and reaps the dead ones.\<close>

fun reaped :: "int set \<Rightarrow> (int \<times> wstatus) list \<Rightarrow> int set option" where
  "reaped L [] = Some L"
| "reaped L ((p, st) # evs) =
     (if p \<notin> L then None else reaped (case st of Stop _ \<Rightarrow> L | _ \<Rightarrow> L - {p}) evs)"

text \<open>\<^verbatim>\<open>sigint_handler\<close> and \<^verbatim>\<open>sigtstp_handler\<close> differ in the signal only; \<open>ok\<close> is the success of \<^verbatim>\<open>kill\<close>.\<close>

definition forward :: "signal \<Rightarrow> bool \<Rightarrow> sys \<Rightarrow> sys" where
  "forward sig ok s =
     (let p = fgpid (jobs (sh s))
      in if p \<noteq> 0 then (if ok then s\<lparr>sent := sent s @ [(- p, sig)]\<rparr> else s\<lparr>pc := Exited 1\<rparr>) else s)"

definition sigint_handler :: "bool \<Rightarrow> sys \<Rightarrow> sys" where
  "sigint_handler ok s = forward SIGINT ok s"

definition sigtstp_handler :: "bool \<Rightarrow> sys \<Rightarrow> sys" where
  "sigtstp_handler ok s = forward SIGTSTP ok s"

definition sigquit_handler :: "sys \<Rightarrow> sys" where
  "sigquit_handler s = s\<lparr>pc := Exited 1\<rparr>"

section \<open>Steps\<close>

text \<open>A line of the read loop is what \<^verbatim>\<open>fgets\<close> stores: not empty and shorter than the buffer.\<close>

definition MAXLINE :: nat where "MAXLINE = 1024"

definition chld_blocked :: "pc \<Rightarrow> bool" where
  "chld_blocked c = (case c of Fork _ _ \<Rightarrow> True | Forked _ _ _ \<Rightarrow> True | _ \<Rightarrow> False)"

definition running :: "pc \<Rightarrow> bool" where
  "running c = (case c of Exited _ \<Rightarrow> False | Crashed \<Rightarrow> False | _ \<Rightarrow> True)"

inductive step :: "sys \<Rightarrow> sys \<Rightarrow> bool" where
  line: "pc s = Main \<Longrightarrow> l \<noteq> [] \<Longrightarrow> length l < MAXLINE \<Longrightarrow> step s (eval_line (c_str l) s)"
| eof: "pc s = Main \<Longrightarrow> step s (s\<lparr>pc := Exited 0\<rparr>)"
| fork: "pc s = Fork bg cmd \<Longrightarrow> 1 \<le> p \<Longrightarrow> p \<notin> live s \<Longrightarrow> step s (s\<lparr>live := insert p (live s), pc := Forked p bg cmd\<rparr>)"
| fork_fails: "pc s = Fork bg cmd \<Longrightarrow> step s (s\<lparr>pc := Forked (- 1) bg cmd\<rparr>)"
| add: "pc s = Forked p bg cmd \<Longrightarrow> step s (eval_add p bg cmd s)"
| eval_done: "pc s = Ready p bg cmd \<Longrightarrow> step s (eval_end p bg cmd s)"
| spin: "pc s = Waitfg p \<Longrightarrow> step s (waitfg p s)"
| cont: "pc s = Bgfg cmd k \<Longrightarrow>
    step s (s\<lparr>sent := sent s @ [(- pid (jobs (sh s) ! k), SIGCONT)], pc := Bgfg_set cmd k\<rparr>)"
| cont_fails: "pc s = Bgfg cmd k \<Longrightarrow> step s (s\<lparr>pc := Exited 1\<rparr>)"
| set: "pc s = Bgfg_set cmd k \<Longrightarrow> step s (bgfg_set cmd k s)"
| wait: "pc s = Fg_wait k \<Longrightarrow> step s (fg_wait k s)"
| sigchld: "running (pc s) \<Longrightarrow> \<not> chld_blocked (pc s) \<Longrightarrow> reaped (live s) evs = Some L \<Longrightarrow>
    step s (s\<lparr>sh := sigchld_handler evs (sh s), live := L\<rparr>)"
| sigint: "running (pc s) \<Longrightarrow> step s (sigint_handler ok s)"
| sigtstp: "running (pc s) \<Longrightarrow> step s (sigtstp_handler ok s)"
| sigquit: "running (pc s) \<Longrightarrow> step s (sigquit_handler s)"

definition start :: "bool \<Rightarrow> sys" where
  "start vb = \<lparr>sh = \<lparr>jobs = initjobs, nextjid = 1, verbose = vb, printed = []\<rparr>, pc = Main, live = {}, sent = []\<rparr>"

inductive reachable :: "sys \<Rightarrow> bool" where
  init: "reachable (start vb)"
| step: "reachable s \<Longrightarrow> step s s' \<Longrightarrow> reachable s'"

end
