(* ===== verification/Tsh_Props.thy ===== *)
theory Tsh_Props
  imports Tsh
begin

text \<open>
  The shell of \<^verbatim>\<open>lab9/tsh.c\<close>: its job table as a map from process identifiers, the invariant of the
  transition system, and what the unsynchronised parts of the shell can go wrong in.
\<close>

section \<open>Searching the table\<close>

lemma first_Some: "first P xs = Some i \<longleftrightarrow> i < length xs \<and> P (xs ! i) \<and> (\<forall>k<i. \<not> P (xs ! k))"
proof (induction xs arbitrary: i)
  case (Cons x xs)
  then show ?case by (cases i) (auto simp: All_less_Suc2)
qed simp

lemma first_None: "first P xs = None \<longleftrightarrow> (\<forall>x \<in> set xs. \<not> P x)"
  by (induction xs) auto

lemma jobs_say [simp]: "jobs (say m s) = jobs s" "nextjid (say m s) = nextjid s"
  by (simp_all add: say_def)

text \<open>Entries of one process are unique, and processes in the table are not reaped.\<close>

definition pids_unique :: "job_t list \<Rightarrow> bool" where
  "pids_unique js \<longleftrightarrow> (\<forall>i k. i < length js \<longrightarrow> k < length js \<longrightarrow> pid (js ! i) = pid (js ! k) \<longrightarrow> pid (js ! i) \<noteq> 0 \<longrightarrow> i = k)"

definition pids_live :: "int set \<Rightarrow> job_t list \<Rightarrow> bool" where
  "pids_live L js \<longleftrightarrow> (\<forall>j \<in> set js. pid j = 0 \<or> 1 \<le> pid j \<and> pid j \<in> L)"

definition table_ok :: "int set \<Rightarrow> job_t list \<Rightarrow> bool" where
  "table_ok L js \<longleftrightarrow> length js = MAXJOBS \<and> pids_unique js \<and> pids_live L js"

lemma pids_live_nth: "pids_live L js \<Longrightarrow> i < length js \<Longrightarrow> pid (js ! i) = 0 \<or> 1 \<le> pid (js ! i) \<and> pid (js ! i) \<in> L"
  by (simp add: pids_live_def)

lemma pids_unique_update:
  assumes "pids_unique js" and "i < length js" and "\<forall>k < length js. k \<noteq> i \<longrightarrow> pid j \<noteq> 0 \<longrightarrow> pid (js ! k) \<noteq> pid j"
  shows "pids_unique (js[i := j])"
  using assms unfolding pids_unique_def by (auto simp: nth_list_update)

lemma set_update_cases: "x \<in> set (js[i := j]) \<Longrightarrow> x = j \<or> x \<in> set js"
  using set_update_subset_insert by fastforce

lemma table_ok_update:
  assumes "table_ok L js" and "i < length js" and "pid j = 0 \<or> pid j = pid (js ! i)"
  shows "table_ok L (js[i := j])"
proof -
  have "pids_unique (js[i := j])"
    using assms by (intro pids_unique_update) (auto simp: table_ok_def pids_unique_def)
  moreover have "pids_live L (js[i := j])"
    using assms pids_live_nth [of L js i] unfolding table_ok_def pids_live_def by (auto dest!: set_update_cases)
  ultimately show ?thesis using assms(1) by (simp add: table_ok_def)
qed

text \<open>The effect of every operation on the table, as one update.\<close>

lemma addjob_cases:
  obtains (bad) "p < 1" "addjob p st cmd s = (False, s)"
  | (full) "1 \<le> p" "\<forall>j \<in> set (jobs s). pid j \<noteq> 0" "addjob p st cmd s = (False, say Too_many s)"
  | (added) i where "1 \<le> p" "i < length (jobs s)" "pid (jobs s ! i) = 0" "\<forall>k<i. pid (jobs s ! k) \<noteq> 0"
      "fst (addjob p st cmd s)"
      "jobs (snd (addjob p st cmd s)) = (jobs s)[i := \<lparr>pid = p, jid = nextjid s, state = st, cmdline = cmd\<rparr>]"
      "nextjid (snd (addjob p st cmd s)) = (if nextjid s + 1 > int MAXJOBS then 1 else nextjid s + 1)"
proof (cases "p < 1")
  case True
  then show ?thesis using bad by (simp add: addjob_def)
next
  case False
  show ?thesis
  proof (cases "first (\<lambda>j. pid j = 0) (jobs s)")
    case None
    moreover from this have "\<forall>j \<in> set (jobs s). pid j \<noteq> 0" by (simp add: first_None)
    ultimately show ?thesis using full False by (simp add: addjob_def)
  next
    case (Some i)
    then have "i < length (jobs s)" "pid (jobs s ! i) = 0" "\<forall>k<i. pid (jobs s ! k) \<noteq> 0" by (simp_all add: first_Some)
    then show ?thesis by (rule added [rotated]) (use False in \<open>simp_all add: addjob_def Let_def Some\<close>)
  qed
qed

lemma deletejob_cases:
  obtains (none) "deletejob p s = (False, s)" "p < 1 \<or> (\<forall>j \<in> set (jobs s). pid j \<noteq> p)"
  | (deleted) i where "1 \<le> p" "i < length (jobs s)" "pid (jobs s ! i) = p" "\<forall>k<i. pid (jobs s ! k) \<noteq> p"
      "fst (deletejob p s)" "jobs (snd (deletejob p s)) = (jobs s)[i := clearjob]"
      "nextjid (snd (deletejob p s)) = maxjid ((jobs s)[i := clearjob]) + 1"
proof (cases "p < 1")
  case True
  then show ?thesis using none by (simp add: deletejob_def)
next
  case False
  show ?thesis
  proof (cases "first (\<lambda>j. pid j = p) (jobs s)")
    case None
    moreover from this have "\<forall>j \<in> set (jobs s). pid j \<noteq> p" by (simp add: first_None)
    ultimately show ?thesis using none False by (simp add: deletejob_def)
  next
    case (Some i)
    then have "i < length (jobs s)" "pid (jobs s ! i) = p" "\<forall>k<i. pid (jobs s ! k) \<noteq> p" by (simp_all add: first_Some)
    then show ?thesis by (rule deleted [rotated]) (use False in \<open>simp_all add: deletejob_def Let_def Some\<close>)
  qed
qed

lemma clearjob_sel [simp]: "pid clearjob = 0" "jid clearjob = 0" "state clearjob = UNDEF"
  by (simp_all add: clearjob_def)

lemma addjob_ok:
  assumes "table_ok L (jobs s)" and "p \<notin> pid ` set (jobs s)" and "p \<in> L"
  shows "table_ok L (jobs (snd (addjob p st cmd s)))"
proof (cases rule: addjob_cases [of p st cmd s])
  case (added i)
  have "pids_unique (jobs (snd (addjob p st cmd s)))"
    unfolding added(6) using assms(1,2) added(2) by (intro pids_unique_update) (auto simp: table_ok_def)
  moreover have "pids_live L (jobs (snd (addjob p st cmd s)))"
    unfolding added(6) pids_live_def using assms(1,3) added(1) by (auto simp: table_ok_def pids_live_def dest!: set_update_cases)
  ultimately show ?thesis using assms(1) by (simp add: table_ok_def added(6))
qed (use assms in auto)

lemma deletejob_ok:
  assumes "table_ok L (jobs s)"
  shows "table_ok (L - {p}) (jobs (snd (deletejob p s)))"
proof (cases rule: deletejob_cases [of p s])
  case none
  then have "\<forall>j \<in> set (jobs s). pid j = 0 \<or> pid j \<noteq> p" using assms by (auto simp: table_ok_def pids_live_def)
  then show ?thesis using assms none by (auto simp: table_ok_def pids_live_def)
next
  case (deleted i)
  have "table_ok L ((jobs s)[i := clearjob])" using assms deleted(2) by (intro table_ok_update) simp_all
  moreover have "\<forall>j \<in> set ((jobs s)[i := clearjob]). pid j \<noteq> p"
    using assms deleted by (auto simp: in_set_conv_nth nth_list_update table_ok_def pids_unique_def split: if_splits)
  ultimately show ?thesis unfolding deleted(6) by (auto simp: table_ok_def pids_live_def)
qed

section \<open>The table is a map\<close>

text \<open>What clients of the table rely on: entries are found under their process until they are deleted, and
  no operation disturbs the entry of another process.\<close>

locale pid_table =
  fixes ok :: "'t \<Rightarrow> bool" and room :: "'t \<Rightarrow> bool"
    and look :: "'t \<Rightarrow> int \<Rightarrow> 'v option"
    and add :: "int \<Rightarrow> 'v \<Rightarrow> 't \<Rightarrow> 't" and del :: "int \<Rightarrow> 't \<Rightarrow> 't"
  assumes look_add: "ok t \<Longrightarrow> room t \<Longrightarrow> 1 \<le> p \<Longrightarrow> look t p = None \<Longrightarrow> look (add p v t) = (look t)(p \<mapsto> v)"
    and look_full: "ok t \<Longrightarrow> \<not> room t \<Longrightarrow> look (add p v t) = look t"
    and look_del: "ok t \<Longrightarrow> look (del p t) = (look t)(p := None)"
    and ok_add: "ok t \<Longrightarrow> 1 \<le> p \<Longrightarrow> look t p = None \<Longrightarrow> ok (add p v t)"
    and ok_del: "ok t \<Longrightarrow> ok (del p t)"
begin

text \<open>A history of additions and deletions, in the table and in the map.\<close>

fun run :: "(int \<times> 'v option) list \<Rightarrow> 't \<Rightarrow> 't" where
  "run [] t = t"
| "run ((p, Some v) # ops) t = run ops (add p v t)"
| "run ((p, None) # ops) t = run ops (del p t)"

fun fits :: "(int \<times> 'v option) list \<Rightarrow> 't \<Rightarrow> bool" where
  "fits [] t \<longleftrightarrow> True"
| "fits ((p, Some v) # ops) t \<longleftrightarrow> 1 \<le> p \<and> look t p = None \<and> room t \<and> fits ops (add p v t)"
| "fits ((p, None) # ops) t \<longleftrightarrow> fits ops (del p t)"

lemma run_map: "ok t \<Longrightarrow> fits ops t \<Longrightarrow> look (run ops t) = fold (\<lambda>(p, v) m. m(p := v)) ops (look t) \<and> ok (run ops t)"
proof (induction ops arbitrary: t)
  case (Cons op ops)
  obtain p v where op: "op = (p, v)" by (cases op)
  show ?case using Cons.prems Cons.IH [of "add p (the v) t"] Cons.IH [of "del p t"]
    by (cases v) (auto simp: op look_add look_del ok_add ok_del)
qed simp

lemma del_add: "ok t \<Longrightarrow> room t \<Longrightarrow> 1 \<le> p \<Longrightarrow> look t p = None \<Longrightarrow> look (del p (add p v t)) = look t"
  by (auto simp: look_del look_add ok_add)

end

definition job_of :: "tsh \<Rightarrow> int \<Rightarrow> (jstate \<times> string) option" where
  "job_of s p = map_option (\<lambda>i. (state (jobs s ! i), cmdline (jobs s ! i))) (getjobpid (jobs s) p)"

definition tsh_ok :: "tsh \<Rightarrow> bool" where
  "tsh_ok s \<longleftrightarrow> table_ok UNIV (jobs s)"

definition tsh_room :: "tsh \<Rightarrow> bool" where
  "tsh_room s \<longleftrightarrow> (\<exists>j \<in> set (jobs s). pid j = 0)"

definition tsh_add :: "int \<Rightarrow> jstate \<times> string \<Rightarrow> tsh \<Rightarrow> tsh" where
  "tsh_add p v s = snd (addjob p (fst v) (snd v) s)"

definition tsh_del :: "int \<Rightarrow> tsh \<Rightarrow> tsh" where
  "tsh_del p s = snd (deletejob p s)"

lemma getjobpid_iff:
  assumes "pids_unique js"
  shows "getjobpid js p = Some i \<longleftrightarrow> 1 \<le> p \<and> i < length js \<and> pid (js ! i) = p"
proof
  assume "getjobpid js p = Some i"
  then show "1 \<le> p \<and> i < length js \<and> pid (js ! i) = p" by (auto simp: getjobpid_def first_Some split: if_splits)
next
  assume i: "1 \<le> p \<and> i < length js \<and> pid (js ! i) = p"
  then have "pid (js ! k) \<noteq> p" if "k < i" for k
    using assms [unfolded pids_unique_def, rule_format, of k i] that by auto
  then show "getjobpid js p = Some i" using i by (auto simp: getjobpid_def first_Some)
qed

lemma getjobpid_None: "getjobpid js p = None \<longleftrightarrow> p < 1 \<or> (\<forall>j \<in> set js. pid j \<noteq> p)"
  by (auto simp: getjobpid_def first_None)

definition entry :: "int \<Rightarrow> jstate \<times> string \<Rightarrow> job_t \<Rightarrow> bool" where
  "entry p v j \<longleftrightarrow> 1 \<le> p \<and> pid j = p \<and> v = (state j, cmdline j)"

lemma job_of_iff:
  assumes "tsh_ok s"
  shows "job_of s p = Some v \<longleftrightarrow> (\<exists>i < length (jobs s). entry p v (jobs s ! i))"
  using assms by (auto simp: job_of_def tsh_ok_def table_ok_def getjobpid_iff entry_def)

lemma ex_update:
  "i < length xs \<Longrightarrow> (\<exists>k < length (xs[i := x]). P (xs[i := x] ! k)) \<longleftrightarrow> P x \<or> (\<exists>k < length xs. k \<noteq> i \<and> P (xs ! k))"
  by (metis length_list_update nth_list_update)

lemma option_eqI: "(\<And>v. a = Some v \<longleftrightarrow> b = Some v) \<Longrightarrow> a = b"
  by (cases a; cases b) auto

lemma tsh_look_del: "tsh_ok s \<Longrightarrow> tsh_ok (tsh_del p s) \<and> job_of (tsh_del p s) = (job_of s)(p := None)"
proof
  assume ok: "tsh_ok s"
  then show ok': "tsh_ok (tsh_del p s)"
    using deletejob_ok [of UNIV s p] by (auto simp: tsh_ok_def tsh_del_def table_ok_def pids_live_def)
  show "job_of (tsh_del p s) = (job_of s)(p := None)"
  proof (intro ext option_eqI)
    fix q v
    show "job_of (tsh_del p s) q = Some v \<longleftrightarrow> ((job_of s)(p := None)) q = Some v"
    proof (cases rule: deletejob_cases [of p s])
      case none
      then show ?thesis using ok by (auto simp: tsh_del_def job_of_iff entry_def)
    next
      case (deleted i)
      have "pid (jobs s ! k) = p \<longleftrightarrow> k = i" if "k < length (jobs s)" for k
        using ok that deleted by (auto simp: tsh_ok_def table_ok_def pids_unique_def)
      then show ?thesis
        unfolding job_of_iff [OF ok'] unfolding fun_upd_apply tsh_del_def deleted(6) ex_update [OF deleted(2)]
        using deleted(2) job_of_iff [OF ok, of q v] by (auto simp: entry_def)
    qed
  qed
qed

lemma tsh_look_add:
  assumes ok: "tsh_ok s" and p: "1 \<le> p" and new: "job_of s p = None"
  shows "tsh_ok (tsh_add p v s) \<and> job_of (tsh_add p v s) = (if tsh_room s then (job_of s)(p \<mapsto> v) else job_of s)"
proof
  have np: "\<forall>j \<in> set (jobs s). pid j \<noteq> p" using new p by (auto simp: job_of_def getjobpid_None)
  then show ok': "tsh_ok (tsh_add p v s)"
    using ok addjob_ok [of UNIV s p] by (auto simp: tsh_ok_def tsh_add_def)
  show "job_of (tsh_add p v s) = (if tsh_room s then (job_of s)(p \<mapsto> v) else job_of s)"
  proof (intro ext option_eqI)
    fix q w
    show "job_of (tsh_add p v s) q = Some w \<longleftrightarrow> (if tsh_room s then (job_of s)(p \<mapsto> v) else job_of s) q = Some w"
    proof (cases rule: addjob_cases [of p "fst v" "snd v" s])
      case full
      then show ?thesis by (auto simp: tsh_add_def tsh_room_def job_of_def)
    next
      case (added i)
      then have room: "tsh_room s" unfolding tsh_room_def by (metis nth_mem)
      show ?thesis
        unfolding job_of_iff [OF ok'] unfolding tsh_add_def added(6) ex_update [OF added(2)]
        using room job_of_iff [OF ok, of q w] np added(1,3) nth_mem by (auto simp: entry_def)
    qed (use p in simp)
  qed
qed

lemma tsh_add_full: "\<not> tsh_room s \<Longrightarrow> jobs (tsh_add p v s) = jobs s"
  by (cases rule: addjob_cases [of p "fst v" "snd v" s]) (auto simp: tsh_add_def tsh_room_def)

interpretation tbl: pid_table tsh_ok tsh_room job_of tsh_add tsh_del
proof
  show "job_of (tsh_add p v t) = job_of t" if "\<not> tsh_room t" for t p v
    using tsh_add_full [OF that] by (simp add: job_of_def fun_eq_iff)
qed (use tsh_look_add tsh_look_del in simp_all)

section \<open>The invariant of the shell\<close>

definition fgs :: "job_t list \<Rightarrow> nat set" where
  "fgs js = {i. i < length js \<and> state (js ! i) = FG}"

definition one_fg :: "job_t list \<Rightarrow> bool" where
  "one_fg js \<longleftrightarrow> (\<forall>i \<in> fgs js. \<forall>k \<in> fgs js. i = k)"

text \<open>At the prompt no job is in the foreground; in \<^verbatim>\<open>waitfg\<close> only the job waited for is.\<close>

fun pc_inv :: "pc \<Rightarrow> int set \<Rightarrow> job_t list \<Rightarrow> bool" where
  "pc_inv Main L js \<longleftrightarrow> fgs js = {}"
| "pc_inv (Fork bg cmd) L js \<longleftrightarrow> fgs js = {}"
| "pc_inv (Forked p bg cmd) L js \<longleftrightarrow> fgs js = {} \<and> (p = - 1 \<or> 1 \<le> p \<and> p \<in> L \<and> p \<notin> pid ` set js)"
| "pc_inv (Ready p bg cmd) L js \<longleftrightarrow> (\<forall>i \<in> fgs js. pid (js ! i) = p) \<and> (bg \<longrightarrow> fgs js = {})"
| "pc_inv (Waitfg p) L js \<longleftrightarrow> (\<forall>i \<in> fgs js. pid (js ! i) = p)"
| "pc_inv (Bgfg cmd k) L js \<longleftrightarrow> fgs js = {} \<and> k < length js"
| "pc_inv (Bgfg_set cmd k) L js \<longleftrightarrow> fgs js = {} \<and> k < length js"
| "pc_inv (Fg_wait k) L js \<longleftrightarrow> fgs js \<subseteq> {k} \<and> k < length js"
| "pc_inv (Exited n) L js \<longleftrightarrow> True"
| "pc_inv Crashed L js \<longleftrightarrow> True"

definition sys_inv :: "sys \<Rightarrow> bool" where
  "sys_inv s \<longleftrightarrow> table_ok (live s) (jobs (sh s)) \<and> one_fg (jobs (sh s)) \<and> pc_inv (pc s) (live s) (jobs (sh s))"

text \<open>Handlers only take jobs out of the foreground.\<close>

definition shrinks :: "job_t list \<Rightarrow> job_t list \<Rightarrow> bool" where
  "shrinks js js' \<longleftrightarrow> length js' = length js \<and> (\<forall>i < length js. state (js' ! i) = FG \<longrightarrow> js' ! i = js ! i)"

lemma shrinks_refl [simp]: "shrinks js js"
  by (simp add: shrinks_def)

lemma shrinks_trans: "shrinks a b \<Longrightarrow> shrinks b c \<Longrightarrow> shrinks a c"
  by (auto simp: shrinks_def)

lemma shrinks_update:
  assumes "state j \<noteq> FG"
  shows "shrinks js (js[i := j])"
  unfolding shrinks_def
proof (intro conjI allI impI)
  fix k assume "k < length js" "state (js[i := j] ! k) = FG"
  then show "js[i := j] ! k = js ! k" using assms by (cases "k = i") auto
qed simp

lemma shrinks_fgs: "shrinks js js' \<Longrightarrow> fgs js' \<subseteq> fgs js \<and> (\<forall>i \<in> fgs js'. js' ! i = js ! i)"
  by (auto simp: shrinks_def fgs_def)

lemma shrinks_one: "shrinks js js' \<Longrightarrow> one_fg js \<Longrightarrow> one_fg js'"
  unfolding one_fg_def using shrinks_fgs by blast

lemma shrinks_pc:
  assumes "shrinks js js'" and "pc_inv c L js" and "\<not> chld_blocked c"
  shows "pc_inv c L' js'"
proof -
  have "length js' = length js" using assms(1) by (simp add: shrinks_def)
  then show ?thesis using shrinks_fgs [OF assms(1)] assms(2,3) by (cases c) (auto simp: chld_blocked_def)
qed

lemma jobs_set_state [simp]: "jobs (set_state k st s) = (jobs s)[k := (jobs s ! k)\<lparr>state := st\<rparr>]"
  by (simp add: set_state_def)

lemma deletejob_shrinks: "shrinks (jobs s) (jobs (snd (deletejob p s)))"
  by (cases rule: deletejob_cases [of p s]) (auto intro: shrinks_update)

lemma reap_inv:
  assumes "table_ok L (jobs s)"
  shows "table_ok (case st of Stop _ \<Rightarrow> L | _ \<Rightarrow> L - {p}) (jobs (reap (p, st) s)) \<and> shrinks (jobs s) (jobs (reap (p, st) s))"
proof (cases st)
  case Normal_exit
  then show ?thesis using deletejob_ok [OF assms] deletejob_shrinks by (simp add: reap_def)
next
  case (Killed n)
  let ?s = "say (Terminated (pid2jid (jobs s) p) p n) s"
  show ?thesis using deletejob_ok [of L ?s p] deletejob_shrinks [of ?s p] assms Killed by (simp add: reap_def)
next
  case (Stop n)
  show ?thesis
  proof (cases "getjobpid (jobs s) p")
    case None
    then show ?thesis using assms Stop by (simp add: reap_def Let_def)
  next
    case (Some k)
    then have "k < length (jobs s)" by (auto simp: getjobpid_def first_Some split: if_splits)
    then show ?thesis using assms Stop Some
      by (auto simp: reap_def Let_def intro!: table_ok_update shrinks_update)
  qed
qed

lemma sigchld_inv:
  assumes "table_ok L (jobs s)" and "reaped L evs = Some L'"
  shows "table_ok L' (jobs (sigchld_handler evs s)) \<and> shrinks (jobs s) (jobs (sigchld_handler evs s))"
  using assms
proof (induction evs arbitrary: L s)
  case (Cons e evs)
  obtain p st where e: "e = (p, st)" by (cases e)
  let ?L = "case st of Stop _ \<Rightarrow> L | _ \<Rightarrow> L - {p}"
  have r: "table_ok ?L (jobs (reap e s))" "shrinks (jobs s) (jobs (reap e s))"
    using reap_inv [OF Cons.prems(1)] by (simp_all add: e)
  have "reaped ?L evs = Some L'" using Cons.prems(2) by (simp add: e split: if_splits)
  from Cons.IH [OF r(1) this] show ?case using shrinks_trans [OF r(2)] by (simp add: sigchld_handler_def)
qed (simp add: sigchld_handler_def)

lemma forward_inv: "sys_inv s \<Longrightarrow> sys_inv (forward sig ok s)"
  by (auto simp: forward_def Let_def sys_inv_def)

lemma listjobs_jobs [simp]: "jobs (listjobs s) = jobs s"
proof -
  have "jobs (fold (\<lambda>j. if pid j \<noteq> 0 then say (Job_line (jid j) (pid j) (state j) (cmdline j)) else id) js s) = jobs s" for js
    by (induction js arbitrary: s) auto
  then show ?thesis by (simp add: listjobs_def)
qed

lemma getjob_less: "getjobpid js p = Some k \<Longrightarrow> k < length js" "getjobjid js n = Some k \<Longrightarrow> k < length js"
  by (auto simp: getjobpid_def getjobjid_def first_Some split: if_splits)

lemma do_bgfg_keeps:
  "live (do_bgfg argv s) = live s" "jobs (sh (do_bgfg argv s)) = jobs (sh s)"
  "pc (do_bgfg argv s) = Main \<or> pc (do_bgfg argv s) = Crashed \<or>
     (\<exists>n k. pc (do_bgfg argv s) = Bgfg n k \<and> k < length (jobs (sh s)))"
proof -
  show "live (do_bgfg argv s) = live s" "jobs (sh (do_bgfg argv s)) = jobs (sh s)"
    by (simp_all add: do_bgfg_def split: list.split option.split)
  show "pc (do_bgfg argv s) = Main \<or> pc (do_bgfg argv s) = Crashed \<or>
     (\<exists>n k. pc (do_bgfg argv s) = Bgfg n k \<and> k < length (jobs (sh s)))"
    using getjob_less by (simp add: do_bgfg_def split: list.split option.split)
qed

lemma eval_line_keeps:
  "live (eval_line cmd s) = live s" "jobs (sh (eval_line cmd s)) = jobs (sh s)"
  "pc (eval_line cmd s) = Main \<or> pc (eval_line cmd s) = Crashed \<or> pc (eval_line cmd s) = Exited 0 \<or>
     (\<exists>bg. pc (eval_line cmd s) = Fork bg cmd) \<or> (\<exists>n k. pc (eval_line cmd s) = Bgfg n k \<and> k < length (jobs (sh s)))"
proof -
  show "live (eval_line cmd s) = live s" "jobs (sh (eval_line cmd s)) = jobs (sh s)"
    by (simp_all add: eval_line_def builtin_cmd_def do_bgfg_keeps split: option.split prod.split)
  show "pc (eval_line cmd s) = Main \<or> pc (eval_line cmd s) = Crashed \<or> pc (eval_line cmd s) = Exited 0 \<or>
     (\<exists>bg. pc (eval_line cmd s) = Fork bg cmd) \<or> (\<exists>n k. pc (eval_line cmd s) = Bgfg n k \<and> k < length (jobs (sh s)))"
    using do_bgfg_keeps(3) by (simp add: eval_line_def builtin_cmd_def split: option.split prod.split) blast
qed

lemma line_inv:
  assumes "sys_inv s" and "pc s = Main"
  shows "sys_inv (eval_line cmd s)"
  using assms eval_line_keeps [of cmd s] by (auto simp: sys_inv_def)

lemma fgs_update: "k < length js \<Longrightarrow> fgs (js[k := j]) = (if state j = FG then insert k (fgs js) else fgs js - {k})"
  by (auto simp: fgs_def nth_list_update split: if_splits)

lemma add_inv:
  assumes "sys_inv s" and "pc s = Forked p bg cmd"
  shows "sys_inv (eval_add p bg cmd s)"
proof -
  let ?s = "sh s" and ?st = "if bg then BG else FG"
  have i: "table_ok (live s) (jobs ?s)" "fgs (jobs ?s) = {}" "p = - 1 \<or> 1 \<le> p \<and> p \<in> live s \<and> p \<notin> pid ` set (jobs ?s)"
    using assms by (simp_all add: sys_inv_def)
  show ?thesis
  proof (cases rule: addjob_cases [of p ?st cmd ?s])
    case (added i)
    then have "table_ok (live s) (jobs (snd (addjob p ?st cmd ?s)))" using i by (intro addjob_ok) auto
    moreover have "fgs (jobs (snd (addjob p ?st cmd ?s))) = (if bg then {} else {i})"
      unfolding added(6) using i(2) added(2) by (simp add: fgs_update)
    ultimately show ?thesis using added(2,6) by (auto simp: sys_inv_def eval_add_def one_fg_def)
  qed (use i in \<open>auto simp: sys_inv_def eval_add_def one_fg_def\<close>)
qed

lemma fgpid_fgs:
  assumes "\<forall>i \<in> fgs js. pid (js ! i) = p" and "fgs js \<noteq> {}"
  shows "fgpid js = p"
proof -
  have "first (\<lambda>j. state j = FG) js \<noteq> None" using assms(2) by (auto simp: first_None fgs_def)
  then obtain i where i: "first (\<lambda>j. state j = FG) js = Some i" by blast
  then have "i \<in> fgs js" by (simp add: first_Some fgs_def)
  then show ?thesis using assms(1) i by (simp add: fgpid_def)
qed

lemma step_inv: "step s s' \<Longrightarrow> sys_inv s \<Longrightarrow> sys_inv s'"
proof (induction rule: step.induct)
  case (line s l)
  then show ?case using line_inv by blast
next
  case (fork s bg cmd p)
  then have "p \<notin> pid ` set (jobs (sh s))" by (auto simp: sys_inv_def table_ok_def pids_live_def)
  then show ?case using fork by (auto simp: sys_inv_def table_ok_def pids_live_def)
next
  case (add s p bg cmd)
  then show ?case by (simp add: add_inv)
next
  case (eval_done s p bg cmd)
  then show ?case by (auto simp: sys_inv_def eval_end_def)
next
  case (spin s p)
  then show ?case using fgpid_fgs [of "jobs (sh s)" p] by (auto simp: sys_inv_def waitfg_def)
next
  case (set s cmd k)
  then have k: "k < length (jobs (sh s))" "fgs (jobs (sh s)) = {}" "table_ok (live s) (jobs (sh s))"
    by (auto simp: sys_inv_def)
  have "table_ok (live s) ((jobs (sh s))[k := (jobs (sh s) ! k)\<lparr>state := st\<rparr>])" for st
    using k by (intro table_ok_update) simp_all
  then show ?case using k by (auto simp: sys_inv_def bgfg_set_def Let_def fgs_update one_fg_def)
next
  case (wait s k)
  then show ?case by (auto simp: sys_inv_def fg_wait_def)
next
  case (sigchld s evs L)
  then have h: "table_ok L (jobs (sigchld_handler evs (sh s)))" "shrinks (jobs (sh s)) (jobs (sigchld_handler evs (sh s)))"
    using sigchld_inv [of "live s" "sh s" evs L] by (auto simp: sys_inv_def)
  then show ?case using sigchld shrinks_one shrinks_pc by (auto simp: sys_inv_def)
next
  case (sigint s ok)
  then show ?case by (simp add: sigint_handler_def forward_inv)
next
  case (sigtstp s ok)
  then show ?case by (simp add: sigtstp_handler_def forward_inv)
qed (auto simp: sys_inv_def sigquit_handler_def)

lemma reachable_inv: "reachable s \<Longrightarrow> sys_inv s"
proof (induction rule: reachable.induct)
  case (init vb)
  show ?case by (auto simp: sys_inv_def start_def table_ok_def initjobs_def pids_unique_def pids_live_def one_fg_def fgs_def)
next
  case (step s s')
  then show ?case using step_inv by blast
qed

section \<open>Waiting for a foreground job\<close>

lemma fgpid_spec: "fgpid js \<noteq> 0 \<Longrightarrow> \<exists>i \<in> fgs js. pid (js ! i) = fgpid js"
proof (cases "first (\<lambda>j. state j = FG) js")
  case (Some i)
  then have "i \<in> fgs js" by (simp add: first_Some fgs_def)
  then show ?thesis using Some by (auto simp: fgpid_def)
qed (simp add: fgpid_def)

lemma fgpid_0: "\<forall>i \<in> fgs js. pid (js ! i) = 0 \<Longrightarrow> fgpid js = 0"
  using fgpid_fgs [of js 0] by (cases "fgs js = {}") (auto simp: fgpid_def first_Some fgs_def split: option.split)

lemma wait_0_step: "step s s' \<Longrightarrow> sys_inv s \<Longrightarrow> pc s = Waitfg 0 \<Longrightarrow> pc s' = Waitfg 0 \<or> pc s' = Exited 1"
proof (induction rule: step.induct)
  case (spin s p)
  then show ?case using fgpid_0 by (simp add: waitfg_def sys_inv_def)
next
  case (sigint s ok)
  then show ?case using fgpid_0 [of "jobs (sh s)"] by (simp add: sigint_handler_def forward_def sys_inv_def)
next
  case (sigtstp s ok)
  then show ?case using fgpid_0 [of "jobs (sh s)"] by (simp add: sigtstp_handler_def forward_def sys_inv_def)
qed (simp_all add: sigquit_handler_def)

lemma exited_stays: "step s s' \<Longrightarrow> pc s = Exited n \<Longrightarrow> False"
  by (induction rule: step.induct) (auto simp: running_def)

text \<open>After a report of process \<open>p\<close> it has no foreground entry.\<close>

definition not_fg :: "int \<Rightarrow> job_t list \<Rightarrow> bool" where
  "not_fg p js \<longleftrightarrow> (\<forall>i \<in> fgs js. pid (js ! i) \<noteq> p)"

lemma not_fg_shrinks: "shrinks js js' \<Longrightarrow> not_fg p js \<Longrightarrow> not_fg p js'"
  unfolding not_fg_def using shrinks_fgs by fastforce

lemma reap_not_fg:
  assumes "table_ok L (jobs s)" and "1 \<le> p"
  shows "not_fg p (jobs (reap (p, st) s))"
proof (cases st)
  case (Stop n)
  show ?thesis
  proof (cases "getjobpid (jobs s) p")
    case None
    then have "\<forall>j \<in> set (jobs s). pid j \<noteq> p" using assms(2) by (auto simp: getjobpid_None)
    then show ?thesis using Stop None by (simp add: reap_def Let_def not_fg_def fgs_def)
  next
    case (Some k)
    then have k: "k < length (jobs s)" "pid (jobs s ! k) = p" using assms(1) by (auto simp: table_ok_def getjobpid_iff)
    have "i = k" if "i < length (jobs s)" "pid (jobs s ! i) = p" for i
      using assms that k by (auto simp: table_ok_def pids_unique_def)
    then have "\<forall>i \<in> fgs (jobs s) - {k}. pid (jobs s ! i) \<noteq> p" by (simp add: fgs_def) blast
    moreover have "jobs (reap (p, st) s) = (jobs s)[k := (jobs s ! k)\<lparr>state := ST\<rparr>]"
      using Stop Some by (simp add: reap_def Let_def)
    ultimately show ?thesis using k(1) by (simp add: not_fg_def fgs_update)
  qed
next
  case Normal_exit
  then have "pids_live (UNIV - {p}) (jobs (reap (p, st) s))"
    using deletejob_ok [of UNIV s p] assms(1) by (auto simp: reap_def table_ok_def pids_live_def)
  then show ?thesis using assms(2) by (auto simp: not_fg_def fgs_def dest: pids_live_nth)
next
  case (Killed n)
  then have "pids_live (UNIV - {p}) (jobs (reap (p, st) s))"
    using deletejob_ok [of UNIV "say (Terminated (pid2jid (jobs s) p) p n) s" p] assms(1)
    by (auto simp: reap_def table_ok_def pids_live_def)
  then show ?thesis using assms(2) by (auto simp: not_fg_def fgs_def dest: pids_live_nth)
qed

lemma sigchld_not_fg:
  assumes "table_ok L (jobs s)" and "reaped L evs = Some L'" and "(p, st) \<in> set evs" and "1 \<le> p"
  shows "not_fg p (jobs (sigchld_handler evs s))"
  using assms(1-3)
proof (induction evs arbitrary: L s)
  case (Cons e evs)
  obtain q st' where e: "e = (q, st')" by (cases e)
  let ?L = "case st' of Stop _ \<Rightarrow> L | _ \<Rightarrow> L - {q}"
  have r: "table_ok ?L (jobs (reap e s))" using reap_inv [OF Cons.prems(1)] by (simp add: e)
  have r': "reaped ?L evs = Some L'" using Cons.prems(2) by (simp add: e split: if_splits)
  show ?case
  proof (cases "(p, st) = e")
    case True
    have "not_fg p (jobs (reap e s))" using reap_not_fg [OF Cons.prems(1) assms(4)] by (simp flip: True)
    moreover have "shrinks (jobs (reap e s)) (jobs (sigchld_handler evs (reap e s)))" using sigchld_inv [OF r r'] by blast
    ultimately have "not_fg p (jobs (sigchld_handler evs (reap e s)))" using not_fg_shrinks by blast
    then show ?thesis by (simp add: sigchld_handler_def)
  next
    case False
    then show ?thesis using Cons.IH [OF r r'] Cons.prems(3) by (auto simp: sigchld_handler_def)
  qed
qed simp

lemma waitfg_after_report:
  assumes "sys_inv s" and "pc s = Waitfg p" and "1 \<le> p" and "reaped (live s) evs = Some L" and "(p, st) \<in> set evs"
  shows "pc (waitfg p (s\<lparr>sh := sigchld_handler evs (sh s), live := L\<rparr>)) = Main"
proof -
  let ?js = "jobs (sigchld_handler evs (sh s))"
  have t: "table_ok (live s) (jobs (sh s))" using assms(1) by (simp add: sys_inv_def)
  have n: "not_fg p ?js" by (rule sigchld_not_fg [OF t assms(4,5,3)])
  have "fgpid ?js \<noteq> p"
  proof
    assume f: "fgpid ?js = p"
    then obtain i where "i \<in> fgs ?js" "pid (?js ! i) = p" using assms(3) fgpid_spec [of ?js] by auto
    then show False using n by (simp add: not_fg_def)
  qed
  then show ?thesis by (simp add: waitfg_def)
qed

section \<open>Reaching states\<close>

lemma launch:
  assumes "reachable s" and "pc s = Main" and "l \<noteq> []" "length l < MAXLINE"
    and "parseline (c_str l) = Some (argv, bg)" and "argv \<noteq> []" and "builtin_cmd argv s = None"
    and "1 \<le> p" and "p \<notin> live s"
  shows "reachable (eval_add p bg (c_str l) (s\<lparr>live := insert p (live s), pc := Forked p bg (c_str l)\<rparr>))"
proof -
  have "eval_line (c_str l) s = s\<lparr>pc := Fork bg (c_str l)\<rparr>" using assms(5-7) by (simp add: eval_line_def)
  then have "reachable (s\<lparr>pc := Fork bg (c_str l)\<rparr>)"
    using reachable.step [OF assms(1) step.line [OF assms(2,3,4)]] by simp
  from reachable.step [OF this step.fork [of _ bg "c_str l" p]]
  have "reachable (s\<lparr>live := insert p (live s), pc := Forked p bg (c_str l)\<rparr>)" using assms(8,9) by simp
  from reachable.step [OF this step.add [of _ p bg "c_str l"]] show ?thesis by simp
qed

text \<open>A background job that is launched and reported.\<close>

definition bg_line :: string where "bg_line = ''x &'' @ [CHR 0x0A]"

definition bg_job :: "int \<Rightarrow> sys \<Rightarrow> sys" where
  "bg_job p s = eval_end p True bg_line (eval_add p True bg_line (s\<lparr>live := insert p (live s), pc := Forked p True bg_line\<rparr>))"

lemma bg_line: "c_str bg_line = bg_line" "parseline bg_line = Some ([''x''], True)" "bg_line \<noteq> []" "length bg_line < MAXLINE"
  by code_simp+

lemma bg_job_reachable:
  assumes "reachable s" and "pc s = Main" and "1 \<le> p" and "p \<notin> live s"
  shows "reachable (bg_job p s)" and "pc (bg_job p s) = Main" and "live (bg_job p s) = insert p (live s)"
proof -
  have "builtin_cmd [''x''] s = None" by (simp add: builtin_cmd_def)
  from launch [OF assms(1,2) bg_line(3,4) _ _ this assms(3,4)]
  have "reachable (eval_add p True bg_line (s\<lparr>live := insert p (live s), pc := Forked p True bg_line\<rparr>))"
    by (simp add: bg_line)
  from reachable.step [OF this step.eval_done [of _ p True bg_line]]
  show "reachable (bg_job p s)" by (simp add: bg_job_def eval_add_def)
  show "pc (bg_job p s) = Main" "live (bg_job p s) = insert p (live s)"
    by (simp_all add: bg_job_def eval_end_def eval_add_def)
qed

lemma bg_jobs_reachable:
  assumes "reachable s" and "pc s = Main" and "\<forall>p \<in> set ps. 1 \<le> p \<and> p \<notin> live s" and "distinct ps"
  shows "reachable (fold bg_job ps s) \<and> pc (fold bg_job ps s) = Main \<and> live (fold bg_job ps s) = set ps \<union> live s"
  using assms
proof (induction ps arbitrary: s)
  case (Cons p ps)
  have b: "reachable (bg_job p s)" "pc (bg_job p s) = Main" "live (bg_job p s) = insert p (live s)"
    using bg_job_reachable [OF Cons.prems(1,2), of p] Cons.prems(3) by auto
  then show ?case using Cons.IH [OF b(1,2)] Cons.prems(3,4) by auto
qed simp

text \<open>Sixteen jobs, the third and fourth of them end, two more.\<close>

definition full_shell :: sys where
  "full_shell = fold bg_job [1, 2, 3, 4, 5, 6, 7, 8, 9, 10, 11, 12, 13, 14, 15, 16] (start False)"

definition dup_shell :: sys where
  "dup_shell = fold bg_job [17, 18]
     (full_shell\<lparr>sh := sigchld_handler [(3, Normal_exit), (4, Normal_exit)] (sh full_shell), live := live full_shell - {3} - {4}\<rparr>)"

lemma dup_reachable: "reachable dup_shell"
proof -
  have f: "reachable full_shell" "pc full_shell = Main" "live full_shell = {1, 2, 3, 4, 5, 6, 7, 8, 9, 10, 11, 12, 13, 14, 15, 16}"
    using bg_jobs_reachable [OF reachable.init [of False], of "[1, 2, 3, 4, 5, 6, 7, 8, 9, 10, 11, 12, 13, 14, 15, 16]"]
    by (auto simp: full_shell_def start_def)
  let ?evs = "[(3, Normal_exit), (4, Normal_exit)]"
  have "reaped (live full_shell) ?evs = Some (live full_shell - {3} - {4})" by (simp add: f(3))
  from reachable.step [OF f(1) step.sigchld [OF _ _ this]]
  have "reachable (full_shell\<lparr>sh := sigchld_handler ?evs (sh full_shell), live := live full_shell - {3} - {4}\<rparr>)"
    by (simp add: f(2) running_def chld_blocked_def)
  from bg_jobs_reachable [OF this, of "[17, 18]"] show ?thesis by (simp add: dup_shell_def f(2,3))
qed

lemma dup_table:
  "map (\<lambda>j. (pid j, jid j)) (jobs (sh dup_shell)) =
    [(1, 1), (2, 2), (17, 17), (18, 1), (5, 5), (6, 6), (7, 7), (8, 8), (9, 9), (10, 10), (11, 11), (12, 12), (13, 13),
     (14, 14), (15, 15), (16, 16)]"
  by code_simp

text \<open>A foreground job; and a background job that ends while \<^verbatim>\<open>do_bgfg\<close> brings it to the foreground.\<close>

definition fg_shell :: sys where
  "fg_shell = eval_end 7 False ''x '' (eval_add 7 False ''x '' ((start False)\<lparr>live := {7}, pc := Forked 7 False ''x ''\<rparr>))"

lemma fg_shell: "reachable fg_shell" "pc fg_shell = Waitfg 7" "live fg_shell = {7}"
proof -
  have "reachable (eval_add 7 False (c_str ''x '') ((start False)\<lparr>live := insert 7 (live (start False)), pc := Forked 7 False (c_str ''x '')\<rparr>))"
  proof (rule launch [OF reachable.init])
    show "parseline (c_str ''x '') = Some ([''x''], False)" by code_simp
  qed (simp_all add: start_def MAXLINE_def builtin_cmd_def)
  then have "reachable (eval_add 7 False ''x '' ((start False)\<lparr>live := {7}, pc := Forked 7 False ''x ''\<rparr>))"
    by (simp add: c_str_def start_def)
  from reachable.step [OF this step.eval_done [of _ 7 False "''x ''"]]
  show "reachable fg_shell" by (simp add: fg_shell_def eval_add_def)
  show "pc fg_shell = Waitfg 7" "live fg_shell = {7}" by (simp_all add: fg_shell_def eval_end_def eval_add_def)
qed

definition hang_line :: sys where
  "hang_line = eval_line ''fg %1 '' (bg_job 7 (start False))"

definition hang_cont :: sys where
  "hang_cont = hang_line\<lparr>sent := sent hang_line @ [(- pid (jobs (sh hang_line) ! 0), SIGCONT)], pc := Bgfg_set ''fg'' 0\<rparr>"

definition hang_shell :: sys where
  "hang_shell = fg_wait 0 (bgfg_set ''fg'' 0 (hang_cont\<lparr>sh := sigchld_handler [(7, Normal_exit)] (sh hang_cont), live := live hang_cont - {7}\<rparr>))"

lemma hang_shell: "reachable hang_shell" "pc hang_shell = Waitfg 0"
proof -
  let ?l = "''fg %1 ''"
  have b: "reachable (bg_job 7 (start False))" "pc (bg_job 7 (start False)) = Main" "live (bg_job 7 (start False)) = {7}"
    using bg_job_reachable [OF reachable.init [of False], of 7] by (simp_all add: start_def)
  have "reachable (eval_line (c_str ?l) (bg_job 7 (start False)))"
    using b(1) by (rule reachable.step) (rule step.line, simp_all add: b MAXLINE_def)
  then have l: "reachable hang_line" by (simp add: hang_line_def c_str_def)
  have lp: "pc hang_line = Bgfg ''fg'' 0" by code_simp
  have c: "reachable hang_cont" using l unfolding hang_cont_def by (rule reachable.step) (rule step.cont [OF lp])
  have "live hang_cont = {7}" by (simp add: hang_cont_def hang_line_def eval_line_keeps b)
  then have r: "reaped (live hang_cont) [(7, Normal_exit)] = Some (live hang_cont - {7})" by simp
  have cp: "pc hang_cont = Bgfg_set ''fg'' 0" by (simp add: hang_cont_def)
  let ?d = "hang_cont\<lparr>sh := sigchld_handler [(7, Normal_exit)] (sh hang_cont), live := live hang_cont - {7}\<rparr>"
  have d: "reachable ?d" using c by (rule reachable.step) (rule step.sigchld [OF _ _ r], simp_all add: cp running_def chld_blocked_def)
  have e: "reachable (bgfg_set ''fg'' 0 ?d)" using d by (rule reachable.step) (rule step.set, simp add: cp)
  have "pc (bgfg_set ''fg'' 0 ?d) = Fg_wait 0" by (simp add: bgfg_set_def)
  then show "reachable hang_shell" using e unfolding hang_shell_def by (blast intro: reachable.step step.wait)
  show "pc hang_shell = Waitfg 0" by code_simp
qed

section \<open>The command line\<close>

text \<open>A command line: the words, quoted where they must be, a blank behind each, and \<^verbatim>\<open>&\<close> for the background.\<close>

definition word_text :: "string \<Rightarrow> string" where
  "word_text w = (if w = [] \<or> CHR '' '' \<in> set w then CHR 0x27 # w @ [CHR 0x27] else w)"

definition cmd_text :: "string list \<Rightarrow> bool \<Rightarrow> string" where
  "cmd_text ws bg = concat (map (\<lambda>w. word_text w @ '' '') ws) @ (if bg then ''&'' else []) @ [CHR 0x0A]"

definition plain_word :: "string \<Rightarrow> bool" where
  "plain_word w \<longleftrightarrow> CHR 0x27 \<notin> set w \<and> CHR 0x00 \<notin> set w"

lemma split_word: "d \<notin> set w \<Longrightarrow> split_at_char d (w @ d # r) = Some (w, r)"
proof -
  assume "d \<notin> set w"
  then have "takeWhile (\<lambda>c. c \<noteq> d) (w @ d # r) = w" "dropWhile (\<lambda>c. c \<noteq> d) (w @ d # r) = d # r"
    by (auto simp: takeWhile_append dropWhile_append)
  then show ?thesis by (simp add: split_at_char_def)
qed

lemma args_blank: "args (CHR '' '' # s) = args s"
  by (subst (1 2) args.simps) (simp add: next_arg_def)

lemma args_end: "args [] = []"
  by (subst args.simps) (simp add: next_arg_def)

lemma args_word: "plain_word w \<Longrightarrow> args (word_text w @ CHR '' '' # r) = w # args r"
proof (cases "w = [] \<or> CHR '' '' \<in> set w")
  case True
  assume "plain_word w"
  then have "next_arg (word_text w @ CHR '' '' # r) = Some (w, CHR '' '' # r)"
    using True split_word [of "CHR 0x27" w "CHR '' '' # r"] by (simp add: next_arg_def word_text_def plain_word_def)
  then show ?thesis by (subst args.simps) (simp add: args_blank)
next
  case False
  assume p: "plain_word w"
  obtain c v where w: "w = c # v" using False by (cases w) auto
  then have "next_arg (word_text w @ CHR '' '' # r) = Some (w, r)"
    using False p split_word [of "CHR '' ''" w r] by (auto simp: next_arg_def word_text_def plain_word_def)
  then show ?thesis by (subst args.simps) simp
qed

lemma args_words: "\<forall>w \<in> set ws. plain_word w \<Longrightarrow> args (concat (map (\<lambda>w. word_text w @ '' '') ws) @ r) = ws @ args r"
  by (induction ws) (simp_all add: args_word)

lemma c_str_same: "CHR 0x00 \<notin> set s \<Longrightarrow> c_str s = s"
  by (auto simp: c_str_def)

lemma parse_cmd_text:
  assumes w: "\<forall>w \<in> set ws. plain_word w" and n: "length ws + of_bool bg < MAXARGS" and "ws \<noteq> []"
    and amp: "\<not> bg \<Longrightarrow> \<not> (\<exists>r. last ws = CHR ''&'' # r)"
  shows "parseline (cmd_text ws bg) = Some (ws, bg)"
proof -
  let ?body = "concat (map (\<lambda>w. word_text w @ '' '') ws)"
  have "CHR 0x00 \<notin> set (word_text v)" if "v \<in> set ws" for v using w that by (auto simp: word_text_def plain_word_def)
  then have "CHR 0x00 \<notin> set (cmd_text ws bg)" by (auto simp: cmd_text_def)
  then have c: "c_str (cmd_text ws bg) = cmd_text ws bg" by (rule c_str_same)
  have b: "butlast (cmd_text ws bg) @ '' '' = ?body @ (if bg then ''& '' else '' '')"
    by (simp add: cmd_text_def butlast_append)
  have amp_arg: "args ''& '' = [''&'']" by code_simp
  have a: "args (butlast (cmd_text ws bg) @ '' '') = ws @ (if bg then [''&''] else [])"
    unfolding b args_words [OF w] using args_blank [of "[]"] by (simp add: args_end amp_arg)
  have "cmd_text ws bg \<noteq> []" by (simp add: cmd_text_def)
  then show ?thesis using n assms(3) amp by (auto simp: parseline_def c a Let_def split: list.split)
qed

section \<open>Properties\<close>

text \<open>C18: In every state the shell can reach, whatever the handlers interrupt: the table has its sixteen
  entries, no process has two of them, every process in it is a child that has not been reaped, at most
  one job is in the foreground, and none is while the shell is at its prompt.\<close>

theorem shell_invariant:
  assumes "reachable s"
  shows "table_ok (live s) (jobs (sh s)) \<and> one_fg (jobs (sh s)) \<and> (pc s = Main \<longrightarrow> fgpid (jobs (sh s)) = 0)"
  using reachable_inv [OF assms] fgpid_0 [of "jobs (sh s)"] by (auto simp: sys_inv_def)

theorem shell_invariant_witness:
  "table_ok {7} (jobs (sh (bg_job 7 (start True)))) \<and> one_fg (jobs (sh (bg_job 7 (start True))))"
proof -
  have r: "reachable (bg_job 7 (start True))" "live (bg_job 7 (start True)) = {7}"
    using bg_job_reachable [OF reachable.init [of True], of 7] by (simp_all add: start_def)
  show ?thesis using shell_invariant [OF r(1)] by (simp add: r(2))
qed



text \<open>C20: Waiting for a foreground job ends: once the \<^verbatim>\<open>SIGCHLD\<close> handler has processed a report of that job,
  that it ended or that it stopped, among whatever other reports, the next turn of the loop of
  \<^verbatim>\<open>waitfg\<close> returns to the prompt.\<close>

theorem waitfg_returns:
  assumes "reachable s" and "pc s = Waitfg p" and "1 \<le> p" and "reaped (live s) evs = Some L" and "(p, st) \<in> set evs"
  shows "pc (waitfg p (s\<lparr>sh := sigchld_handler evs (sh s), live := L\<rparr>)) = Main"
  using waitfg_after_report [OF reachable_inv [OF assms(1)] assms(2-5)] .

theorem waitfg_returns_witness:
  "pc (waitfg 7 (fg_shell\<lparr>sh := sigchld_handler [(7, Stop 20)] (sh fg_shell), live := {7}\<rparr>)) = Main"
  by (rule waitfg_returns [OF fg_shell(1,2)]) (simp_all add: fg_shell(3))

text \<open>C21: \<^verbatim>\<open>fg\<close> can hang the shell: \<^verbatim>\<open>SIGCHLD\<close> is not blocked in \<^verbatim>\<open>do_bgfg\<close>, so the job may be deleted
  before \<^verbatim>\<open>job->pid\<close> is read for the last time, and \<^verbatim>\<open>waitfg(0)\<close> compares 0 with the 0 that \<^verbatim>\<open>fgpid\<close>
  returns for no job.  From there no step of the shell or of a handler leaves the loop; only
  \<^verbatim>\<open>SIGQUIT\<close> ends the process.\<close>

theorem fg_race_hangs:
  assumes "reachable s" and "pc s = Waitfg 0" and "step\<^sup>*\<^sup>* s s'"
  shows "pc s' = Waitfg 0 \<or> pc s' = Exited 1"
proof -
  have "(pc s' = Waitfg 0 \<and> sys_inv s') \<or> pc s' = Exited 1"
    using assms(3)
  proof (induction rule: rtranclp_induct)
    case base
    then show ?case using assms(1,2) reachable_inv by simp
  next
    case (step a b)
    then show ?case using wait_0_step [of a b] step_inv [of a b] exited_stays [of a b] by blast
  qed
  then show ?thesis by blast
qed

theorem fg_race_hangs_witness: "pc (waitfg 0 hang_shell) = Waitfg 0 \<or> pc (waitfg 0 hang_shell) = Exited 1"
  by (rule fg_race_hangs [OF hang_shell]) (rule r_into_rtranclp, rule step.spin [OF hang_shell(2)])

text \<open>C22: Job identifiers are not unique: with jobs 1 to 16 running, when two end and two are started the
  second gets the identifier 1 again, because \<^verbatim>\<open>addjob\<close> wraps \<^verbatim>\<open>nextjid\<close> past \<^verbatim>\<open>MAXJOBS\<close> without looking at
  the table; the first of the two also gets an identifier above \<^verbatim>\<open>MAXJOBS\<close>.\<close>

theorem jids_collide:
  "\<exists>s. reachable s \<and> (\<exists>i k. i \<noteq> k \<and> i < MAXJOBS \<and> k < MAXJOBS \<and> 1 \<le> pid (jobs (sh s) ! i) \<and> 1 \<le> pid (jobs (sh s) ! k) \<and>
     jid (jobs (sh s) ! i) = jid (jobs (sh s) ! k)) \<and> (\<exists>j \<in> set (jobs (sh s)). int MAXJOBS < jid j)"
proof -
  let ?f = "\<lambda>j. (pid j, jid j)"
  have len: "length (jobs (sh dup_shell)) = 16" using arg_cong [OF dup_table, of length] by simp
  have n: "?f (jobs (sh dup_shell) ! i) = map ?f (jobs (sh dup_shell)) ! i" if "i < 16" for i using that len by simp
  have "?f (jobs (sh dup_shell) ! 0) = (1, 1)" "?f (jobs (sh dup_shell) ! 3) = (18, 1)" "?f (jobs (sh dup_shell) ! 2) = (17, 17)"
    using n [of 0] n [of 3] n [of 2] unfolding dup_table by simp_all
  moreover have "jobs (sh dup_shell) ! 2 \<in> set (jobs (sh dup_shell))" using len by simp
  ultimately show ?thesis using dup_reachable
    by (intro exI [of _ dup_shell] conjI exI [of _ 0] exI [of _ 3] bexI [of _ "jobs (sh dup_shell) ! 2"]) (auto simp: MAXJOBS_def)
qed



end
