(* ===== verification/Mm.thy ===== *)
theory Mm
  imports Prelude
begin

text \<open>
  The memory system \<^verbatim>\<open>lab7/memlib.c\<close> and the allocator \<^verbatim>\<open>lab7/mm.c\<close>.  An address is the offset in
  bytes from the first byte of the heap; the heap is a map from addresses to 32-bit words, of which
  those at multiples of 4 below \<^verbatim>\<open>mem_brk\<close> exist.  Values of type \<^verbatim>\<open>unsigned int\<close> and \<^verbatim>\<open>size_t\<close> are
  integers with the wrap-around written out.  \<^term>\<open>None\<close> is an access outside the heap or not aligned
  to a word, a null pointer that is followed, or an overlapping \<^verbatim>\<open>memcpy\<close>.
\<close>

section \<open>\<^verbatim>\<open>memlib.c\<close>\<close>

record mm =
  mem_brk :: int
  word :: "int \<Rightarrow> int"
  heap_listp :: int
  hd_free :: "int option"
  ft_free :: "int option"

definition MAX_HEAP :: int where "MAX_HEAP = 20 * 2 ^ 20"

definition mem_reset_brk :: "mm \<Rightarrow> mm" where
  "mem_reset_brk s = s\<lparr>mem_brk := 0\<rparr>"

text \<open>\<^term>\<open>None\<close> in the result is \<^verbatim>\<open>(void *)-1\<close>.\<close>

definition mem_sbrk :: "int \<Rightarrow> mm \<Rightarrow> int option \<times> mm" where
  "mem_sbrk incr s =
     (if incr < 0 \<or> mem_brk s + incr > MAX_HEAP then (None, s)
      else (Some (mem_brk s), s\<lparr>mem_brk := mem_brk s + incr\<rparr>))"

definition mem_heap_lo :: int where "mem_heap_lo = 0"

definition mem_heap_hi :: "mm \<Rightarrow> int" where
  "mem_heap_hi s = mem_brk s - 1"

definition mem_heapsize :: "mm \<Rightarrow> int" where
  "mem_heapsize s = mem_brk s"

section \<open>Macros\<close>

definition u64 :: "int \<Rightarrow> int" where "u64 x = x mod 2 ^ 64"

definition WSIZE :: int where [simp]: "WSIZE = 4"
definition DSIZE :: int where [simp]: "DSIZE = 8"
definition CHUNKSIZE :: int where [simp]: "CHUNKSIZE = 2 ^ 12"

definition PACK :: "int \<Rightarrow> int \<Rightarrow> int" where "PACK sz alloc = sz OR alloc"

definition in_heap :: "int \<Rightarrow> mm \<Rightarrow> bool" where
  "in_heap p s \<longleftrightarrow> 0 \<le> p \<and> p + 4 \<le> mem_brk s \<and> 4 dvd p"

definition GET :: "int \<Rightarrow> mm \<Rightarrow> int ub" where
  "GET p s = (if in_heap p s then Some (word s p) else None)"

definition PUT :: "int \<Rightarrow> int \<Rightarrow> mm \<Rightarrow> mm ub" where
  "PUT p v s = (if in_heap p s then Some (s\<lparr>word := (word s)(p := v mod 2 ^ 32)\<rparr>) else None)"

definition GET_SIZE :: "int \<Rightarrow> mm \<Rightarrow> int ub" where
  "GET_SIZE p s = do { w \<leftarrow> GET p s; Some (w AND NOT 7) }"

definition GET_ALLOC :: "int \<Rightarrow> mm \<Rightarrow> int ub" where
  "GET_ALLOC p s = do { w \<leftarrow> GET p s; Some (w AND 1) }"

definition HDRP :: "int \<Rightarrow> int" where [simp]: "HDRP bp = bp - WSIZE"

definition FTRP :: "int \<Rightarrow> mm \<Rightarrow> int ub" where
  "FTRP bp s = do { n \<leftarrow> GET_SIZE (HDRP bp) s; Some (bp + n - DSIZE) }"

definition NEXT_BLKP :: "int \<Rightarrow> mm \<Rightarrow> int ub" where
  "NEXT_BLKP bp s = do { n \<leftarrow> GET_SIZE (bp - WSIZE) s; Some (bp + n) }"

definition PREV_BLKP :: "int \<Rightarrow> mm \<Rightarrow> int ub" where
  "PREV_BLKP bp s = do { n \<leftarrow> GET_SIZE (bp - DSIZE) s; Some (bp - n) }"

definition SELF_INDEX :: "int \<Rightarrow> mm \<Rightarrow> int" where
  "SELF_INDEX bp s = bp - heap_listp s"

definition SELF_ADDR :: "int \<Rightarrow> mm \<Rightarrow> int" where
  "SELF_ADDR index s = index + heap_listp s"

definition PREV_FREE :: "int \<Rightarrow> int" where [simp]: "PREV_FREE bp = bp"
definition NEXT_FREE :: "int \<Rightarrow> int" where [simp]: "NEXT_FREE bp = bp + WSIZE"

text \<open>Writing the footer of a block.\<close>

definition PUT_FTR :: "int \<Rightarrow> int \<Rightarrow> mm \<Rightarrow> mm ub" where
  "PUT_FTR bp v s = do { f \<leftarrow> FTRP bp s; PUT f v s }"

definition mm_memcpy :: "int \<Rightarrow> int \<Rightarrow> int \<Rightarrow> mm \<Rightarrow> mm ub" where
  "mm_memcpy dst src n s =
     (if 0 \<le> dst \<and> dst + n \<le> mem_brk s \<and> 0 \<le> src \<and> src + n \<le> mem_brk s \<and> 4 dvd dst \<and> 4 dvd src \<and> 4 dvd n \<and>
         (dst + n \<le> src \<or> src + n \<le> dst)
      then Some (s\<lparr>word := (\<lambda>a. if dst \<le> a \<and> a < dst + n \<and> 4 dvd a then word s (src + (a - dst)) else word s a)\<rparr>)
      else None)"

section \<open>The free list\<close>

definition insert_free_block :: "int \<Rightarrow> mm \<Rightarrow> mm ub" where
  "insert_free_block bp s =
     (case hd_free s of
        None \<Rightarrow> do {
          s \<leftarrow> PUT (NEXT_FREE bp) 0 s;
          s \<leftarrow> PUT (PREV_FREE bp) 0 s;
          Some (s\<lparr>hd_free := Some bp, ft_free := Some bp\<rparr>)
        }
      | Some _ \<Rightarrow> (case ft_free s of
          None \<Rightarrow> None
        | Some ft \<Rightarrow> do {
            s \<leftarrow> PUT (NEXT_FREE ft) (SELF_INDEX bp s) s;
            s \<leftarrow> PUT (PREV_FREE bp) (SELF_INDEX ft s) s;
            s \<leftarrow> PUT (NEXT_FREE bp) 0 s;
            Some (s\<lparr>ft_free := Some bp\<rparr>)
          }))"

definition prev_free_block :: "int \<Rightarrow> mm \<Rightarrow> int option ub" where
  "prev_free_block bp s = do { i \<leftarrow> GET (PREV_FREE bp) s; Some (if i = 0 then None else Some (SELF_ADDR i s)) }"

definition next_free_block :: "int \<Rightarrow> mm \<Rightarrow> int option ub" where
  "next_free_block bp s = do { i \<leftarrow> GET (NEXT_FREE bp) s; Some (if i = 0 then None else Some (SELF_ADDR i s)) }"

definition replace_free_block :: "int \<Rightarrow> int \<Rightarrow> mm \<Rightarrow> mm ub" where
  "replace_free_block old_bp new_bp s = do {
     s \<leftarrow> (if hd_free s = Some old_bp then Some (s\<lparr>hd_free := Some new_bp\<rparr>)
           else do { i \<leftarrow> GET (PREV_FREE old_bp) s; PUT (NEXT_FREE (SELF_ADDR i s)) (SELF_INDEX new_bp s) s });
     s \<leftarrow> (if ft_free s = Some old_bp then Some (s\<lparr>ft_free := Some new_bp\<rparr>)
           else do { i \<leftarrow> GET (NEXT_FREE old_bp) s; PUT (PREV_FREE (SELF_ADDR i s)) (SELF_INDEX new_bp s) s });
     mm_memcpy new_bp old_bp DSIZE s
   }"

definition remove_free_block :: "int \<Rightarrow> mm \<Rightarrow> mm ub" where
  "remove_free_block bp s = do {
     prv \<leftarrow> prev_free_block bp s;
     nxt \<leftarrow> next_free_block bp s;
     s \<leftarrow> (case prv of
         Some p \<Rightarrow> do { i \<leftarrow> GET (NEXT_FREE bp) s; PUT (NEXT_FREE p) i s }
       | None \<Rightarrow> Some (s\<lparr>hd_free := nxt\<rparr>));
     (case nxt of
         Some n \<Rightarrow> do { i \<leftarrow> GET (PREV_FREE bp) s; PUT (PREV_FREE n) i s }
       | None \<Rightarrow> Some (s\<lparr>ft_free := prv\<rparr>))
   }"

section \<open>Blocks\<close>

definition extend_heap :: "int \<Rightarrow> mm \<Rightarrow> (int option \<times> mm) ub" where
  "extend_heap words s =
     (let sz = u64 (words * WSIZE)
      in case mem_sbrk (to_int sz) s of
        (None, s) \<Rightarrow> Some (None, s)
      | (Some bp, s) \<Rightarrow> do {
          prv \<leftarrow> PREV_BLKP bp s;
          prev_alloc \<leftarrow> GET_ALLOC (HDRP prv) s;
          if prev_alloc \<noteq> 0 then do {
            s \<leftarrow> PUT (HDRP bp) (PACK sz 0) s;
            s \<leftarrow> PUT_FTR bp (PACK sz 0) s;
            nxt \<leftarrow> NEXT_BLKP bp s;
            s \<leftarrow> PUT (HDRP nxt) (PACK 0 1) s;
            s \<leftarrow> insert_free_block bp s;
            Some (Some bp, s)
          } else do {
            n \<leftarrow> GET_SIZE (HDRP prv) s;
            let sz = u64 (sz + n);
            s \<leftarrow> PUT (HDRP prv) (PACK sz 0) s;
            s \<leftarrow> PUT_FTR prv (PACK sz 0) s;
            nxt \<leftarrow> NEXT_BLKP prv s;
            s \<leftarrow> PUT (HDRP nxt) (PACK 0 1) s;
            Some (Some prv, s)
          }
        })"

definition mm_init :: "mm \<Rightarrow> (int \<times> mm) ub" where
  "mm_init s =
     (let s = s\<lparr>hd_free := None, ft_free := None\<rparr>
      in case mem_sbrk (2 * DSIZE) s of
        (None, s) \<Rightarrow> Some (- 1, s\<lparr>heap_listp := - 1\<rparr>)
      | (Some lp, s) \<Rightarrow> do {
          s \<leftarrow> PUT lp 0 s;
          s \<leftarrow> PUT (lp + 1 * WSIZE) (PACK DSIZE 1) s;
          s \<leftarrow> PUT (lp + 2 * WSIZE) (PACK DSIZE 1) s;
          s \<leftarrow> PUT (lp + 3 * WSIZE) (PACK 0 1) s;
          (r, s) \<leftarrow> extend_heap (CHUNKSIZE div WSIZE) (s\<lparr>heap_listp := lp + 2 * WSIZE\<rparr>);
          Some (if r = None then - 1 else 0, s)
        })"

text \<open>The search loop of \<^verbatim>\<open>find_fit\<close>; a list with a cycle would be searched for ever.\<close>

partial_function (option) find_from :: "int \<Rightarrow> int option \<Rightarrow> mm \<Rightarrow> int option ub" where
  "find_from sz bp s =
     (case bp of
        None \<Rightarrow> Some None
      | Some b \<Rightarrow> do {
          asize \<leftarrow> GET_SIZE (HDRP b) s;
          if sz \<le> asize then Some (Some b)
          else do { nxt \<leftarrow> next_free_block b s; find_from sz nxt s }
        })"

declare find_from.simps [code]

definition find_fit :: "int \<Rightarrow> mm \<Rightarrow> int option ub" where
  "find_fit sz s = find_from sz (hd_free s) s"

definition place :: "int \<Rightarrow> int \<Rightarrow> mm \<Rightarrow> (int \<times> mm) ub" where
  "place bp sz s = do {
     origin_size \<leftarrow> GET_SIZE (HDRP bp) s;
     if u64 (origin_size - sz) \<ge> 2 * DSIZE then do {
       s \<leftarrow> PUT (HDRP bp) (PACK (u64 (origin_size - sz)) 0) s;
       s \<leftarrow> PUT_FTR bp (PACK (u64 (origin_size - sz)) 0) s;
       nxt \<leftarrow> NEXT_BLKP bp s;
       s \<leftarrow> PUT (HDRP nxt) (PACK sz 1) s;
       s \<leftarrow> PUT_FTR nxt (PACK sz 1) s;
       Some (nxt, s)
     } else do {
       s \<leftarrow> PUT (HDRP bp) (PACK origin_size 1) s;
       s \<leftarrow> PUT_FTR bp (PACK origin_size 1) s;
       s \<leftarrow> remove_free_block bp s;
       Some (bp, s)
     }
   }"

text \<open>The block size for a request, in \<^verbatim>\<open>size_t\<close>.\<close>

definition adjust :: "int \<Rightarrow> int" where
  "adjust sz = u64 (DSIZE * (u64 (sz + DSIZE + (DSIZE - 1)) div DSIZE))"

definition mm_malloc :: "int \<Rightarrow> mm \<Rightarrow> (int option \<times> mm) ub" where
  "mm_malloc sz s =
     (if sz = 0 then Some (None, s)
      else
        let sz = (if sz = 448 then 512 else sz);
            sz = (if sz = 112 then 128 else sz);
            asize = adjust sz
        in do {
          fit \<leftarrow> find_fit asize s;
          (case fit of
             Some bp \<Rightarrow> do { (bp, s) \<leftarrow> place bp asize s; Some (Some bp, s) }
           | None \<Rightarrow> do {
               let extendsize = (if asize > CHUNKSIZE then asize else CHUNKSIZE);
               (bp, s) \<leftarrow> extend_heap (extendsize div WSIZE) s;
               (case bp of
                  None \<Rightarrow> Some (None, s)
                | Some bp \<Rightarrow> do { (bp, s) \<leftarrow> place bp asize s; Some (Some bp, s) })
             })
        })"

definition coalesce :: "int \<Rightarrow> mm \<Rightarrow> (int \<times> mm) ub" where
  "coalesce bp s = do {
     prv \<leftarrow> PREV_BLKP bp s;
     pf \<leftarrow> FTRP prv s;
     prev_alloc \<leftarrow> GET_ALLOC pf s;
     nxt \<leftarrow> NEXT_BLKP bp s;
     next_alloc \<leftarrow> GET_ALLOC (HDRP nxt) s;
     sz \<leftarrow> GET_SIZE (HDRP bp) s;
     if prev_alloc \<noteq> 0 \<and> next_alloc \<noteq> 0 then do {
       s \<leftarrow> insert_free_block bp s;
       Some (bp, s)
     } else if prev_alloc \<noteq> 0 \<and> next_alloc = 0 then do {
       n \<leftarrow> GET_SIZE (HDRP nxt) s;
       let sz = u64 (sz + n);
       s \<leftarrow> PUT (HDRP bp) (PACK sz 0) s;
       s \<leftarrow> PUT_FTR bp (PACK sz 0) s;
       s \<leftarrow> replace_free_block nxt bp s;
       Some (bp, s)
     } else if prev_alloc = 0 \<and> next_alloc \<noteq> 0 then do {
       n \<leftarrow> GET_SIZE (HDRP prv) s;
       let sz = u64 (sz + n);
       s \<leftarrow> PUT (HDRP prv) (PACK sz 0) s;
       s \<leftarrow> PUT_FTR prv (PACK sz 0) s;
       Some (prv, s)
     } else do {
       n \<leftarrow> GET_SIZE (HDRP prv) s;
       f \<leftarrow> FTRP nxt s;
       m \<leftarrow> GET_SIZE f s;
       let sz = u64 (sz + (n + m));
       s \<leftarrow> PUT (HDRP prv) (PACK sz 0) s;
       s \<leftarrow> PUT_FTR nxt (PACK sz 0) s;
       s \<leftarrow> remove_free_block nxt s;
       Some (prv, s)
     }
   }"

definition mm_free :: "int \<Rightarrow> mm \<Rightarrow> mm ub" where
  "mm_free ptr s = do {
     sz \<leftarrow> GET_SIZE (HDRP ptr) s;
     s \<leftarrow> PUT (HDRP ptr) (PACK sz 0) s;
     s \<leftarrow> PUT_FTR ptr (PACK sz 0) s;
     (_, s) \<leftarrow> coalesce ptr s;
     Some s
   }"

text \<open>The two ways \<^verbatim>\<open>mm_realloc\<close> stays in place, and the move.\<close>

definition realloc_shrink :: "int \<Rightarrow> int \<Rightarrow> int \<Rightarrow> mm \<Rightarrow> mm ub" where
  "realloc_shrink ptr asize oldSize s = do {
     ptr_next \<leftarrow> NEXT_BLKP ptr s;
     pn_alloc \<leftarrow> GET_ALLOC (HDRP ptr_next) s;
     s \<leftarrow> PUT (HDRP ptr) (PACK asize 1) s;
     s \<leftarrow> PUT_FTR ptr (PACK asize 1) s;
     new_next \<leftarrow> NEXT_BLKP ptr s;
     if pn_alloc = 0 then do {
       pn_size \<leftarrow> GET_SIZE (HDRP ptr_next) s;
       s \<leftarrow> PUT (HDRP new_next) (PACK (u64 (oldSize - asize + pn_size)) 0) s;
       s \<leftarrow> PUT_FTR new_next (PACK (u64 (oldSize - asize + pn_size)) 0) s;
       replace_free_block ptr_next new_next s
     } else do {
       s \<leftarrow> PUT (HDRP new_next) (PACK (u64 (oldSize - asize)) 0) s;
       s \<leftarrow> PUT_FTR new_next (PACK (u64 (oldSize - asize)) 0) s;
       insert_free_block new_next s
     }
   }"

definition realloc_move :: "int \<Rightarrow> int \<Rightarrow> int \<Rightarrow> mm \<Rightarrow> (int option \<times> mm) ub" where
  "realloc_move ptr asize oldSize s = do {
     (new_ptr, s) \<leftarrow> mm_malloc asize s;
     (case new_ptr of
        None \<Rightarrow> None
      | Some q \<Rightarrow> do {
          s \<leftarrow> mm_memcpy q ptr (u64 (oldSize - DSIZE)) s;
          s \<leftarrow> mm_free ptr s;
          Some (Some q, s)
        })
   }"

definition realloc_grow :: "int \<Rightarrow> int \<Rightarrow> int \<Rightarrow> mm \<Rightarrow> (int option \<times> mm) ub" where
  "realloc_grow ptr asize oldSize s = do {
     ptr_next \<leftarrow> NEXT_BLKP ptr s;
     pn_size \<leftarrow> GET_SIZE (HDRP ptr_next) s;
     pn_alloc \<leftarrow> GET_ALLOC (HDRP ptr_next) s;
     if pn_alloc = 0 \<and> u64 (oldSize + pn_size) \<ge> u64 (asize + 2 * DSIZE) then do {
       let new_next = ptr + asize;
       s \<leftarrow> replace_free_block ptr_next new_next s;
       s \<leftarrow> PUT (HDRP ptr) (PACK asize 1) s;
       s \<leftarrow> PUT_FTR ptr (PACK asize 1) s;
       s \<leftarrow> PUT (HDRP new_next) (PACK (u64 (oldSize + pn_size - asize)) 0) s;
       s \<leftarrow> PUT_FTR new_next (PACK (u64 (oldSize + pn_size - asize)) 0) s;
       Some (Some ptr, s)
     } else if pn_alloc = 0 \<and> u64 (oldSize + pn_size) \<ge> asize then do {
       s \<leftarrow> PUT (HDRP ptr) (PACK (u64 (oldSize + pn_size)) 1) s;
       s \<leftarrow> PUT_FTR ptr (PACK (u64 (oldSize + pn_size)) 1) s;
       s \<leftarrow> remove_free_block ptr_next s;
       Some (Some ptr, s)
     } else realloc_move ptr asize oldSize s
   }"

definition mm_realloc :: "int option \<Rightarrow> int \<Rightarrow> mm \<Rightarrow> (int option \<times> mm) ub" where
  "mm_realloc p sz s =
     (if sz = 0 then (case p of None \<Rightarrow> None | Some ptr \<Rightarrow> do { s \<leftarrow> mm_free ptr s; Some (p, s) })
      else
        let asize = adjust sz
        in case p of
          None \<Rightarrow> mm_malloc asize s
        | Some ptr \<Rightarrow> do {
            oldSize \<leftarrow> GET_SIZE (HDRP ptr) s;
            if asize \<le> oldSize then
              (if oldSize - asize \<ge> 2 * DSIZE
               then do { s \<leftarrow> realloc_shrink ptr asize oldSize s; Some (p, s) }
               else Some (p, s))
            else realloc_grow ptr asize oldSize s
          })"

end
