(* ===== verification/Mdriver.thy ===== *)
theory Mdriver
  imports Mm CStdio
begin

text \<open>
  The malloc lab's driver \<^verbatim>\<open>lab7/mdriver.c\<close>: the list of payload ranges, the trace files, and the runs that
  check a malloc package, measure its utilisation and drive the C library's.  The package under test is a
  parameter, as the driver is linked with one; \<^verbatim>\<open>junk\<close> is what fresh storage of the C library holds.
\<close>

section \<open>Outcomes\<close>

text \<open>\<^verbatim>\<open>exit\<close> and a failed \<^verbatim>\<open>assert\<close> end the program.\<close>

datatype 'a outcome = Done 'a | Exit | Abort

fun andthen :: "'a outcome ub \<Rightarrow> ('a \<Rightarrow> 'b outcome ub) \<Rightarrow> 'b outcome ub" where
  "andthen None f = None"
| "andthen (Some Exit) f = Some Exit"
| "andthen (Some Abort) f = Some Abort"
| "andthen (Some (Done x)) f = f x"

section \<open>Data\<close>

datatype optype = ALLOC | FREE | REALLOC

record traceop_t =
  tp_type :: optype
  tp_index :: int
  tp_size :: int

record trace_t =
  sugg_heapsize :: int
  num_ids :: int
  num_ops :: int
  weight :: int
  tr_ops :: "traceop_t list"
  tr_blocks :: "int list"
  block_sizes :: "int list"

text \<open>A range is the pair of its lowest and highest payload address.\<close>

type_synonym range_t = "int \<times> int"

text \<open>The messages of \<^verbatim>\<open>malloc_error\<close>; the counter \<^verbatim>\<open>errors\<close> is the number of entries printed.\<close>

datatype error_msg =
  InitFailed | MallocFailed | ReallocFailed | NotAligned int | Outside int int | Overlaps int int int int
| NotPreserved | LibcMallocFailed | LibcReallocFailed

record 'h package =
  pk_init :: "'h \<Rightarrow> (int \<times> 'h) ub"
  pk_malloc :: "int \<Rightarrow> 'h \<Rightarrow> (int option \<times> 'h) ub"
  pk_realloc :: "int option \<Rightarrow> int \<Rightarrow> 'h \<Rightarrow> (int option \<times> 'h) ub"
  pk_free :: "int \<Rightarrow> 'h \<Rightarrow> 'h ub"

definition mm_package :: "mm package" where
  "mm_package = \<lparr>pk_init = mm_init, pk_malloc = mm_malloc, pk_realloc = mm_realloc, pk_free = mm_free\<rparr>"

record 'h drv =
  dr_heap :: 'h
  dr_ranges :: "range_t list"
  dr_errors :: "(int \<times> int \<times> error_msg) list"
  dr_trace :: trace_t

definition LINENUM :: "int \<Rightarrow> int" where "LINENUM i = i + 5"

definition malloc_error :: "int \<Rightarrow> int \<Rightarrow> error_msg \<Rightarrow> 'h drv \<Rightarrow> 'h drv" where
  "malloc_error tracenum opnum m d = d\<lparr>dr_errors := dr_errors d @ [(tracenum, LINENUM opnum, m)]\<rparr>"

section \<open>The range list\<close>

definition IS_ALIGNED :: "int \<Rightarrow> bool" where "IS_ALIGNED p \<longleftrightarrow> p mod 8 = 0"

fun overlapping :: "int \<Rightarrow> int \<Rightarrow> range_t list \<Rightarrow> range_t option" where
  "overlapping lo hi [] = None"
| "overlapping lo hi ((plo, phi) # ps) =
     (if (lo \<ge> plo \<and> lo \<le> phi) \<or> (hi \<ge> plo \<and> hi \<le> phi) then Some (plo, phi) else overlapping lo hi ps)"

definition add_range :: "int \<Rightarrow> int \<Rightarrow> int \<Rightarrow> int \<Rightarrow> mm drv \<Rightarrow> (bool \<times> mm drv) outcome" where
  "add_range lo n tracenum opnum d =
     (let hi = lo + n - 1
      in if \<not> n > 0 then Abort
         else if \<not> IS_ALIGNED lo then Done (False, malloc_error tracenum opnum (NotAligned lo) d)
         else if lo < mem_heap_lo \<or> lo > mem_heap_hi (dr_heap d) \<or> hi < mem_heap_lo \<or> hi > mem_heap_hi (dr_heap d)
         then Done (False, malloc_error tracenum opnum (Outside lo hi) d)
         else (case overlapping lo hi (dr_ranges d) of
             Some (plo, phi) \<Rightarrow> Done (False, malloc_error tracenum opnum (Overlaps lo hi plo phi) d)
           | None \<Rightarrow> Done (True, d\<lparr>dr_ranges := (lo, hi) # dr_ranges d\<rparr>)))"

fun remove_first :: "int \<Rightarrow> range_t list \<Rightarrow> range_t list" where
  "remove_first lo [] = []"
| "remove_first lo ((plo, phi) # ps) = (if plo = lo then ps else (plo, phi) # remove_first lo ps)"

definition remove_range :: "int \<Rightarrow> 'h drv \<Rightarrow> 'h drv" where
  "remove_range lo d = d\<lparr>dr_ranges := remove_first lo (dr_ranges d)\<rparr>"

definition clear_ranges :: "'h drv \<Rightarrow> 'h drv" where
  "clear_ranges d = d\<lparr>dr_ranges := []\<rparr>"

section \<open>Trace files\<close>

text \<open>The conversions of \<^verbatim>\<open>fscanf\<close>: \<^term>\<open>None\<close> inside is a matching failure, which assigns nothing.\<close>

definition scan_dec :: "string \<Rightarrow> int option \<times> string" where
  "scan_dec s =
     (let (neg, t) = strtoull_sign (dropWhile isspace s);
          ds = takeWhile dec_char t;
          n = int (digits_val 10 ds)
      in (if ds = [] then None else Some (if neg then - n else n), drop (length ds) t))"

definition scan_d :: "string \<Rightarrow> (int \<times> string) ub" where
  "scan_d s = (case scan_dec s of (Some n, t) \<Rightarrow> if int_ok n then Some (n, t) else None | (None, t) \<Rightarrow> None)"

definition scan_u :: "string \<Rightarrow> (int option \<times> string) ub" where
  "scan_u s = (case scan_dec s of
       (Some n, t) \<Rightarrow> if \<bar>n\<bar> < 2 ^ 32 then Some (Some (n mod 2 ^ 32), t) else None
     | (None, t) \<Rightarrow> Some (None, t))"

definition scan_s :: "string \<Rightarrow> (string option \<times> string) ub" where
  "scan_s s =
     (let t = dropWhile isspace s; w = takeWhile (\<lambda>c. \<not> isspace c) t
      in if t = [] then Some (None, [])
         else if length w < 1024 then Some (Some w, drop (length w) t) else None)"

text \<open>The two numbers of a request; a variable keeps its old value when its conversion fails, and the
  first read of \<^verbatim>\<open>size\<close> before it was ever set is undefined.\<close>

definition scan_index_size :: "int \<Rightarrow> int option \<Rightarrow> string \<Rightarrow> (int \<times> int option \<times> string) ub" where
  "scan_index_size idx sz s = do {
     (i, t) \<leftarrow> scan_u s;
     (case i of
        None \<Rightarrow> Some (idx, sz, t)
      | Some i \<Rightarrow> do {
          (n, t) \<leftarrow> scan_u t;
          Some (i, (case n of None \<Rightarrow> sz | Some n \<Rightarrow> Some n), t)
        })
   }"

record reader =
  rd_index :: int
  rd_size :: "int option"
  rd_max :: int
  rd_op :: int
  rd_ops :: "traceop_t list"

definition read_request :: "char \<Rightarrow> string \<Rightarrow> reader \<Rightarrow> (reader \<times> string) outcome ub" where
  "read_request c s r =
     (if c = CHR ''a'' \<or> c = CHR ''r'' then do {
        (i, n, t) \<leftarrow> scan_index_size (rd_index r) (rd_size r) s;
        z \<leftarrow> n;
        ops \<leftarrow> arr_set (rd_ops r) (rd_op r)
          \<lparr>tp_type = (if c = CHR ''a'' then ALLOC else REALLOC), tp_index = to_int i, tp_size = to_int z\<rparr>;
        Some (Done (r\<lparr>rd_index := i, rd_size := n, rd_max := (if i > rd_max r then i else rd_max r),
          rd_op := rd_op r + 1, rd_ops := ops\<rparr>, t))
      }
      else if c = CHR ''f'' then do {
        (i, t) \<leftarrow> scan_u s;
        let i' = (case i of None \<Rightarrow> rd_index r | Some i \<Rightarrow> i);
        let t' = (case t of d # u \<Rightarrow> if i \<noteq> None \<and> d = CHR ''d'' then u else t | [] \<Rightarrow> []);
        old \<leftarrow> arr_get (rd_ops r) (rd_op r);
        ops \<leftarrow> arr_set (rd_ops r) (rd_op r) (old\<lparr>tp_type := FREE, tp_index := to_int i'\<rparr>);
        Some (Done (r\<lparr>rd_index := i', rd_op := rd_op r + 1, rd_ops := ops\<rparr>, t'))
      }
      else Some Exit)"

text \<open>One request per turn, to the end of the file; every turn takes a word.\<close>

lemma scan_dec_shorter: "length (snd (scan_dec s)) \<le> length s"
proof -
  have "length (snd (strtoull_sign t)) \<le> length t" for t by (cases t) auto
  from this [of "dropWhile isspace s"] show ?thesis
    using length_dropWhile_le [of isspace s] by (auto simp: scan_dec_def Let_def split: prod.splits)
qed

lemma scan_u_shorter: "scan_u s = Some (n, t) \<Longrightarrow> length t \<le> length s"
  using scan_dec_shorter [of s] by (auto simp: scan_u_def split: prod.splits option.splits if_splits)

lemma scan_s_shorter: "scan_s s = Some (Some w, t) \<Longrightarrow> length t < length s"
proof -
  assume a: "scan_s s = Some (Some w, t)"
  let ?u = "dropWhile isspace s"
  have "?u \<noteq> []" "w = takeWhile (\<lambda>c. \<not> isspace c) ?u" "t = drop (length w) ?u"
    using a by (auto simp: scan_s_def Let_def split: if_splits)
  moreover from this have "w \<noteq> []" using hd_dropWhile [of isspace s] by (cases ?u) auto
  ultimately show ?thesis using length_dropWhile_le [of isspace s] by (cases w; cases ?u) auto
qed

lemma scan_index_size_shorter:
  assumes "scan_index_size x z s = Some (i, n, t)"
  shows "length t \<le> length s"
proof -
  obtain k u where u: "scan_u s = Some (k, u)" using assms by (auto simp: scan_index_size_def bind_eq_Some_conv)
  then show ?thesis using assms scan_u_shorter [OF u] scan_u_shorter [of u _ t]
    by (fastforce simp: scan_index_size_def bind_eq_Some_conv split: option.splits)
qed

lemma read_request_shorter:
  assumes "read_request c s r = Some (Done (r', t))"
  shows "length t \<le> length s"
proof (cases "c = CHR ''a'' \<or> c = CHR ''r''")
  case True
  then obtain i n where "scan_index_size (rd_index r) (rd_size r) s = Some (i, n, t)"
    using assms unfolding read_request_def if_P [OF True] by (auto simp: bind_eq_Some_conv)
  then show ?thesis by (rule scan_index_size_shorter)
next
  case False
  then have f: "c = CHR ''f''" using assms unfolding read_request_def by (metis option.inject outcome.distinct(1))
  then obtain i u where u: "scan_u s = Some (i, u)" "length t \<le> length u"
    using assms unfolding read_request_def if_not_P [OF False] if_P [OF f]
    by (cases "scan_u s") (auto simp: bind_eq_Some_conv Let_def split: list.splits if_splits)
  then show ?thesis using scan_u_shorter [OF u(1)] by simp
qed

lemma andthen_cong [fundef_cong]:
  "x = y \<Longrightarrow> (\<And>a. y = Some (Done a) \<Longrightarrow> f a = g a) \<Longrightarrow> andthen x f = andthen y g"
  by (cases "(y, g)" rule: andthen.cases) auto

function read_requests :: "string \<Rightarrow> reader \<Rightarrow> reader outcome ub" where
  "read_requests s r =
     (case scan_s s of
        None \<Rightarrow> None
      | Some (None, _) \<Rightarrow> Some (Done r)
      | Some (Some w, t) \<Rightarrow> andthen (read_request (hd w) t r) (\<lambda>(r, t). read_requests t r))"
  by pat_completeness auto

termination
  by (relation "measure (\<lambda>(s, r). length s)") (auto dest!: scan_s_shorter read_request_shorter)

declare read_requests.simps [simp del]

definition read_trace :: "traceop_t \<Rightarrow> int \<Rightarrow> string \<Rightarrow> trace_t outcome ub" where
  "read_trace junk_op junk file = do {
     (h, s) \<leftarrow> scan_d file;
     (ids, s) \<leftarrow> scan_d s;
     (n, s) \<leftarrow> scan_d s;
     (w, s) \<leftarrow> scan_d s;
     if n < 0 \<or> ids < 0 then Some Exit
     else andthen
       (read_requests s \<lparr>rd_index = 0, rd_size = None, rd_max = 0, rd_op = 0, rd_ops = replicate (nat n) junk_op\<rparr>)
       (\<lambda>r. if rd_max r \<noteq> (ids - 1) mod 2 ^ 32 \<or> n \<noteq> rd_op r then Some Abort
            else Some (Done \<lparr>sugg_heapsize = h, num_ids = ids, num_ops = n, weight = w, tr_ops = rd_ops r,
              tr_blocks = replicate (nat ids) junk, block_sizes = replicate (nat ids) junk\<rparr>))
   }"

section \<open>Bytes of the heap\<close>

definition wd :: "int \<Rightarrow> int" where "wd a = a - a mod 4"

definition heap_byte :: "int \<Rightarrow> mm \<Rightarrow> int ub" where
  "heap_byte a s = (if in_heap (wd a) s then Some (word s (wd a) div 256 ^ nat (a mod 4) mod 256) else None)"

definition put_byte :: "int \<Rightarrow> int \<Rightarrow> mm \<Rightarrow> mm ub" where
  "put_byte a v s = do {
     old \<leftarrow> heap_byte a s;
     Some (s\<lparr>word := (word s)(wd a := word s (wd a) + (v mod 256 - old) * 256 ^ nat (a mod 4))\<rparr>)
   }"

fun mm_memset :: "int \<Rightarrow> int \<Rightarrow> nat \<Rightarrow> mm \<Rightarrow> mm ub" where
  "mm_memset p v 0 s = Some s"
| "mm_memset p v (Suc n) s = do { s \<leftarrow> put_byte p v s; mm_memset (p + 1) v n s }"

text \<open>A \<^verbatim>\<open>char\<close> of the heap as an \<^verbatim>\<open>int\<close>; plain \<^verbatim>\<open>char\<close> is signed.\<close>

definition schar :: "int \<Rightarrow> int" where
  "schar b = (if b < 128 then b else b - 256)"

fun all_chars :: "int \<Rightarrow> int \<Rightarrow> nat \<Rightarrow> mm \<Rightarrow> bool ub" where
  "all_chars p v 0 s = Some True"
| "all_chars p v (Suc n) s = do {
     b \<leftarrow> heap_byte p s;
     if schar b \<noteq> v then Some False else all_chars (p + 1) v n s
   }"

section \<open>Checking a package\<close>

definition set_block :: "int \<Rightarrow> int \<Rightarrow> int \<Rightarrow> 'h drv \<Rightarrow> 'h drv ub" where
  "set_block idx p n d = do {
     bs \<leftarrow> arr_set (tr_blocks (dr_trace d)) idx p;
     ss \<leftarrow> arr_set (block_sizes (dr_trace d)) idx (u64 n);
     Some (d\<lparr>dr_trace := (dr_trace d)\<lparr>tr_blocks := bs, block_sizes := ss\<rparr>\<rparr>)
   }"

definition valid_alloc :: "mm package \<Rightarrow> int \<Rightarrow> int \<Rightarrow> int \<Rightarrow> int \<Rightarrow> mm drv \<Rightarrow> (bool \<times> mm drv) outcome ub" where
  "valid_alloc P tracenum i idx n d = do {
     (p, h) \<leftarrow> pk_malloc P (u64 n) (dr_heap d);
     let d = d\<lparr>dr_heap := h\<rparr>;
     (case p of
        None \<Rightarrow> Some (Done (False, malloc_error tracenum i MallocFailed d))
      | Some p \<Rightarrow> andthen (Some (add_range p n tracenum i d)) (\<lambda>(ok, d).
          if \<not> ok then Some (Done (False, d))
          else do {
            h \<leftarrow> mm_memset p (idx AND 255) (nat n) (dr_heap d);
            d \<leftarrow> set_block idx p n (d\<lparr>dr_heap := h\<rparr>);
            Some (Done (True, d))
          }))
   }"

definition valid_realloc :: "mm package \<Rightarrow> int \<Rightarrow> int \<Rightarrow> int \<Rightarrow> int \<Rightarrow> mm drv \<Rightarrow> (bool \<times> mm drv) outcome ub" where
  "valid_realloc P tracenum i idx n d = do {
     oldp \<leftarrow> arr_get (tr_blocks (dr_trace d)) idx;
     (newp, h) \<leftarrow> pk_realloc P (Some oldp) (u64 n) (dr_heap d);
     let d = d\<lparr>dr_heap := h\<rparr>;
     (case newp of
        None \<Rightarrow> Some (Done (False, malloc_error tracenum i ReallocFailed d))
      | Some newp \<Rightarrow> andthen (Some (add_range newp n tracenum i (remove_range oldp d))) (\<lambda>(ok, d).
          if \<not> ok then Some (Done (False, d))
          else do {
            oldsize \<leftarrow> arr_get (block_sizes (dr_trace d)) idx;
            let oldsize = to_int oldsize;
            let oldsize = (if n < oldsize then n else oldsize);
            same \<leftarrow> all_chars newp (idx AND 255) (nat oldsize) (dr_heap d);
            if \<not> same then Some (Done (False, malloc_error tracenum i NotPreserved d))
            else do {
              h \<leftarrow> mm_memset newp (idx AND 255) (nat n) (dr_heap d);
              d \<leftarrow> set_block idx newp n (d\<lparr>dr_heap := h\<rparr>);
              Some (Done (True, d))
            }
          }))
   }"

definition valid_free :: "mm package \<Rightarrow> int \<Rightarrow> mm drv \<Rightarrow> (bool \<times> mm drv) outcome ub" where
  "valid_free P idx d = do {
     p \<leftarrow> arr_get (tr_blocks (dr_trace d)) idx;
     let d = remove_range p d;
     h \<leftarrow> pk_free P p (dr_heap d);
     Some (Done (True, d\<lparr>dr_heap := h\<rparr>))
   }"

definition valid_op :: "mm package \<Rightarrow> int \<Rightarrow> int \<Rightarrow> traceop_t \<Rightarrow> mm drv \<Rightarrow> (bool \<times> mm drv) outcome ub" where
  "valid_op P tracenum i op d = (case tp_type op of
       ALLOC \<Rightarrow> valid_alloc P tracenum i (tp_index op) (tp_size op) d
     | REALLOC \<Rightarrow> valid_realloc P tracenum i (tp_index op) (tp_size op) d
     | FREE \<Rightarrow> valid_free P (tp_index op) d)"

fun valid_ops :: "mm package \<Rightarrow> int \<Rightarrow> int \<Rightarrow> traceop_t list \<Rightarrow> mm drv \<Rightarrow> (bool \<times> mm drv) outcome ub" where
  "valid_ops P tracenum i [] d = Some (Done (True, d))"
| "valid_ops P tracenum i (op # ops) d =
     andthen (valid_op P tracenum i op d) (\<lambda>(ok, d).
       if ok then valid_ops P tracenum (i + 1) ops d else Some (Done (False, d)))"

definition eval_mm_valid :: "mm package \<Rightarrow> int \<Rightarrow> mm drv \<Rightarrow> (bool \<times> mm drv) outcome ub" where
  "eval_mm_valid P tracenum d = do {
     (r, h) \<leftarrow> pk_init P (mem_reset_brk (dr_heap d));
     let d = (clear_ranges d)\<lparr>dr_heap := h\<rparr>;
     if r < 0 then Some (Done (False, malloc_error tracenum 0 InitFailed d))
     else valid_ops P tracenum 0 (take (nat (num_ops (dr_trace d))) (tr_ops (dr_trace d))) d
   }"

section \<open>Utilisation and speed\<close>

record counters =
  max_total :: int
  total :: int

definition add_total :: "int \<Rightarrow> counters \<Rightarrow> counters ub" where
  "add_total n c =
     (let t = total c + n
      in if int_ok n \<and> int_ok t then Some \<lparr>max_total = (if t > max_total c then t else max_total c), total = t\<rparr> else None)"

definition util_op :: "mm package \<Rightarrow> traceop_t \<Rightarrow> mm drv \<times> counters \<Rightarrow> (mm drv \<times> counters) outcome ub" where
  "util_op P op dc = (case dc of (d, c) \<Rightarrow>
     (case tp_type op of
        ALLOC \<Rightarrow> do {
          (p, h) \<leftarrow> pk_malloc P (u64 (tp_size op)) (dr_heap d);
          (case p of
             None \<Rightarrow> Some Exit
           | Some p \<Rightarrow> do {
               d \<leftarrow> set_block (tp_index op) p (tp_size op) (d\<lparr>dr_heap := h\<rparr>);
               c \<leftarrow> add_total (tp_size op) c;
               Some (Done (d, c))
             })
        }
      | REALLOC \<Rightarrow> do {
          oldsize \<leftarrow> arr_get (block_sizes (dr_trace d)) (tp_index op);
          oldp \<leftarrow> arr_get (tr_blocks (dr_trace d)) (tp_index op);
          (p, h) \<leftarrow> pk_realloc P (Some oldp) (u64 (tp_size op)) (dr_heap d);
          (case p of
             None \<Rightarrow> Some Exit
           | Some p \<Rightarrow> do {
               d \<leftarrow> set_block (tp_index op) p (tp_size op) (d\<lparr>dr_heap := h\<rparr>);
               c \<leftarrow> add_total (tp_size op - to_int oldsize) c;
               Some (Done (d, c))
             })
        }
      | FREE \<Rightarrow> do {
          n \<leftarrow> arr_get (block_sizes (dr_trace d)) (tp_index op);
          p \<leftarrow> arr_get (tr_blocks (dr_trace d)) (tp_index op);
          h \<leftarrow> pk_free P p (dr_heap d);
          if int_ok (total c - to_int n) then Some (Done (d\<lparr>dr_heap := h\<rparr>, c\<lparr>total := total c - to_int n\<rparr>)) else None
        }))"

fun util_ops :: "mm package \<Rightarrow> traceop_t list \<Rightarrow> mm drv \<times> counters \<Rightarrow> (mm drv \<times> counters) outcome ub" where
  "util_ops P [] dc = Some (Done dc)"
| "util_ops P (op # ops) dc = andthen (util_op P op dc) (util_ops P ops)"

text \<open>The numerator and the denominator of the ratio that is returned.\<close>

definition eval_mm_util :: "mm package \<Rightarrow> mm drv \<Rightarrow> (int \<times> int \<times> mm drv) outcome ub" where
  "eval_mm_util P d = do {
     (r, h) \<leftarrow> pk_init P (mem_reset_brk (dr_heap d));
     if r < 0 then Some Exit
     else andthen (util_ops P (take (nat (num_ops (dr_trace d))) (tr_ops (dr_trace d))) (d\<lparr>dr_heap := h\<rparr>, \<lparr>max_total = 0, total = 0\<rparr>))
       (\<lambda>(d, c). Some (Done (max_total c, mem_heapsize (dr_heap d), d)))
   }"

text \<open>The replay that \<^verbatim>\<open>eval_mm_speed\<close>, \<^verbatim>\<open>eval_libc_speed\<close> and \<^verbatim>\<open>eval_libc_valid\<close> share, up to what happens
  when a request fails.\<close>

definition put_block :: "int \<Rightarrow> int \<Rightarrow> 'h drv \<Rightarrow> 'h drv ub" where
  "put_block idx p d = do {
     bs \<leftarrow> arr_set (tr_blocks (dr_trace d)) idx p;
     Some (d\<lparr>dr_trace := (dr_trace d)\<lparr>tr_blocks := bs\<rparr>\<rparr>)
   }"

definition speed_op :: "'h package \<Rightarrow> traceop_t \<Rightarrow> 'h drv \<Rightarrow> 'h drv outcome ub" where
  "speed_op P op d = (case tp_type op of
       ALLOC \<Rightarrow> do {
         (p, h) \<leftarrow> pk_malloc P (u64 (tp_size op)) (dr_heap d);
         (case p of None \<Rightarrow> Some Exit | Some p \<Rightarrow> do { d \<leftarrow> put_block (tp_index op) p (d\<lparr>dr_heap := h\<rparr>); Some (Done d) })
       }
     | REALLOC \<Rightarrow> do {
         oldp \<leftarrow> arr_get (tr_blocks (dr_trace d)) (tp_index op);
         (p, h) \<leftarrow> pk_realloc P (Some oldp) (u64 (tp_size op)) (dr_heap d);
         (case p of None \<Rightarrow> Some Exit | Some p \<Rightarrow> do { d \<leftarrow> put_block (tp_index op) p (d\<lparr>dr_heap := h\<rparr>); Some (Done d) })
       }
     | FREE \<Rightarrow> do {
         p \<leftarrow> arr_get (tr_blocks (dr_trace d)) (tp_index op);
         h \<leftarrow> pk_free P p (dr_heap d);
         Some (Done (d\<lparr>dr_heap := h\<rparr>))
       })"

fun speed_ops :: "'h package \<Rightarrow> traceop_t list \<Rightarrow> 'h drv \<Rightarrow> 'h drv outcome ub" where
  "speed_ops P [] d = Some (Done d)"
| "speed_ops P (op # ops) d = andthen (speed_op P op d) (speed_ops P ops)"

definition eval_mm_speed :: "mm package \<Rightarrow> mm drv \<Rightarrow> mm drv outcome ub" where
  "eval_mm_speed P d = do {
     (r, h) \<leftarrow> pk_init P (mem_reset_brk (dr_heap d));
     if r < 0 then Some Exit
     else speed_ops P (take (nat (num_ops (dr_trace d))) (tr_ops (dr_trace d))) (d\<lparr>dr_heap := h\<rparr>)
   }"

definition eval_libc_speed :: "'h package \<Rightarrow> 'h drv \<Rightarrow> 'h drv outcome ub" where
  "eval_libc_speed P d = speed_ops P (take (nat (num_ops (dr_trace d))) (tr_ops (dr_trace d))) d"

definition eval_libc_valid :: "'h package \<Rightarrow> 'h drv \<Rightarrow> (bool \<times> 'h drv) outcome ub" where
  "eval_libc_valid P d =
     andthen (speed_ops P (take (nat (num_ops (dr_trace d))) (tr_ops (dr_trace d))) d) (\<lambda>d. Some (Done (True, d)))"

end
