(* ===== verification/Mdriver_Trace.thy ===== *)
theory Mdriver_Trace
  imports Mdriver
begin

text \<open>
  The trace files of the malloc driver: the text of a trace, and that \<^verbatim>\<open>read_trace\<close> of \<^verbatim>\<open>lab7/mdriver.c\<close> reads it back.
\<close>

section \<open>The text of a trace\<close>

definition num :: "int \<Rightarrow> string" where
  "num n = show_nat (nat n)"

fun print_op :: "traceop_t \<Rightarrow> string" where
  "print_op op = (case tp_type op of
     ALLOC \<Rightarrow> ''a '' @ num (tp_index op) @ '' '' @ num (tp_size op)
   | REALLOC \<Rightarrow> ''r '' @ num (tp_index op) @ '' '' @ num (tp_size op)
   | FREE \<Rightarrow> ''f '' @ num (tp_index op)) @ [NL]"

definition print_trace :: "int \<Rightarrow> int \<Rightarrow> int \<Rightarrow> traceop_t list \<Rightarrow> string" where
  "print_trace h ids w ops = num h @ [NL] @ num ids @ [NL] @ num (int (length ops)) @ [NL] @ num w @ [NL] @
     concat (map print_op ops)"

text \<open>What can be written: numbers that fit an \<^verbatim>\<open>int\<close>; a \<^verbatim>\<open>FREE\<close> request has no size, its entry keeps the storage's.\<close>

definition int_nat :: "int \<Rightarrow> bool" where
  "int_nat n \<longleftrightarrow> 0 \<le> n \<and> n < 2 ^ 31"

definition printable :: "traceop_t \<Rightarrow> traceop_t \<Rightarrow> bool" where
  "printable junk_op op \<longleftrightarrow> int_nat (tp_index op) \<and>
     (if tp_type op = FREE then tp_size op = tp_size junk_op else int_nat (tp_size op))"

text \<open>The largest identifier that is allocated or reallocated.\<close>

fun max_index :: "int \<Rightarrow> traceop_t list \<Rightarrow> int" where
  "max_index m [] = m"
| "max_index m (op # ops) = max_index (if tp_type op \<noteq> FREE \<and> tp_index op > m then tp_index op else m) ops"

section \<open>Conversions\<close>

lemma space_facts: "isspace CHR '' ''" "isspace NL" "\<not> dec_char CHR '' ''" "\<not> dec_char NL"
  "\<not> isspace CHR ''a''" "\<not> isspace CHR ''r''" "\<not> isspace CHR ''f''"
  by (simp_all add: isspace_def dec_char_def less_eq_char_def)

lemma scan_dec_num:
  assumes "int_nat n" and "list_all isspace ws" and "\<not> dec_char c"
  shows "scan_dec (ws @ num n @ c # t) = (Some n, c # t)"
proof -
  let ?d = "num n"
  have d: "list_all dec_char ?d" "?d \<noteq> []" "digits_val 10 ?d = nat n" using show_nat_digits [of "nat n"] by (simp_all add: num_def)
  have "dropWhile isspace (ws @ ?d @ c # t) = ?d @ c # t"
    using assms(2) d(1,2) dec_base_digit by (cases ?d) (auto simp: list_all_iff dropWhile_append)
  moreover have "strtoull_sign (?d @ c # t) = (False, ?d @ c # t)"
    using d(1,2) dec_base_digit by (cases ?d) auto
  moreover have "takeWhile dec_char (?d @ c # t) = ?d" using d(1) assms(3) by (simp add: list_all_iff takeWhile_tail)
  ultimately show ?thesis using assms(1) d(2,3) by (simp add: scan_dec_def int_nat_def)
qed

lemma scan_d_num: "int_nat n \<Longrightarrow> list_all isspace ws \<Longrightarrow> \<not> dec_char c \<Longrightarrow> scan_d (ws @ num n @ c # t) = Some (n, c # t)"
  by (simp add: scan_d_def scan_dec_num int_ok_def int_nat_def)

lemma scan_u_num: "int_nat n \<Longrightarrow> list_all isspace ws \<Longrightarrow> \<not> dec_char c \<Longrightarrow> scan_u (ws @ num n @ c # t) = Some (Some n, c # t)"
  by (simp add: scan_u_def scan_dec_num) (simp add: int_nat_def)

lemma scan_s_letter:
  assumes "list_all isspace ws" and "\<not> isspace c" and "isspace d"
  shows "scan_s (ws @ c # d # t) = Some (Some [c], d # t)"
  using assms by (auto simp: scan_s_def Let_def list_all_iff dropWhile_append)

lemma scan_s_end: "list_all isspace ws \<Longrightarrow> scan_s ws = Some (None, [])"
  by (simp add: scan_s_def Let_def list_all_iff)

lemma to_int_nat: "int_nat n \<Longrightarrow> to_int n = n"
  by (simp add: int_nat_def int_ok_def)

section \<open>Requests\<close>

lemma arr_set_first: "arr_set (pre @ x # xs) (int (length pre)) y = Some (pre @ y # xs)"
  by simp

lemma read_request_print:
  assumes "printable junk_op op" and "rd_op r = int (length pre)" and "rd_ops r = pre @ junk_op # post"
  obtains c t z where "print_op op @ s = c # CHR '' '' # t" and "\<not> isspace c" and
    "read_request c (CHR '' '' # t) r = Some (Done (r\<lparr>rd_index := tp_index op, rd_size := z,
       rd_max := max_index (rd_max r) [op], rd_op := rd_op r + 1, rd_ops := pre @ op # post\<rparr>, NL # s))"
proof (cases "tp_type op = FREE")
  case False
  let ?c = "if tp_type op = ALLOC then CHR ''a'' else CHR ''r''"
  let ?t = "num (tp_index op) @ '' '' @ num (tp_size op) @ NL # s"
  have n: "int_nat (tp_index op)" "int_nat (tp_size op)" using assms(1) False by (simp_all add: printable_def)
  have "scan_u (CHR '' '' # ?t) = Some (Some (tp_index op), '' '' @ num (tp_size op) @ NL # s)"
    using scan_u_num [OF n(1), of "'' ''" "CHR '' ''"] space_facts by simp
  moreover have "scan_u ('' '' @ num (tp_size op) @ NL # s) = Some (Some (tp_size op), NL # s)"
    using scan_u_num [OF n(2), of "'' ''" NL] space_facts by simp
  ultimately have "scan_index_size (rd_index r) (rd_size r) (CHR '' '' # ?t) = Some (tp_index op, Some (tp_size op), NL # s)"
    by (simp add: scan_index_size_def)
  moreover have "print_op op @ s = ?c # CHR '' '' # ?t" using False by (cases "tp_type op") simp_all
  ultimately show thesis using that [of ?c ?t "Some (tp_size op)"] False n assms(2,3) space_facts
    by (cases "tp_type op") (auto simp: read_request_def arr_set_first to_int_nat)
next
  case True
  let ?t = "num (tp_index op) @ NL # s"
  have n: "int_nat (tp_index op)" using assms(1) by (simp add: printable_def)
  have "scan_u (CHR '' '' # ?t) = Some (Some (tp_index op), NL # s)"
    using scan_u_num [OF n, of "'' ''" NL] space_facts by simp
  moreover have "print_op op @ s = CHR ''f'' # CHR '' '' # ?t" using True by simp
  moreover have "junk_op\<lparr>tp_type := FREE, tp_index := tp_index op\<rparr> = op"
    using True assms(1) by (simp add: printable_def)
  ultimately show thesis using that [of "CHR ''f''" ?t "rd_size r"] True n assms(2,3) space_facts
    by (simp add: read_request_def arr_set_first to_int_nat nth_append)
qed

declare print_op.simps [simp del]

lemma read_requests_print:
  assumes "list_all (printable junk_op) ops" and "rd_op r = int (length pre)"
    and "rd_ops r = pre @ replicate (length ops + m) junk_op" and "list_all isspace ws"
  shows "\<exists>i z. read_requests (ws @ concat (map print_op ops)) r =
    Some (Done \<lparr>rd_index = i, rd_size = z, rd_max = max_index (rd_max r) ops,
      rd_op = int (length pre + length ops), rd_ops = pre @ ops @ replicate m junk_op\<rparr>)"
  using assms
proof (induction ops arbitrary: r pre ws)
  case Nil
  then show ?case
    by (cases r) (auto simp: read_requests.simps [of ws] scan_s_end)
next
  case (Cons op ops)
  let ?s = "concat (map print_op ops)"
  obtain c t z where c: "print_op op @ ?s = c # CHR '' '' # t" "\<not> isspace c"
    "read_request c (CHR '' '' # t) r = Some (Done (r\<lparr>rd_index := tp_index op, rd_size := z,
       rd_max := max_index (rd_max r) [op], rd_op := rd_op r + 1,
       rd_ops := pre @ op # replicate (length ops + m) junk_op\<rparr>, NL # ?s))"
    using read_request_print [of junk_op op r pre "replicate (length ops + m) junk_op" ?s] Cons.prems by auto
  let ?r = "r\<lparr>rd_index := tp_index op, rd_size := z, rd_max := max_index (rd_max r) [op], rd_op := rd_op r + 1,
       rd_ops := pre @ op # replicate (length ops + m) junk_op\<rparr>"
  have "read_requests (ws @ concat (map print_op (op # ops))) r = read_requests (NL # ?s) ?r"
  proof -
    have "concat (map print_op (op # ops)) = c # CHR '' '' # t" using c(1) by simp
    then show ?thesis using scan_s_letter [OF Cons.prems(4) c(2) space_facts(1), of t] c(3)
      by (simp add: read_requests.simps [of "ws @ c # CHR '' '' # t"] del: max_index.simps)
  qed
  moreover obtain i z' where "read_requests ([NL] @ ?s) ?r =
      Some (Done \<lparr>rd_index = i, rd_size = z', rd_max = max_index (rd_max ?r) ops,
        rd_op = int (length (pre @ [op]) + length ops), rd_ops = (pre @ [op]) @ ops @ replicate m junk_op\<rparr>)"
    using Cons.IH [of ?r "pre @ [op]" "[NL]"] Cons.prems space_facts(2) by auto
  ultimately show ?case by simp
qed

lemma read_trace_ok:
  assumes "int_nat h" and "int_nat ids" and "int_nat (int (length ops))" and "int_nat w"
    and "list_all (printable junk_op) ops" and "max_index 0 ops = ids - 1"
  shows "read_trace junk_op junk (print_trace h ids w ops) =
    Some (Done \<lparr>sugg_heapsize = h, num_ids = ids, num_ops = int (length ops), weight = w, tr_ops = ops,
      tr_blocks = replicate (nat ids) junk, block_sizes = replicate (nat ids) junk\<rparr>)"
proof -
  let ?s = "concat (map print_op ops)"
  note header = scan_d_num [OF assms(1), of "[]"] scan_d_num [OF assms(2), of "[NL]"] scan_d_num [OF assms(3), of "[NL]"]
    scan_d_num [OF assms(4), of "[NL]"]
  obtain i z where "read_requests ([NL] @ ?s) \<lparr>rd_index = 0, rd_size = None, rd_max = 0, rd_op = 0,
        rd_ops = replicate (length ops) junk_op\<rparr> =
      Some (Done \<lparr>rd_index = i, rd_size = z, rd_max = ids - 1, rd_op = int (length ops), rd_ops = ops\<rparr>)"
    using read_requests_print [OF assms(5), of "\<lparr>rd_index = 0, rd_size = None, rd_max = 0, rd_op = 0,
        rd_ops = replicate (length ops) junk_op\<rparr>" "[]" 0 "[NL]"] assms(6) space_facts(2) by auto
  moreover have "0 \<le> ids - 1"
  proof -
    have "m \<le> max_index m ops" for m by (induction m ops rule: max_index.induct) (auto split: if_splits)
    then show ?thesis using assms(6) by metis
  qed
  ultimately show ?thesis using header space_facts assms(2) unfolding read_trace_def print_trace_def
    by (simp add: int_nat_def)
qed

text \<open>C36: The text of a trace is read back: the header, every request in its place, and room for the blocks, when the
  numbers fit an \<^verbatim>\<open>int\<close> and the largest identifier allocated or reallocated is one below their number.\<close>

theorem read_trace_print:
  assumes "int_nat h" and "int_nat ids" and "int_nat (int (length ops))" and "int_nat w"
    and "list_all (printable junk_op) ops" and "max_index 0 ops = ids - 1"
  shows "read_trace junk_op junk (print_trace h ids w ops) =
    Some (Done \<lparr>sugg_heapsize = h, num_ids = ids, num_ops = int (length ops), weight = w, tr_ops = ops,
      tr_blocks = replicate (nat ids) junk, block_sizes = replicate (nat ids) junk\<rparr>)"
  by (rule read_trace_ok [OF assms])

theorem read_trace_print_witness:
  "read_trace \<lparr>tp_type = ALLOC, tp_index = 7, tp_size = 7\<rparr> 0 (print_trace 0 2 1
     [\<lparr>tp_type = ALLOC, tp_index = 0, tp_size = 100\<rparr>, \<lparr>tp_type = ALLOC, tp_index = 1, tp_size = 13\<rparr>,
      \<lparr>tp_type = REALLOC, tp_index = 0, tp_size = 5000\<rparr>, \<lparr>tp_type = FREE, tp_index = 1, tp_size = 7\<rparr>]) =
   Some (Done \<lparr>sugg_heapsize = 0, num_ids = 2, num_ops = int (length [\<lparr>tp_type = ALLOC, tp_index = 0, tp_size = 100\<rparr>,
      \<lparr>tp_type = ALLOC, tp_index = 1, tp_size = 13\<rparr>, \<lparr>tp_type = REALLOC, tp_index = 0, tp_size = 5000\<rparr>,
      \<lparr>tp_type = FREE, tp_index = 1, tp_size = 7\<rparr>]), weight = 1,
      tr_ops = [\<lparr>tp_type = ALLOC, tp_index = 0, tp_size = 100\<rparr>, \<lparr>tp_type = ALLOC, tp_index = 1, tp_size = 13\<rparr>,
        \<lparr>tp_type = REALLOC, tp_index = 0, tp_size = 5000\<rparr>, \<lparr>tp_type = FREE, tp_index = 1, tp_size = 7\<rparr>],
      tr_blocks = replicate (nat 2) 0, block_sizes = replicate (nat 2) 0\<rparr>)"
  by (rule read_trace_print) (simp_all add: int_nat_def printable_def)

end
