(* ===== verification/Mm_Inv.thy ===== *)
theory Mm_Inv
  imports Mm
begin

text \<open>
  The invariant of the heap of \<^verbatim>\<open>lab7/mm.c\<close>: its blocks tile the memory between the prologue and the
  epilogue, every block has the same tag in its header and its footer, and the free list links
  exactly the free blocks.
\<close>

section \<open>Tilings\<close>

type_synonym block = "int \<times> int \<times> bool"

definition tiling :: "int \<Rightarrow> int \<Rightarrow> block set \<Rightarrow> bool" where
  "tiling lo hi B \<longleftrightarrow> lo \<le> hi \<and>
     (\<forall>p n a. (p, n, a) \<in> B \<longrightarrow> lo \<le> p \<and> 0 < n \<and> p + n \<le> hi) \<and>
     (\<forall>p n a q m b. (p, n, a) \<in> B \<longrightarrow> (q, m, b) \<in> B \<longrightarrow> (p, n, a) = (q, m, b) \<or> p + n \<le> q \<or> q + m \<le> p) \<and>
     (\<forall>x. lo \<le> x \<longrightarrow> x < hi \<longrightarrow> (\<exists>p n a. (p, n, a) \<in> B \<and> p \<le> x \<and> x < p + n))"

lemma tiling_in: "tiling lo hi B \<Longrightarrow> (p, n, a) \<in> B \<Longrightarrow> lo \<le> p \<and> 0 < n \<and> p + n \<le> hi"
  unfolding tiling_def by blast

lemma tiling_disjoint:
  "tiling lo hi B \<Longrightarrow> (p, n, a) \<in> B \<Longrightarrow> (q, m, b) \<in> B \<Longrightarrow> (p, n, a) = (q, m, b) \<or> p + n \<le> q \<or> q + m \<le> p"
  unfolding tiling_def by blast

lemma tiling_cover: "tiling lo hi B \<Longrightarrow> lo \<le> x \<Longrightarrow> x < hi \<Longrightarrow> \<exists>p n a. (p, n, a) \<in> B \<and> p \<le> x \<and> x < p + n"
  unfolding tiling_def by blast

lemma tiling_le: "tiling lo hi B \<Longrightarrow> lo \<le> hi"
  unfolding tiling_def by blast

lemma tiling_unique:
  assumes "tiling lo hi B" and "(p, n, a) \<in> B" and "(p, m, b) \<in> B"
  shows "n = m \<and> a = b"
  using tiling_disjoint [OF assms] tiling_in [OF assms(1,2)] tiling_in [OF assms(1,3)] by auto

lemma tiling_single: "0 < n \<Longrightarrow> tiling p (p + n) {(p, n, a)}"
  unfolding tiling_def by auto

lemma tiling_append:
  assumes B: "tiling lo mid B" and C: "tiling mid hi C"
  shows "tiling lo hi (B \<union> C)"
  unfolding tiling_def
proof (intro conjI allI impI)
  show "lo \<le> hi" using tiling_le [OF B] tiling_le [OF C] by simp
  show "lo \<le> p" "0 < n" "p + n \<le> hi" if "(p, n, a) \<in> B \<union> C" for p n a
    using that tiling_in [OF B, of p n a] tiling_in [OF C, of p n a] tiling_le [OF B] tiling_le [OF C] by auto
  show "(p, n, a) = (q, m, b) \<or> p + n \<le> q \<or> q + m \<le> p"
    if "(p, n, a) \<in> B \<union> C" "(q, m, b) \<in> B \<union> C" for p n a q m b
    using that tiling_disjoint [OF B, of p n a q m b] tiling_disjoint [OF C, of p n a q m b]
      tiling_in [OF B, of p n a] tiling_in [OF B, of q m b] tiling_in [OF C, of p n a] tiling_in [OF C, of q m b] by force
  show "\<exists>p n a. (p, n, a) \<in> B \<union> C \<and> p \<le> x \<and> x < p + n" if "lo \<le> x" "x < hi" for x
    using that tiling_cover [OF B, of x] tiling_cover [OF C, of x] by (cases "x < mid") auto
qed

text \<open>The other blocks lie outside the span of a part of a tiling.\<close>

lemma tiling_outside:
  assumes B: "tiling lo hi B" and D: "tiling x y D" "D \<subseteq> B" and c: "(p, n, a) \<in> B - D" and xy: "x < y"
  shows "p + n \<le> x \<or> y \<le> p"
proof (rule ccontr)
  assume n: "\<not> (p + n \<le> x \<or> y \<le> p)"
  let ?z = "if p < x then x else p"
  have z: "x \<le> ?z" "?z < y" "p \<le> ?z" "?z < p + n" using n xy tiling_in [OF B, of p n a] c by auto
  then obtain q m b where d: "(q, m, b) \<in> D" "q \<le> ?z" "?z < q + m" using tiling_cover [OF D(1), of ?z] by blast
  then show False using tiling_disjoint [OF B, of p n a q m b] c D(2) z by force
qed

lemma tiling_replace:
  assumes B: "tiling lo hi B" and D: "tiling x y D" "D \<subseteq> B" and C: "tiling x y C" and xy: "x < y" "lo \<le> x" "y \<le> hi"
  shows "tiling lo hi (B - D \<union> C)"
  unfolding tiling_def
proof (intro conjI allI impI)
  show "lo \<le> hi" using tiling_le [OF B] .
  show "lo \<le> p" "0 < n" "p + n \<le> hi" if "(p, n, a) \<in> B - D \<union> C" for p n a
    using that tiling_in [OF B, of p n a] tiling_in [OF C, of p n a] xy by auto
  show "(p, n, a) = (q, m, b) \<or> p + n \<le> q \<or> q + m \<le> p"
    if "(p, n, a) \<in> B - D \<union> C" "(q, m, b) \<in> B - D \<union> C" for p n a q m b
    using that tiling_disjoint [OF B, of p n a q m b] tiling_disjoint [OF C, of p n a q m b]
      tiling_outside [OF B D, of p n a, OF _ xy(1)] tiling_outside [OF B D, of q m b, OF _ xy(1)]
      tiling_in [OF C, of p n a] tiling_in [OF C, of q m b] by force
  show "\<exists>p n a. (p, n, a) \<in> B - D \<union> C \<and> p \<le> z \<and> z < p + n" if z: "lo \<le> z" "z < hi" for z
  proof (cases "x \<le> z \<and> z < y")
    case True
    then show ?thesis using tiling_cover [OF C, of z] by blast
  next
    case False
    obtain p n a where b: "(p, n, a) \<in> B" "p \<le> z" "z < p + n" using tiling_cover [OF B z] by blast
    then show ?thesis using False tiling_in [OF D(1), of p n a] by force
  qed
qed

lemma tiling_next:
  assumes "tiling lo hi B" and "(p, n, a) \<in> B" and "p + n < hi"
  shows "\<exists>m b. (p + n, m, b) \<in> B"
proof -
  obtain q m b where q: "(q, m, b) \<in> B" "q \<le> p + n" "p + n < q + m"
    using tiling_cover [OF assms(1), of "p + n"] tiling_in [OF assms(1,2)] assms(3) by auto
  then have "q = p + n" using tiling_disjoint [OF assms(1,2) q(1)] tiling_in [OF assms(1,2)] by auto
  then show ?thesis using q by blast
qed

lemma tiling_prev:
  assumes "tiling lo hi B" and "lo < p" and "(p, n, a) \<in> B \<or> p = hi"
  shows "\<exists>q m b. (q, m, b) \<in> B \<and> q + m = p"
proof -
  have "p \<le> hi" using assms(3) tiling_in [OF assms(1)] by fastforce
  then obtain q m b where q: "(q, m, b) \<in> B" "q \<le> p - 1" "p - 1 < q + m"
    using tiling_cover [OF assms(1), of "p - 1"] assms(2) by auto
  have "q + m = p"
    using assms(3)
  proof
    assume "(p, n, a) \<in> B"
    then show ?thesis using tiling_disjoint [OF assms(1) q(1), of p n a] q tiling_in [OF assms(1), of p n a] by auto
  next
    assume "p = hi"
    then show ?thesis using tiling_in [OF assms(1) q(1)] q by simp
  qed
  then show ?thesis using q by blast
qed

section \<open>Tags\<close>

definition tag :: "int \<Rightarrow> bool \<Rightarrow> int" where
  "tag n a = n + (if a then 1 else 0)"

lemma int_and_not_7: "w AND NOT 7 = w div 8 * (8 :: int)"
proof -
  have "w AND NOT (mask 3) = push_bit 3 (drop_bit 3 w)"
    by (rule bit_eqI) (auto simp: bit_simps)
  then show ?thesis by (simp add: mask_eq_exp_minus_1 push_bit_eq_mult drop_bit_eq_div)
qed

lemma tag_size [simp]: "8 dvd n \<Longrightarrow> tag n a AND - 8 = n"
  using int_and_not_7 [of "tag n a"] by (auto simp: tag_def)

lemma tag_alloc [simp]: "8 dvd n \<Longrightarrow> tag n a AND 1 = of_bool a"
proof -
  assume "8 dvd n"
  then have "(n + 1) mod 2 = 1" "n mod 2 = 0" by presburger+
  then show ?thesis by (simp add: tag_def and_one_eq)
qed

lemma PACK_tag [simp]: "8 dvd n \<Longrightarrow> PACK n 1 = tag n True" "PACK n 0 = tag n False"
proof -
  assume "8 dvd n"
  then have "even n" by presburger
  then show "PACK n 1 = tag n True" by (simp add: PACK_def tag_def or_one_eq)
qed (simp add: PACK_def tag_def)

lemma tag_32 [simp]: "0 \<le> n \<Longrightarrow> n < 2 ^ 31 \<Longrightarrow> tag n a mod 4294967296 = tag n a"
  by (simp add: tag_def)

text \<open>The words of the tags of a set of blocks.\<close>

definition blocks_ok :: "(int \<Rightarrow> int) \<Rightarrow> block set \<Rightarrow> bool" where
  "blocks_ok w B \<longleftrightarrow> (\<forall>p n a. (p, n, a) \<in> B \<longrightarrow>
     16 \<le> n \<and> 8 dvd n \<and> 8 dvd p \<and> w (p - 4) = tag n a \<and> w (p + n - 8) = tag n a)"

definition frees :: "block set \<Rightarrow> int set" where
  "frees B = {p. \<exists>n. (p, n, False) \<in> B}"

text \<open>No two free blocks are neighbours.\<close>

definition no_adjacent :: "block set \<Rightarrow> bool" where
  "no_adjacent B \<longleftrightarrow> (\<forall>p n m. (p, n, False) \<in> B \<longrightarrow> (p + n, m, False) \<notin> B)"

lemma blocks_okD:
  "blocks_ok w B \<Longrightarrow> (p, n, a) \<in> B \<Longrightarrow> 16 \<le> n \<and> 8 dvd n \<and> 8 dvd p \<and> w (p - 4) = tag n a \<and> w (p + n - 8) = tag n a"
  unfolding blocks_ok_def by blast

section \<open>The free list\<close>

fun links :: "(int \<Rightarrow> int) \<Rightarrow> int \<Rightarrow> int list \<Rightarrow> int \<Rightarrow> bool" where
  "links w pv [] nx \<longleftrightarrow> True"
| "links w pv (b # bs) nx \<longleftrightarrow> w b = pv \<and> w (b + 4) = (case bs of [] \<Rightarrow> nx | c # _ \<Rightarrow> c - 8) \<and> links w (b - 8) bs nx"

text \<open>Different list elements are at least a minimal block apart.\<close>

definition spaced :: "int list \<Rightarrow> bool" where
  "spaced fl \<longleftrightarrow> distinct fl \<and> (\<forall>b \<in> set fl. \<forall>c \<in> set fl. b = c \<or> b + 8 \<le> c \<or> c + 8 \<le> b)"

definition hd_idx :: "int list \<Rightarrow> int \<Rightarrow> int" where
  "hd_idx bs nx = (case bs of [] \<Rightarrow> nx | c # _ \<Rightarrow> c - 8)"

definition last_idx :: "int \<Rightarrow> int list \<Rightarrow> int" where
  "last_idx pv bs = (if bs = [] then pv else last bs - 8)"

lemma links_append: "links w pv (xs @ ys) nx \<longleftrightarrow> links w pv xs (hd_idx ys nx) \<and> links w (last_idx pv xs) ys nx"
proof (induction xs arbitrary: pv)
  case (Cons x xs)
  then show ?case by (cases xs) (auto simp: hd_idx_def last_idx_def)
qed (simp add: last_idx_def)

lemma links_Cons: "links w pv (b # bs) nx \<longleftrightarrow> w b = pv \<and> w (b + 4) = hd_idx bs nx \<and> links w (b - 8) bs nx"
  by (simp add: hd_idx_def)

lemma links_cong: "\<forall>b \<in> set fl. w' b = w b \<and> w' (b + 4) = w (b + 4) \<Longrightarrow> links w' pv fl nx = links w pv fl nx"
  by (induction fl arbitrary: pv) auto

lemma spaced_append: "spaced (xs @ ys) \<Longrightarrow> spaced xs \<and> spaced ys \<and> (\<forall>b \<in> set xs. \<forall>c \<in> set ys. b + 8 \<le> c \<or> c + 8 \<le> b)"
proof (intro conjI ballI)
  assume s: "spaced (xs @ ys)"
  then show "spaced xs" "spaced ys" by (simp_all add: spaced_def)
  fix b c assume bc: "b \<in> set xs" "c \<in> set ys"
  moreover have "b \<noteq> c" using s bc by (auto simp: spaced_def)
  ultimately show "b + 8 \<le> c \<or> c + 8 \<le> b" using s unfolding spaced_def by (metis UnCI set_append)
qed

lemma spaced_Cons: "spaced (b # ys) \<longleftrightarrow> spaced ys \<and> (\<forall>c \<in> set ys. b + 8 \<le> c \<or> c + 8 \<le> b)"
  by (force simp: spaced_def)

lemma links_set_next:
  assumes "links w pv xs nx" and "spaced xs" and "xs \<noteq> []"
  shows "links (w(last xs + 4 := nx')) pv xs nx'"
  using assms
proof (induction xs arbitrary: pv)
  case (Cons x xs)
  show ?case
  proof (cases xs)
    case (Cons y ys)
    then have "last xs \<in> set xs" by simp
    then have "x + 8 \<le> last xs \<or> last xs + 8 \<le> x" using Cons.prems(2) by (auto simp: spaced_Cons)
    then show ?thesis using Cons.IH [of "x - 8"] Cons.prems Cons by (auto simp: spaced_Cons)
  qed (use Cons.prems in simp)
qed simp

lemma links_set_prev:
  assumes "links w pv (y # ys) nx" and "spaced (y # ys)"
  shows "links (w(y := pv')) pv' (y # ys) nx"
proof -
  have "links (w(y := pv')) (y - 8) ys nx = links w (y - 8) ys nx"
    using assms(2) by (intro links_cong) (auto simp: spaced_Cons)
  then show ?thesis using assms(1) by simp
qed

text \<open>A change that leaves everything outside a set of addresses alone.\<close>

definition only :: "int set \<Rightarrow> mm \<Rightarrow> mm \<Rightarrow> bool" where
  "only A s s' \<longleftrightarrow> mem_brk s' = mem_brk s \<and> heap_listp s' = heap_listp s \<and> (\<forall>a. a \<notin> A \<longrightarrow> word s' a = word s a)"

definition lks :: "int set \<Rightarrow> int set" where
  "lks F = (\<Union>b \<in> F. {b, b + 4})"

lemma lks_simps [simp]: "lks (insert b F) = {b, b + 4} \<union> lks F" "lks (F \<union> G) = lks F \<union> lks G" "lks {} = {}"
  by (auto simp: lks_def)

lemma lks_in [intro]: "b \<in> F \<Longrightarrow> b \<in> lks F" "b \<in> F \<Longrightarrow> b + 4 \<in> lks F"
  by (auto simp: lks_def)

definition node_ok :: "mm \<Rightarrow> int \<Rightarrow> bool" where
  "node_ok s b \<longleftrightarrow> 16 \<le> b \<and> 8 dvd b \<and> b + 8 \<le> mem_brk s \<and> mem_brk s \<le> MAX_HEAP"

definition flist :: "mm \<Rightarrow> int list \<Rightarrow> bool" where
  "flist s fl \<longleftrightarrow> heap_listp s = 8 \<and> spaced fl \<and> (\<forall>b \<in> set fl. node_ok s b) \<and> links (word s) 0 fl 0 \<and>
     hd_free s = (if fl = [] then None else Some (hd fl)) \<and> ft_free s = (if fl = [] then None else Some (last fl))"

lemma node_in: "node_ok s b \<Longrightarrow> in_heap b s \<and> in_heap (b + 4) s"
  by (auto simp: node_ok_def in_heap_def)

lemma node_idx [simp]: "node_ok s b \<Longrightarrow> (b - 8) mod 4294967296 = b - 8" "node_ok s b \<Longrightarrow> b - 8 \<noteq> 0"
  by (auto simp: node_ok_def MAX_HEAP_def)

lemma GET_in [simp]: "in_heap p s \<Longrightarrow> GET p s = Some (word s p)"
  by (simp add: GET_def)

lemma PUT_in [simp]: "in_heap p s \<Longrightarrow> PUT p v s = Some (s\<lparr>word := (word s)(p := v mod 2 ^ 32)\<rparr>)"
  by (simp add: PUT_def)

lemma in_heap_word [simp]:
  "in_heap p (s\<lparr>word := w\<rparr>) = in_heap p s" "in_heap p (s\<lparr>hd_free := h\<rparr>) = in_heap p s" "in_heap p (s\<lparr>ft_free := h\<rparr>) = in_heap p s"
  by (simp_all add: in_heap_def)

lemma node_ok_word [simp]:
  "node_ok (s\<lparr>word := w\<rparr>) p = node_ok s p" "node_ok (s\<lparr>hd_free := h\<rparr>) p = node_ok s p" "node_ok (s\<lparr>ft_free := h\<rparr>) p = node_ok s p"
  by (simp_all add: node_ok_def)

lemma links_upd_out: "a \<notin> lks (set fl) \<Longrightarrow> links (w(a := v)) pv fl nx = links w pv fl nx"
  by (rule links_cong) (auto simp: lks_def)

lemma insert_flist:
  assumes l: "flist s fl" and bp: "node_ok s bp" and sp: "spaced (fl @ [bp])"
  shows "\<exists>s'. insert_free_block bp s = Some s' \<and> flist s' (fl @ [bp]) \<and> only (lks (set fl \<union> {bp})) s s'"
proof (cases "fl = []")
  case True
  then have "insert_free_block bp s = Some (s\<lparr>word := (word s)(bp + 4 := 0, bp := 0), hd_free := Some bp, ft_free := Some bp\<rparr>)"
    using l node_in [OF bp] by (simp add: insert_free_block_def flist_def)
  then show ?thesis using True l bp sp by (auto simp: flist_def only_def)
next
  case False
  let ?ft = "last fl"
  have ft: "node_ok s ?ft" "?ft \<in> set fl" using l False by (auto simp: flist_def)
  then have d: "?ft + 8 \<le> bp \<or> bp + 8 \<le> ?ft" using spaced_append [OF sp] by auto
  let ?w = "(word s)(?ft + 4 := bp - 8, bp := ?ft - 8, bp + 4 := 0)"
  have ins: "insert_free_block bp s = Some (s\<lparr>word := ?w, ft_free := Some bp\<rparr>)"
    using l False node_in [OF bp] node_in [OF ft(1)] node_idx(1) [OF bp] node_idx(1) [OF ft(1)]
    by (simp add: insert_free_block_def flist_def SELF_INDEX_def)
  have out: "bp \<notin> lks (set fl)" "bp + 4 \<notin> lks (set fl)" using spaced_append [OF sp] by (force simp: lks_def)+
  have "links ((word s)(?ft + 4 := bp - 8)) 0 fl (bp - 8)"
    using l False by (intro links_set_next) (auto simp: flist_def)
  then have "links ?w 0 fl (bp - 8)" using out by (simp add: links_upd_out)
  then have "links ?w 0 (fl @ [bp]) 0" using False by (simp add: links_append hd_idx_def last_idx_def)
  then show ?thesis using ins l bp sp ft False by (auto simp: flist_def only_def lks_def)
qed

lemma flist_middle:
  assumes "flist s (xs @ b # ys)"
  shows "word s b = last_idx 0 xs" and "word s (b + 4) = hd_idx ys 0"
    and "links (word s) 0 xs (b - 8)" and "links (word s) (b - 8) ys 0" and "node_ok s b"
    and "xs \<noteq> [] \<Longrightarrow> node_ok s (last xs)" and "ys \<noteq> [] \<Longrightarrow> node_ok s (hd ys)"
  using assms by (auto simp: flist_def links_append links_Cons hd_idx_def)

lemma prev_free_val: "flist s (xs @ b # ys) \<Longrightarrow> prev_free_block b s = Some (if xs = [] then None else Some (last xs))"
  using flist_middle [of s xs b ys] node_in [of s b] node_idx(2) [of s "last xs"]
  by (auto simp: prev_free_block_def last_idx_def SELF_ADDR_def flist_def)

lemma next_free_val: "flist s (xs @ b # ys) \<Longrightarrow> next_free_block b s = Some (if ys = [] then None else Some (hd ys))"
  using flist_middle [of s xs b ys] node_in [of s b] node_idx(2) [of s "hd ys"]
  by (auto simp: next_free_block_def hd_idx_def SELF_ADDR_def flist_def split: list.splits)

text \<open>The list around a node, cut open there.\<close>

lemma flist_spaced:
  assumes "flist s (xs @ b # ys)"
  shows "spaced (xs @ ys)" and "spaced xs" and "spaced ys" and "distinct (xs @ b # ys)"
    and "\<forall>x \<in> set xs. \<forall>y \<in> set ys. x + 8 \<le> y \<or> y + 8 \<le> x" and "\<forall>c \<in> set (xs @ ys). b + 8 \<le> c \<or> c + 8 \<le> b"
proof -
  have s: "spaced (xs @ b # ys)" using assms by (simp add: flist_def)
  then show "spaced (xs @ ys)" "distinct (xs @ b # ys)" by (auto simp: spaced_def)
  show "spaced xs" "spaced ys" using spaced_append [OF s] by (simp_all add: spaced_Cons)
  show "\<forall>x \<in> set xs. \<forall>y \<in> set ys. x + 8 \<le> y \<or> y + 8 \<le> x" using spaced_append [OF s] by simp
  show "\<forall>c \<in> set (xs @ ys). b + 8 \<le> c \<or> c + 8 \<le> b" using spaced_append [OF s] by (auto simp: spaced_Cons)
qed

definition set_next :: "int list \<Rightarrow> int \<Rightarrow> (int \<Rightarrow> int) \<Rightarrow> int \<Rightarrow> int" where
  "set_next xs v w = (if xs = [] then w else w(last xs + 4 := v))"

definition set_prev :: "int list \<Rightarrow> int \<Rightarrow> (int \<Rightarrow> int) \<Rightarrow> int \<Rightarrow> int" where
  "set_prev ys v w = (if ys = [] then w else w(hd ys := v))"

lemma set_links_out:
  "a \<notin> lks (set xs) \<Longrightarrow> set_next xs v w a = w a" "a \<notin> lks (set ys) \<Longrightarrow> set_prev ys v w a = w a"
  by (cases xs; force simp: set_next_def lks_def) (cases ys; force simp: set_prev_def lks_def)

text \<open>Rewriting the links into and out of a cut.\<close>

lemma links_cut:
  assumes xs: "links w 0 xs b" and ys: "links w b ys 0" and sp: "spaced xs" "spaced ys"
    and xy: "\<forall>x \<in> set xs. \<forall>y \<in> set ys. x + 8 \<le> y \<or> y + 8 \<le> x"
  shows "links (set_prev ys pv (set_next xs nx w)) 0 xs nx \<and> links (set_prev ys pv (set_next xs nx w)) pv ys 0"
proof -
  have d: "lks (set xs) \<inter> lks (set ys) = {}" using xy by (force simp: lks_def)
  have "links (set_next xs nx w) 0 xs nx" using links_set_next [OF xs sp(1), of nx] by (simp add: set_next_def)
  then have 1: "links (set_prev ys pv (set_next xs nx w)) 0 xs nx"
    using d by (subst links_cong [of xs _ "set_next xs nx w"]) (auto intro!: set_links_out)
  have "links (set_next xs nx w) b ys 0"
    using d ys by (subst links_cong [of ys _ w]) (auto intro!: set_links_out)
  then have "links (set_prev ys pv (set_next xs nx w)) pv ys 0"
    using sp(2) links_set_prev [of "set_next xs nx w" b _ _ 0 pv] by (cases ys) (auto simp: set_prev_def)
  with 1 show ?thesis by blast
qed

lemma remove_flist:
  assumes l: "flist s (xs @ b # ys)"
  shows "\<exists>s'. remove_free_block b s = Some s' \<and> flist s' (xs @ ys) \<and> only (lks (set xs \<union> set ys)) s s'"
proof -
  note m = flist_middle [OF l] and sp = flist_spaced [OF l]
  let ?w = "set_prev ys (last_idx 0 xs) (set_next xs (hd_idx ys 0) (word s))"
  let ?s = "s\<lparr>word := ?w, hd_free := (if xs = [] then (if ys = [] then None else Some (hd ys)) else hd_free s),
      ft_free := (if ys = [] then (if xs = [] then None else Some (last xs)) else ft_free s)\<rparr>"
  have li: "last_idx 0 xs mod 4294967296 = last_idx 0 xs" using m(6) by (auto simp: last_idx_def)
  have hi: "hd_idx ys 0 mod 4294967296 = hd_idx ys 0" using m(7) by (auto simp: hd_idx_def split: list.splits)
  have b4: "b \<noteq> last xs + 4" if "xs \<noteq> []"
    using bspec [OF sp(6), of "last xs"] last_in_set [OF that] by auto
  have "remove_free_block b s = Some ?s"
    using prev_free_val [OF l] next_free_val [OF l] m(1,2) node_in [OF m(5)] node_in [OF m(6)] node_in [OF m(7)] li hi b4
    by (auto simp: remove_free_block_def set_next_def set_prev_def)
  moreover have "flist ?s (xs @ ys)"
  proof -
    have "links ?w 0 xs (hd_idx ys 0) \<and> links ?w (last_idx 0 xs) ys 0"
      using links_cut [OF m(3,4) sp(2,3,5)] .
    then show ?thesis using l sp(1) by (auto simp: flist_def links_append)
  qed
  moreover have "only (lks (set xs \<union> set ys)) s ?s"
    by (simp add: only_def set_links_out)
  ultimately show ?thesis by blast
qed

lemma mm_memcpy_8:
  assumes "node_ok s dst" and "node_ok s src" and "dst + 8 \<le> src \<or> src + 8 \<le> dst"
  shows "mm_memcpy dst src 8 s = Some (s\<lparr>word := (word s)(dst := word s src, dst + 4 := word s (src + 4))\<rparr>)"
proof -
  have "a = dst \<or> a = dst + 4" if "dst \<le> a" "a < dst + 8" "4 dvd a" for a
    using that assms(1) unfolding node_ok_def by presburger
  then have "(\<lambda>a. if dst \<le> a \<and> a < dst + 8 \<and> 4 dvd a then word s (src + (a - dst)) else word s a) =
      (word s)(dst := word s src, dst + 4 := word s (src + 4))"
    using assms(1) by (auto simp: fun_eq_iff node_ok_def)
  moreover have "4 dvd dst" "4 dvd src" using assms(1,2) unfolding node_ok_def by presburger+
  ultimately show ?thesis using assms by (simp add: mm_memcpy_def node_ok_def)
qed

lemma replace_flist:
  assumes l: "flist s (xs @ b # ys)" and c: "node_ok s c" and sp': "spaced (xs @ c # ys)" and bc: "b + 8 \<le> c \<or> c + 8 \<le> b"
  shows "\<exists>s'. replace_free_block b c s = Some s' \<and> flist s' (xs @ c # ys) \<and> only (lks (set xs \<union> {c} \<union> set ys)) s s'"
proof -
  note m = flist_middle [OF l] and sp = flist_spaced [OF l]
  let ?w = "set_prev ys (c - 8) (set_next xs (c - 8) (word s))"
  let ?w' = "?w(c := word s b, c + 4 := word s (b + 4))"
  let ?s = "s\<lparr>word := ?w', hd_free := (if xs = [] then Some c else hd_free s), ft_free := (if ys = [] then Some c else ft_free s)\<rparr>"
  have b: "b \<notin> lks (set xs)" "b + 4 \<notin> lks (set xs)" "b \<notin> lks (set ys)" "b + 4 \<notin> lks (set ys)"
    using sp(6) by (force simp: lks_def)+
  have c': "c \<notin> lks (set xs)" "c + 4 \<notin> lks (set xs)" "c \<notin> lks (set ys)" "c + 4 \<notin> lks (set ys)"
    using spaced_append [OF sp'] unfolding spaced_Cons by (force simp: lks_def)+
  have hd: "hd_free s = Some b \<longleftrightarrow> xs = []" and ft: "ft_free s = Some b \<longleftrightarrow> ys = []"
    using l sp(4) by (cases xs; auto simp: flist_def) (cases ys rule: rev_cases; use l sp(4) in \<open>auto simp: flist_def\<close>)
  have w1: "set_next xs v (word s) (b + 4) = word s (b + 4)" for v using b by (simp add: set_links_out)
  have w2: "?w b = word s b" "?w (b + 4) = word s (b + 4)" using b by (simp_all add: set_links_out)
  have cp: "mm_memcpy c b 8 (t\<lparr>word := ?w\<rparr>) = Some (t\<lparr>word := ?w'\<rparr>)" if "mem_brk t = mem_brk s" for t
    using mm_memcpy_8 [of "t\<lparr>word := ?w\<rparr>" c b] c m(5) bc w2 that
    by (simp add: node_ok_def disj_commute)
  note hl = l [unfolded flist_def, THEN conjunct1]
  have 1: "(if hd_free s = Some b then Some (s\<lparr>hd_free := Some c\<rparr>)
       else do { i \<leftarrow> GET (PREV_FREE b) s; PUT (NEXT_FREE (SELF_ADDR i s)) (SELF_INDEX c s) s }) =
      Some (s\<lparr>word := set_next xs (c - 8) (word s), hd_free := (if xs = [] then Some c else hd_free s)\<rparr>)"
    using hd m(1) node_in [OF m(5)] node_in [OF m(6)] node_idx(1) [OF c] hl
    by (simp add: set_next_def last_idx_def SELF_ADDR_def SELF_INDEX_def add.commute [of 4])
  let ?s1 = "s\<lparr>word := set_next xs (c - 8) (word s), hd_free := (if xs = [] then Some c else hd_free s)\<rparr>"
  have 2: "(if ft_free ?s1 = Some b then Some (?s1\<lparr>ft_free := Some c\<rparr>)
       else do { i \<leftarrow> GET (NEXT_FREE b) ?s1; PUT (PREV_FREE (SELF_ADDR i ?s1)) (SELF_INDEX c ?s1) ?s1 }) =
      Some (?s1\<lparr>word := ?w, ft_free := (if ys = [] then Some c else ft_free s)\<rparr>)"
    using ft m(2) node_in [OF m(5)] node_in [OF m(7)] node_idx(1) [OF c] hl w1
    by (simp add: set_prev_def hd_idx_def SELF_ADDR_def SELF_INDEX_def split: list.splits)
  have "replace_free_block b c s = Some ?s"
  proof -
    let ?t = "s\<lparr>hd_free := (if xs = [] then Some c else hd_free s), ft_free := (if ys = [] then Some c else ft_free s)\<rparr>"
    have e: "?s1\<lparr>word := ?w, ft_free := (if ys = [] then Some c else ft_free s)\<rparr> = ?t\<lparr>word := ?w\<rparr>" by simp
    have cp': "mm_memcpy c b 8 (?t\<lparr>word := ?w\<rparr>) = Some ?s" using cp [of ?t] by simp
    show ?thesis unfolding replace_free_block_def 1 bind.bind_lunit 2 DSIZE_def e by (rule cp')
  qed
  moreover have "flist ?s (xs @ c # ys)"
  proof -
    have "links ?w 0 xs (c - 8) \<and> links ?w (c - 8) ys 0" using links_cut [OF m(3,4) sp(2,3,5)] .
    then have "links ?w' 0 xs (c - 8) \<and> links ?w' (c - 8) ys 0" using c' by (simp add: links_upd_out)
    then show ?thesis using l sp' c m(1,2) by (auto simp: flist_def links_append links_Cons hd_idx_def)
  qed
  moreover have "only (lks (set xs \<union> {c} \<union> set ys)) s ?s"
    by (simp add: only_def set_links_out)
  ultimately show ?thesis by blast
qed

end
