(* ===== verification/Mm_Core.thy ===== *)
theory Mm_Core
  imports Mm_Inv
begin

text \<open>
  The operations of \<^verbatim>\<open>lab7/mm.c\<close> preserve the invariant of \<^theory_text>\<open>Mm_Inv\<close>: retagging a run of
  neighbouring blocks, extending the heap, placing, coalescing.
\<close>

section \<open>The heap between the free-list nodes\<close>

definition core :: "mm \<Rightarrow> block set \<Rightarrow> bool" where
  "core s B \<longleftrightarrow> mem_brk s \<le> MAX_HEAP \<and> 8 dvd mem_brk s \<and> tiling 16 (mem_brk s) B \<and> blocks_ok (word s) B \<and>
     word s 4 = 9 \<and> word s 8 = 9 \<and> word s (mem_brk s - 4) = 1 \<and> heap_listp s = 8"

definition heap_inv :: "mm \<Rightarrow> block set \<Rightarrow> int list \<Rightarrow> bool" where
  "heap_inv s B fl \<longleftrightarrow> core s B \<and> flist s fl \<and> set fl = frees B \<and> no_adjacent B"

lemma coreD:
  assumes "core s B"
  shows "mem_brk s \<le> MAX_HEAP" "8 dvd mem_brk s" "tiling 16 (mem_brk s) B" "blocks_ok (word s) B"
    "word s 4 = 9" "word s 8 = 9" "word s (mem_brk s - 4) = 1" "heap_listp s = 8" "16 \<le> mem_brk s"
  using assms tiling_le [of 16 "mem_brk s" B] by (auto simp: core_def)

lemma core_block:
  assumes "core s B" and "(p, n, a) \<in> B"
  shows "16 \<le> p" "8 dvd p" "16 \<le> n" "8 dvd n" "p + n \<le> mem_brk s" "n < 2 ^ 31"
    "word s (p - 4) = tag n a" "word s (p + n - 8) = tag n a"
  using blocks_okD [OF coreD(4) [OF assms(1)] assms(2)] tiling_in [OF coreD(3) [OF assms(1)] assms(2)] coreD(1) [OF assms(1)]
  by (auto simp: MAX_HEAP_def)

lemma core_in:
  assumes "core s B" and "(p, n, a) \<in> B" and "8 dvd k" and "0 \<le> k" and "k \<le> n"
  shows "in_heap (p + k - 4) s" "in_heap (p + k - 8) s"
  using core_block [OF assms(1,2)] assms(3-5) by (auto simp: in_heap_def; presburger)+

lemma frees_in: "f \<in> frees B \<longleftrightarrow> (\<exists>n. (f, n, False) \<in> B)"
  by (simp add: frees_def)

text \<open>The links of the free list stay clear of the tags and of the allocated blocks.\<close>

lemma block_inner:
  assumes c: "core s B" and b: "(q, m, b) \<in> B" and a: "q - 8 \<le> a" "a < q + m" "a \<noteq> q" "a \<noteq> q + 4"
  shows "a \<notin> lks (frees B)"
proof -
  have "f \<noteq> a \<and> f + 4 \<noteq> a" if f: "(f, k, False) \<in> B" for f k
    using tiling_disjoint [OF coreD(3) [OF c] f b] core_block(3) [OF c b] core_block(3) [OF c f] a by auto
  then show ?thesis unfolding lks_def frees_def by force
qed

lemma tag_out:
  assumes c: "core s B" and b: "(q, m, b) \<in> B"
  shows "q - 4 \<notin> lks (frees B)" "q + m - 8 \<notin> lks (frees B)"
  using block_inner [OF c b, of "q - 4"] block_inner [OF c b, of "q + m - 8"] core_block(3) [OF c b] by auto

lemma payload_out:
  assumes c: "core s B" and b: "(q, m, True) \<in> B" and a: "q - 4 \<le> a" "a < q + m - 4"
  shows "a \<notin> lks (frees B)"
proof -
  have "f \<noteq> a \<and> f + 4 \<noteq> a" if f: "(f, k, False) \<in> B" for f k
    using tiling_disjoint [OF coreD(3) [OF c] f b] core_block(3) [OF c b] core_block(3) [OF c f] a by auto
  then show ?thesis unfolding lks_def frees_def by force
qed

lemma frees_bound:
  assumes "core s B" and "a \<in> lks (frees B)"
  shows "16 \<le> a \<and> a + 8 < mem_brk s"
  using assms(2) core_block [OF assms(1)] unfolding lks_def frees_def by fastforce

text \<open>The two blocks at the ends of a run.\<close>

lemma tiling_ends:
  assumes "tiling x y D" and "D \<subseteq> B" and "tiling lo hi B" and "x < y"
  shows "lo \<le> x" "y \<le> hi"
  using tiling_cover [OF assms(1), of x] tiling_cover [OF assms(1), of "y - 1"] tiling_in [OF assms(1)] tiling_in [OF assms(3)] assms(2,4)
  by (smt (verit) subsetD)+

text \<open>The addresses from the first header to the last footer of a run, and the links.\<close>

definition run :: "int \<Rightarrow> int \<Rightarrow> block set \<Rightarrow> int set" where
  "run x y B = {x - 4..<y - 4} \<union> lks (frees B)"

text \<open>What a change leaves alone in the blocks of a set.\<close>

definition kept :: "block set \<Rightarrow> mm \<Rightarrow> mm \<Rightarrow> bool" where
  "kept B s s' \<longleftrightarrow> (\<forall>q m. (q, m, True) \<in> B \<longrightarrow> (\<forall>a. q \<le> a \<longrightarrow> a < q + m - 8 \<longrightarrow> word s' a = word s a))"

lemma kept_refl [simp]: "kept B s s"
  by (simp add: kept_def)

lemma kept_trans: "kept B s t \<Longrightarrow> kept C t u \<Longrightarrow> (\<And>q m. (q, m, True) \<in> B \<Longrightarrow> (q, m, True) \<in> C) \<Longrightarrow> kept B s u"
  unfolding kept_def by metis

lemma kept_mono: "kept B s t \<Longrightarrow> C \<subseteq> B \<Longrightarrow> kept C s t"
  unfolding kept_def by blast

lemma run_out:
  assumes c: "core s B" and b: "(q, m, b) \<in> B - D" and D: "tiling x y D" "D \<subseteq> B" "x < y"
  shows "q - 4 \<notin> run x y B" "q + m - 8 \<notin> run x y B"
    "b \<Longrightarrow> q \<le> a \<Longrightarrow> a < q + m - 8 \<Longrightarrow> a \<notin> run x y B"
proof -
  have "q + m \<le> x \<or> y \<le> q" using tiling_outside [OF coreD(3) [OF c] D(1,2) b D(3)] .
  then show "q - 4 \<notin> run x y B" "q + m - 8 \<notin> run x y B" "b \<Longrightarrow> q \<le> a \<Longrightarrow> a < q + m - 8 \<Longrightarrow> a \<notin> run x y B"
    using tag_out [OF c, of q m b] payload_out [OF c, of q m a] core_block(3) [OF c, of q m b] b by (auto simp: run_def)
qed

text \<open>Retagging a run of neighbouring blocks.\<close>

lemma core_change:
  assumes c: "core s B" and D: "tiling x y D" "D \<subseteq> B" "x < y" and C: "tiling x y C"
    and only: "only (run x y B) s s'" and ok: "blocks_ok (word s') C"
  shows "core s' (B - D \<union> C)" "kept (B - D) s s'"
proof -
  note e = tiling_ends [OF D(1,2) coreD(3) [OF c] D(3)]
  have w: "word s' a = word s a" if "a \<notin> run x y B" for a using only that by (simp add: only_def)
  have brk: "mem_brk s' = mem_brk s" "heap_listp s' = heap_listp s" using only by (auto simp: only_def)
  have fix3: "4 \<notin> run x y B" "8 \<notin> run x y B" "mem_brk s - 4 \<notin> run x y B"
    using e frees_bound [OF c, of 4] frees_bound [OF c, of 8] frees_bound [OF c, of "mem_brk s - 4"] by (auto simp: run_def)
  have "blocks_ok (word s') (B - D \<union> C)"
    unfolding blocks_ok_def
  proof (intro allI impI)
    fix p n a assume b: "(p, n, a) \<in> B - D \<union> C"
    show "16 \<le> n \<and> 8 dvd n \<and> 8 dvd p \<and> word s' (p - 4) = tag n a \<and> word s' (p + n - 8) = tag n a"
    proof (cases "(p, n, a) \<in> C")
      case True
      then show ?thesis using blocks_okD [OF ok] by blast
    next
      case False
      then have "(p, n, a) \<in> B - D" using b by blast
      then show ?thesis using run_out(1,2) [OF c _ D] w core_block [OF c, of p n a] by auto
    qed
  qed
  then show "core s' (B - D \<union> C)"
    unfolding core_def using coreD [OF c] brk w fix3 tiling_replace [OF coreD(3) [OF c] D(1,2) C D(3) e] by simp
  show "kept (B - D) s s'"
    unfolding kept_def using run_out(3) [OF c _ D] w by blast
qed

lemma flist_frame:
  assumes "flist s fl" and "only A s s'" and "A \<inter> lks (set fl) = {}" and "hd_free s' = hd_free s" and "ft_free s' = ft_free s"
  shows "flist s' fl"
proof -
  have "links (word s') 0 fl 0 = links (word s) 0 fl 0"
    using assms(2,3) by (intro links_cong) (auto simp: only_def lks_def)
  then show ?thesis using assms by (auto simp: flist_def only_def node_ok_def)
qed

text \<open>The tags of the neighbours; the prologue counts as an allocated block.\<close>

lemma prev_tag:
  assumes c: "core s B" and b: "(p, n, a) \<in> B \<or> p = mem_brk s"
  shows "(p = 16 \<and> word s (p - 8) = tag 8 True) \<or> (\<exists>q m b. (q, m, b) \<in> B \<and> q + m = p \<and> word s (p - 8) = tag m b)"
proof (cases "p = 16")
  case False
  then have "16 < p" using b core_block(1) [OF c] coreD(9) [OF c] by fastforce
  then show ?thesis using tiling_prev [OF coreD(3) [OF c] _ b] core_block(8) [OF c] by blast
qed (use coreD(6) [OF c] in \<open>simp add: tag_def\<close>)

lemma next_tag:
  assumes c: "core s B" and b: "(p, n, a) \<in> B"
  shows "(p + n = mem_brk s \<and> word s (p + n - 4) = tag 0 True) \<or> (\<exists>m b. (p + n, m, b) \<in> B \<and> word s (p + n - 4) = tag m b)"
proof (cases "p + n = mem_brk s")
  case False
  then have "p + n < mem_brk s" using core_block(5) [OF c b] by simp
  then show ?thesis using tiling_next [OF coreD(3) [OF c] b] core_block(7) [OF c] by blast
qed (use coreD(7) [OF c] in \<open>simp add: tag_def\<close>)

lemma put_ftr:
  assumes "word s (p - 4) = tag n a" and "8 dvd n" and "in_heap (p - 4) s" and "in_heap (p + n - 8) s"
  shows "PUT_FTR p v s = Some (s\<lparr>word := (word s)(p + n - 8 := v mod 2 ^ 32)\<rparr>)"
  using assms by (simp add: PUT_FTR_def FTRP_def GET_SIZE_def)

definition allocs :: "block set \<Rightarrow> (int \<times> int) set" where
  "allocs B = {(p, n). (p, n, True) \<in> B}"

lemma heap_invD: "heap_inv s B fl \<Longrightarrow> core s B" "heap_inv s B fl \<Longrightarrow> flist s fl" "heap_inv s B fl \<Longrightarrow> set fl = frees B"
    "heap_inv s B fl \<Longrightarrow> no_adjacent B"
  by (simp_all add: heap_inv_def)

lemma frees_simps: "frees {} = {}" "frees (insert (p, n, a) B) = (if a then frees B else insert p (frees B))"
  by (auto simp: frees_def)

lemma allocs_simps: "allocs {} = {}" "allocs (insert (p, n, a) B) = (if a then insert (p, n) (allocs B) else allocs B)"
  by (auto simp: allocs_def)

lemma frees_swap:
  assumes "tiling lo hi B" and "D \<subseteq> B"
  shows "frees (B - D \<union> C) = frees B - frees D \<union> frees C"
proof -
  have "m = n" if "(p, n, False) \<in> B" "(p, m, False) \<in> D" for p n m using tiling_unique assms that by blast
  then show ?thesis unfolding frees_def by blast
qed

lemma allocs_swap: "allocs (B - D \<union> C) = allocs B - allocs D \<union> allocs C"
  by (auto simp: allocs_def)

lemma no_adjacentD: "no_adjacent B \<Longrightarrow> (p, n, False) \<in> B \<Longrightarrow> (p + n, m, False) \<notin> B"
  unfolding no_adjacent_def by blast

lemma run_frees: "f \<in> lks (frees B) \<Longrightarrow> f \<in> run x y B"
  by (simp add: run_def)

lemma run_tags:
  assumes "x - 4 \<le> a" and "a < y - 4"
  shows "a \<in> run x y B"
  using assms by (simp add: run_def)

lemma onlyI: "(\<And>a. word s' a \<noteq> word s a \<Longrightarrow> a \<in> A) \<Longrightarrow> mem_brk s' = mem_brk s \<Longrightarrow> heap_listp s' = heap_listp s \<Longrightarrow> only A s s'"
  unfolding only_def by blast

lemma only_trans: "only A s t \<Longrightarrow> only B t u \<Longrightarrow> A \<subseteq> C \<Longrightarrow> B \<subseteq> C \<Longrightarrow> only C s u"
  unfolding only_def by (metis subset_eq)

lemma only_mono: "only A s t \<Longrightarrow> A \<subseteq> C \<Longrightarrow> only C s t"
  unfolding only_def by blast

text \<open>The split of a free block: the first part stays free, and stays in the list.\<close>

lemma place_split:
  assumes h: "heap_inv s B fl" and b: "(p, n, False) \<in> B" and sz: "8 dvd sz" "16 \<le> sz" "sz + 16 \<le> n"
  defines "B' \<equiv> B - {(p, n, False)} \<union> {(p, n - sz, False), (p + (n - sz), sz, True)}"
  shows "\<exists>s'. place p sz s = Some (p + (n - sz), s') \<and> heap_inv s' B' fl \<and> kept B s s' \<and> mem_brk s' = mem_brk s"
proof -
  note c = heap_invD(1) [OF h]
  note cb = core_block [OF c b]
  let ?k = "n - sz"
  have k: "8 dvd ?k" "16 \<le> ?k" "?k < n" "?k < 2 ^ 31" using cb sz by auto
  let ?w = "(word s)(p - 4 := tag ?k False, p + ?k - 8 := tag ?k False, p + ?k - 4 := tag sz True, p + n - 8 := tag sz True)"
  let ?s = "s\<lparr>word := ?w\<rparr>"
  note ins = core_in [OF c b, of 0] core_in [OF c b k(1)] core_in [OF c b cb(4)]
  have u: "u64 (n - sz) = n - sz" using k by (simp add: u64_def)
  have t: "tag ?k a mod 4294967296 = tag ?k a" "tag sz a mod 4294967296 = tag sz a" for a
    using k cb sz by (simp_all add: tag_def)
  have pl: "place p sz s = Some (p + ?k, ?s)"
    using ins k cb sz u t
    by (simp add: place_def GET_SIZE_def PUT_FTR_def FTRP_def NEXT_BLKP_def)
  have C: "tiling p (p + n) {(p, ?k, False), (p + ?k, sz, True)}"
    using tiling_append [OF tiling_single [of ?k p False] tiling_single [of sz "p + ?k" True]] k sz
    by (simp add: insert_commute)
  have D: "tiling p (p + n) {(p, n, False)}" "{(p, n, False)} \<subseteq> B" "p < p + n" using b cb tiling_single [of n p] by auto
  have only: "only (run p (p + n) B) s ?s"
    using k sz by (intro onlyI) (auto simp: run_def split: if_splits)
  have ok: "blocks_ok (word ?s) {(p, ?k, False), (p + ?k, sz, True)}"
    using k sz cb by (auto simp: blocks_ok_def)
  note cc = core_change [OF c D C only ok]
  have fr: "frees B' = frees B"
    using frees_swap [OF coreD(3) [OF c] D(2)] b unfolding B'_def by (auto simp: frees_simps frees_in)
  have fl: "flist ?s fl"
  proof (rule flist_frame [OF heap_invD(2) [OF h] onlyI])
    show "word ?s a \<noteq> word s a \<Longrightarrow> a \<in> {p - 4, p + ?k - 8, p + ?k - 4, p + n - 8}" for a by (auto split: if_splits)
    have "p + ?k - 4 \<notin> lks (frees B) \<and> p + ?k - 8 \<notin> lks (frees B)"
      using block_inner [OF c b, of "p + ?k - 4"] block_inner [OF c b, of "p + ?k - 8"] k by auto
    then show "{p - 4, p + ?k - 8, p + ?k - 4, p + n - 8} \<inter> lks (set fl) = {}"
      using tag_out [OF c b] unfolding heap_invD(3) [OF h] by blast
  qed simp_all
  have "no_adjacent B'"
    unfolding no_adjacent_def
  proof (intro allI impI notI)
    fix q m l assume q: "(q, m, False) \<in> B'" and r: "(q + m, l, False) \<in> B'"
    have "(p + ?k, sz, True) \<in> B'" by (simp add: B'_def)
    then have "q \<noteq> p \<or> m \<noteq> ?k" using tiling_unique [OF coreD(3) [OF cc(1)]] r unfolding B'_def [symmetric] by blast
    then have q': "(q, m, False) \<in> B" using q by (auto simp: B'_def)
    moreover have "(q + m, l, False) \<in> B \<or> q + m = p" using r by (auto simp: B'_def)
    ultimately show False using no_adjacentD [OF heap_invD(4) [OF h]] b by blast
  qed
  then show ?thesis
    using pl cc fl fr heap_invD(3) [OF h] unfolding heap_inv_def B'_def by (auto simp: kept_def)
qed

text \<open>A change of a run and of the free list together.\<close>

lemma heap_change:
  assumes h: "heap_inv s B fl" and D: "tiling x y D" "D \<subseteq> B" "x < y" and C: "tiling x y C"
    and only: "only (run x y B) s s'" and ok: "blocks_ok (word s') C"
    and fl: "flist s' fl'" "set fl' = frees B - frees D \<union> frees C" and na: "no_adjacent (B - D \<union> C)"
  shows "heap_inv s' (B - D \<union> C) fl' \<and> kept (B - D) s s' \<and> mem_brk s' = mem_brk s"
  using core_change [OF heap_invD(1) [OF h] D C only ok] fl na frees_swap [OF coreD(3) [OF heap_invD(1) [OF h]] D(2)] only
  by (auto simp: heap_inv_def only_def)

lemma frees_nodes:
  assumes t: "tiling 16 hi B" and hi: "hi \<le> mem_brk s" "mem_brk s \<le> MAX_HEAP" and ok: "\<And>p n. (p, n, False) \<in> B \<Longrightarrow> 16 \<le> n \<and> 8 dvd p"
    and fl: "distinct fl" "set fl = frees B"
  shows "spaced fl" "\<forall>f \<in> set fl. node_ok s f"
proof -
  have "b = c \<or> b + 8 \<le> c \<or> c + 8 \<le> b" if "(b, n, False) \<in> B" "(c, m, False) \<in> B" for b c n m
    using tiling_disjoint [OF t that] ok [OF that(1)] ok [OF that(2)] by auto
  then show "spaced fl" using fl unfolding spaced_def frees_def by blast
  have "node_ok s p" if "(p, n, False) \<in> B" for p n
    using tiling_in [OF t that] ok [OF that] hi by (auto simp: node_ok_def)
  then show "\<forall>f \<in> set fl. node_ok s f" using fl(2) unfolding frees_def by blast
qed

lemma change_nodes:
  assumes c: "core s B" and D: "tiling x y D" "D \<subseteq> B" "x < y" and C: "tiling x y C"
    and ok: "blocks_ok w C" and fl: "distinct fl" "set fl = frees B - frees D \<union> frees C"
    and brk: "mem_brk s' = mem_brk s"
  shows "spaced fl" "\<forall>f \<in> set fl. node_ok s' f"
proof -
  note c' = coreD [OF c]
  have ok': "16 \<le> n \<and> 8 dvd p" if "(p, n, a) \<in> B - D \<union> C" for p n a using that blocks_okD [OF ok, of p n a] core_block [OF c, of p n a] by blast
  note n = frees_nodes [OF tiling_replace [OF c'(3) D(1,2) C D(3) tiling_ends [OF D(1,2) c'(3) D(3)]] _ _ ok' fl(1), of s']
  show "spaced fl" "\<forall>f \<in> set fl. node_ok s' f"
    using n c'(1) brk fl(2) frees_swap [OF c'(3) D(2)] by auto
qed

text \<open>Writing tags into blocks leaves the list as it is.\<close>

lemma flist_tags:
  assumes h: "heap_inv s B fl" and w: "\<And>a. w a \<noteq> word s a \<Longrightarrow> a \<in> T" and T: "\<And>a. a \<in> T \<Longrightarrow> a \<notin> lks (frees B)"
  shows "flist (s\<lparr>word := w\<rparr>) fl"
  using T heap_invD(3) [OF h]
  by (intro flist_frame [OF heap_invD(2) [OF h] onlyI, of "s\<lparr>word := w\<rparr>" T]) (use w in auto)

text \<open>The list operations, each behind the retagging of a run.\<close>

lemma tags_kept:
  assumes ok: "blocks_ok w C" and out: "\<And>q m b. (q, m, b) \<in> C \<Longrightarrow> {q - 4, q + m - 8} \<inter> A = {}"
    and only: "only A' (s\<lparr>word := w\<rparr>) s'" and sub: "A' \<subseteq> A"
  shows "blocks_ok (word s') C"
proof -
  have "word s' (q - 4) = w (q - 4) \<and> word s' (q + m - 8) = w (q + m - 8)" if "(q, m, b) \<in> C" for q m b
    using out [OF that] only sub by (simp add: only_def subset_eq) blast
  then show ?thesis using ok unfolding blocks_ok_def by metis
qed

lemma only_tags:
  assumes "only A (s\<lparr>word := w\<rparr>) s'" and "\<And>a. w a \<noteq> word s a \<Longrightarrow> a \<in> T" and "A \<subseteq> R" and "T \<subseteq> R"
  shows "only R s s'"
  using assms unfolding only_def by (simp add: subset_eq) metis

lemma heap_remove:
  assumes h: "heap_inv s B fl" and D: "tiling x y D" "D \<subseteq> B" "x < y" and C: "tiling x y C"
    and w: "\<And>a. w a \<noteq> word s a \<Longrightarrow> a \<in> T" and T: "\<And>a. a \<in> T \<Longrightarrow> a \<notin> lks (frees B) \<and> x - 4 \<le> a \<and> a < y - 4"
    and ok: "blocks_ok w C" and out: "\<And>q m b. (q, m, b) \<in> C \<Longrightarrow> {q - 4, q + m - 8} \<inter> lks (frees B) = {}"
    and p: "frees D = insert p (frees C)" "p \<notin> frees C" and na: "no_adjacent (B - D \<union> C)"
  shows "\<exists>s' fl'. remove_free_block p (s\<lparr>word := w\<rparr>) = Some s' \<and> heap_inv s' (B - D \<union> C) fl' \<and> kept (B - D) s s' \<and>
    only (T \<union> lks (frees B)) s s'"
proof -
  have DB: "frees D \<subseteq> frees B" using D(2) unfolding frees_def by blast
  then obtain xs ys where fl: "fl = xs @ p # ys" using p heap_invD(3) [OF h] split_list [of p fl] by auto
  have l: "flist (s\<lparr>word := w\<rparr>) fl" using flist_tags [OF h w] T by blast
  then have l': "flist (s\<lparr>word := w\<rparr>) (xs @ p # ys)" using fl by simp
  obtain s' where s': "remove_free_block p (s\<lparr>word := w\<rparr>) = Some s'" "flist s' (xs @ ys)"
      "only (lks (set xs \<union> set ys)) (s\<lparr>word := w\<rparr>) s'"
    using remove_flist [OF l'] by blast
  have set: "set (xs @ ys) = frees B - {p}" using heap_invD(3) [OF h] fl flist_spaced(4) [OF l'] by auto
  have sub: "lks (set xs \<union> set ys) \<subseteq> lks (frees B)" using set by (auto simp: lks_def)
  have only: "only (run x y B) s s'"
    by (rule only_tags [OF s'(3) w]) (use T sub in \<open>auto simp: run_def\<close>)
  have onlyT: "only (T \<union> lks (frees B)) s s'"
    by (rule only_tags [OF s'(3) w]) (use sub in auto)
  have "blocks_ok (word s') C"
    by (rule tags_kept [OF ok out s'(3) sub])
  moreover have "set (xs @ ys) = frees B - frees D \<union> frees C" using set p DB by auto
  ultimately show ?thesis using heap_change [OF h D C only _ s'(2) _ na] s'(1) onlyT by blast
qed

lemma heap_keep:
  assumes h: "heap_inv s B fl" and D: "tiling x y D" "D \<subseteq> B" "x < y" and C: "tiling x y C"
    and w: "\<And>a. w a \<noteq> word s a \<Longrightarrow> a \<in> T" and T: "\<And>a. a \<in> T \<Longrightarrow> a \<notin> lks (frees B) \<and> x - 4 \<le> a \<and> a < y - 4"
    and ok: "blocks_ok w C" and fr: "frees C = frees D" and na: "no_adjacent (B - D \<union> C)"
  shows "heap_inv (s\<lparr>word := w\<rparr>) (B - D \<union> C) fl \<and> kept (B - D) s (s\<lparr>word := w\<rparr>)"
proof -
  have DB: "frees D \<subseteq> frees B" using D(2) unfolding frees_def by blast
  have l: "flist (s\<lparr>word := w\<rparr>) fl" using flist_tags [OF h w] T by blast
  have "only (run x y B) s (s\<lparr>word := w\<rparr>)" using w T by (intro onlyI) (auto simp: run_def)
  then show ?thesis using heap_change [OF h D C _ _ l _ na] ok fr DB heap_invD(3) [OF h] by auto
qed

lemma heap_insert:
  assumes h: "heap_inv s B fl" and D: "tiling x y D" "D \<subseteq> B" "x < y" and C: "tiling x y C"
    and w: "\<And>a. w a \<noteq> word s a \<Longrightarrow> a \<in> T" and T: "\<And>a. a \<in> T \<Longrightarrow> a \<notin> lks (frees B) \<and> x - 4 \<le> a \<and> a < y - 4"
    and ok: "blocks_ok w C" and out: "\<And>q m b. (q, m, b) \<in> C \<Longrightarrow> {q - 4, q + m - 8} \<inter> lks (insert p (frees B)) = {}"
    and p: "frees C = insert p (frees D)" "p \<notin> frees B" "x \<le> p" "p + 8 < y" and na: "no_adjacent (B - D \<union> C)"
  shows "\<exists>s' fl'. insert_free_block p (s\<lparr>word := w\<rparr>) = Some s' \<and> heap_inv s' (B - D \<union> C) fl' \<and> kept (B - D) s s' \<and>
    only (T \<union> lks (insert p (frees B))) s s'"
proof -
  have DB: "frees D \<subseteq> frees B" using D(2) unfolding frees_def by blast
  have l: "flist (s\<lparr>word := w\<rparr>) fl" using flist_tags [OF h w] T by blast
  have set: "set (fl @ [p]) = frees B - frees D \<union> frees C" using heap_invD(3) [OF h] p(1) DB by auto
  have dist: "distinct (fl @ [p])" using heap_invD(2,3) [OF h] p(2) by (simp add: flist_def spaced_def)
  note nodes = change_nodes [OF heap_invD(1) [OF h] D C ok dist set, where s' = "s\<lparr>word := w\<rparr>"]
  obtain s' where s': "insert_free_block p (s\<lparr>word := w\<rparr>) = Some s'" "flist s' (fl @ [p])"
      "only (lks (set fl \<union> {p})) (s\<lparr>word := w\<rparr>) s'"
    using insert_flist [OF l _ nodes(1)] nodes(2) by auto
  have eq: "set fl \<union> {p} = insert p (frees B)" using heap_invD(3) [OF h] by blast
  have only: "only (run x y B) s s'"
    by (rule only_tags [OF s'(3)[unfolded eq] w]) (use T p(3,4) in \<open>auto simp: run_def\<close>)
  have onlyT: "only (T \<union> lks (insert p (frees B))) s s'"
    by (rule only_tags [OF s'(3)[unfolded eq] w]) auto
  have "blocks_ok (word s') C"
    by (rule tags_kept [OF ok out s'(3)]) (use eq in auto)
  then show ?thesis using heap_change [OF h D C only _ s'(2) set na] s'(1) onlyT by blast
qed

lemma heap_replace:
  assumes h: "heap_inv s B fl" and D: "tiling x y D" "D \<subseteq> B" "x < y" and C: "tiling x y C"
    and w: "\<And>a. w a \<noteq> word s a \<Longrightarrow> a \<in> T" and T: "\<And>a. a \<in> T \<Longrightarrow> a \<notin> lks (frees B) \<and> x - 4 \<le> a \<and> a < y - 4"
    and ok: "blocks_ok w C" and out: "\<And>q m b. (q, m, b) \<in> C \<Longrightarrow> {q - 4, q + m - 8} \<inter> lks (insert p (frees B)) = {}"
    and p: "frees D = {b}" "frees C = {p}" "p \<notin> frees B" "x \<le> p" "p + 8 < y" "b + 8 \<le> p \<or> p + 8 \<le> b"
    and na: "no_adjacent (B - D \<union> C)"
  shows "\<exists>s' fl'. replace_free_block b p (s\<lparr>word := w\<rparr>) = Some s' \<and> heap_inv s' (B - D \<union> C) fl' \<and> kept (B - D) s s' \<and>
    only (T \<union> lks (insert p (frees B))) s s'"
proof -
  have DB: "frees D \<subseteq> frees B" using D(2) unfolding frees_def by blast
  then obtain xs ys where fl: "fl = xs @ b # ys" using p heap_invD(3) [OF h] split_list [of b fl] by auto
  have l: "flist (s\<lparr>word := w\<rparr>) (xs @ b # ys)" using flist_tags [OF h w] T fl by blast
  have d: "distinct (xs @ b # ys)" using flist_spaced(4) [OF l] .
  have set: "set (xs @ p # ys) = frees B - frees D \<union> frees C" using heap_invD(3) [OF h] p(1,2) d fl by auto
  have dist: "distinct (xs @ p # ys)" using heap_invD(3) [OF h] p(3) d fl by auto
  note nodes = change_nodes [OF heap_invD(1) [OF h] D C ok dist set, where s' = "s\<lparr>word := w\<rparr>"]
  obtain s' where s': "replace_free_block b p (s\<lparr>word := w\<rparr>) = Some s'" "flist s' (xs @ p # ys)"
      "only (lks (set xs \<union> {p} \<union> set ys)) (s\<lparr>word := w\<rparr>) s'"
    using replace_flist [OF l _ nodes(1) p(6)] nodes(2) by auto
  have sub: "lks (set xs \<union> {p} \<union> set ys) \<subseteq> lks (insert p (frees B))" using heap_invD(3) [OF h] fl by (auto simp: lks_def)
  have only: "only (run x y B) s s'"
    by (rule only_tags [OF s'(3) w]) (use T p(4,5) sub in \<open>auto simp: run_def\<close>)
  have onlyT: "only (T \<union> lks (insert p (frees B))) s s'"
    by (rule only_tags [OF s'(3) w]) (use sub in auto)
  have "blocks_ok (word s') C"
    by (rule tags_kept [OF ok out s'(3) sub])
  then show ?thesis using heap_change [OF h D C only _ s'(2) set na] s'(1) onlyT by blast
qed

lemma no_adjacent_change:
  assumes t: "tiling lo hi B" and na: "no_adjacent B" and D: "tiling x y D" "D \<subseteq> B" "x < y" and C: "tiling x y C" "no_adjacent C"
    and l: "\<And>k q m. (x, k, False) \<in> C \<Longrightarrow> (q, m, False) \<in> B \<Longrightarrow> q + m \<noteq> x"
    and r: "\<And>q m k. (q, m, False) \<in> C \<Longrightarrow> (y, k, False) \<in> B \<Longrightarrow> q + m \<noteq> y"
  shows "no_adjacent (B - D \<union> C)"
  unfolding no_adjacent_def
proof (intro allI impI notI)
  fix q m k assume 1: "(q, m, False) \<in> B - D \<union> C" and 2: "(q + m, k, False) \<in> B - D \<union> C"
  have o: "p + n \<le> x \<or> y \<le> p" if "(p, n, False) \<in> B - D" for p n using tiling_outside [OF t D(1,2) that D(3)] .
  have i: "x \<le> p \<and> 0 < n \<and> p + n \<le> y" if "(p, n, False) \<in> C" for p n using tiling_in [OF C(1) that] .
  show False
  proof (cases "(q, m, False) \<in> C")
    case True
    then show ?thesis using 2 no_adjacentD [OF C(2)] o [of "q + m" k] i [of q m] r [of q m k] tiling_in [OF t, of "q + m" k False] by force
  next
    case False
    then have b: "(q, m, False) \<in> B - D" using 1 by blast
    show ?thesis
    proof (cases "(q + m, k, False) \<in> C")
      case True
      then have "q + m = x" using o [OF b] i [OF True] tiling_in [OF t, of q m False] b by auto
      then show ?thesis using l [of k q m] b True by blast
    next
      case False
      then show ?thesis using 2 b no_adjacentD [OF na] by blast
    qed
  qed
qed

section \<open>Placing\<close>

lemma tags_u32: "0 \<le> n \<Longrightarrow> n < 2 ^ 31 \<Longrightarrow> tag n a mod 4294967296 = tag n a"
  by (rule tag_32)

lemma place_whole:
  assumes h: "heap_inv s B fl" and b: "(p, n, False) \<in> B" and sz: "8 dvd sz" "sz \<le> n" "n < sz + 16"
  defines "B' \<equiv> B - {(p, n, False)} \<union> {(p, n, True)}"
  shows "\<exists>s' fl'. place p sz s = Some (p, s') \<and> heap_inv s' B' fl' \<and> kept B s s' \<and> mem_brk s' = mem_brk s"
proof -
  note c = heap_invD(1) [OF h]
  note cb = core_block [OF c b]
  let ?w = "(word s)(p - 4 := tag n True, p + n - 8 := tag n True)"
  have pl: "place p sz s = (case remove_free_block p (s\<lparr>word := ?w\<rparr>) of Some s \<Rightarrow> Some (p, s) | None \<Rightarrow> None)"
    using core_in [OF c b, of 0] core_in [OF c b cb(4)] cb sz
    by (simp add: place_def GET_SIZE_def PUT_FTR_def FTRP_def u64_def split: option.splits)
  have t: "tiling p (p + n) {(p, n, a)}" for a using cb tiling_single by simp
  have na: "no_adjacent B'"
    unfolding B'_def
    by (rule no_adjacent_change [OF coreD(3) [OF c] heap_invD(4) [OF h] t _ _ t])
      (use b cb in \<open>auto simp: no_adjacent_def\<close>)
  have "\<exists>s' fl'. remove_free_block p (s\<lparr>word := ?w\<rparr>) = Some s' \<and> heap_inv s' (B - {(p, n, False)} \<union> {(p, n, True)}) fl' \<and>
      kept (B - {(p, n, False)}) s s' \<and> only ({p - 4, p + n - 8} \<union> lks (frees B)) s s'"
  proof (rule heap_remove [OF h t _ _ t, where w = ?w and T = "{p - 4, p + n - 8}"])
    show "blocks_ok ?w {(p, n, True)}" using cb by (simp add: blocks_ok_def)
    show "no_adjacent (B - {(p, n, False)} \<union> {(p, n, True)})" using na by (simp add: B'_def)
  qed (use b cb tag_out [OF c b] in \<open>auto simp: frees_simps split: if_splits\<close>)
  then show ?thesis using pl by (auto simp: B'_def kept_def only_def)
qed

text \<open>What a successful allocation does.\<close>

definition obtained :: "mm \<Rightarrow> block set \<Rightarrow> int \<Rightarrow> int \<Rightarrow> mm \<Rightarrow> bool" where
  "obtained s B q m s' \<longleftrightarrow> (\<exists>B' fl'. heap_inv s' B' fl' \<and> (q, m) \<notin> allocs B \<and> allocs B' = insert (q, m) (allocs B)) \<and> kept B s s'"

lemma obtainedI:
  assumes "heap_inv s' (B - D \<union> C) fl'" and "(q, m, True) \<notin> B" and "allocs D = {}" and "allocs C = {(q, m)}" and "kept B s s'"
  shows "obtained s B q m s'"
proof -
  have "allocs (B - D \<union> C) = insert (q, m) (allocs B)" "(q, m) \<notin> allocs B"
    using assms(2-4) allocs_swap [of B D C] by (simp_all add: allocs_def)
  then show ?thesis unfolding obtained_def using assms(1,5) by blast
qed

lemma place_ok:
  assumes h: "heap_inv s B fl" and b: "(p, n, False) \<in> B" and sz: "8 dvd sz" "16 \<le> sz" "sz \<le> n"
  shows "\<exists>q m s'. place p sz s = Some (q, s') \<and> obtained s B q m s' \<and> sz \<le> m \<and> m < sz + 16 \<and> mem_brk s' = mem_brk s"
proof (cases "sz + 16 \<le> n")
  case True
  have "(p + (n - sz), sz, True) \<notin> B"
    using tiling_disjoint [OF coreD(3) [OF heap_invD(1) [OF h]] b, of "p + (n - sz)" sz True] sz True by auto
  moreover obtain s' where s': "place p sz s = Some (p + (n - sz), s')"
      "heap_inv s' (B - {(p, n, False)} \<union> {(p, n - sz, False), (p + (n - sz), sz, True)}) fl" "kept B s s'" "mem_brk s' = mem_brk s"
    using place_split [OF h b sz(1,2) True] by blast
  ultimately have "obtained s B (p + (n - sz)) sz s'" by (intro obtainedI [OF s'(2)]) (simp_all add: allocs_simps)
  then show ?thesis using s' sz by force
next
  case False
  have "(p, n, True) \<notin> B"
    using tiling_unique [OF coreD(3) [OF heap_invD(1) [OF h]] b, of n True] by auto
  moreover obtain s' fl' where s': "place p sz s = Some (p, s')" "heap_inv s' (B - {(p, n, False)} \<union> {(p, n, True)}) fl'"
      "kept B s s'" "mem_brk s' = mem_brk s"
    using place_whole [OF h b sz(1,3)] False by force
  ultimately have "obtained s B p n s'" by (intro obtainedI [OF s'(2)]) (simp_all add: allocs_simps)
  then show ?thesis using s' sz False by force
qed

section \<open>Growing\<close>

text \<open>The heap just after the break moved, with the new area as one more allocated block.\<close>

definition grown :: "int \<Rightarrow> mm \<Rightarrow> mm" where
  "grown n s = s\<lparr>mem_brk := mem_brk s + n, word := (word s)(mem_brk s - 4 := tag n True, mem_brk s + n - 8 := tag n True,
     mem_brk s + n - 4 := 1)\<rparr>"

lemma heap_grown:
  assumes h: "heap_inv s B fl" and n: "8 dvd n" "16 \<le> n" "mem_brk s + n \<le> MAX_HEAP"
  shows "heap_inv (grown n s) (B \<union> {(mem_brk s, n, True)}) fl" "kept B s (grown n s)" "(mem_brk s, n, a) \<notin> B"
proof -
  let ?b = "mem_brk s" and ?B = "B \<union> {(mem_brk s, n, True)}"
  note c = heap_invD(1) [OF h]
  note cd = coreD [OF c]
  have B: "p + m \<le> ?b \<and> 0 < m \<and> 16 \<le> p" if "(p, m, a) \<in> B" for p m a using core_block [OF c that] by simp
  then show "(?b, n, a) \<notin> B" by fastforce
  have w: "word (grown n s) a = word s a" if "a < ?b - 4" for a using that n by (simp add: grown_def)
  have "blocks_ok (word (grown n s)) ?B"
    unfolding blocks_ok_def
  proof (intro allI impI)
    fix p m a assume "(p, m, a) \<in> ?B"
    then consider "(p, m, a) \<in> B" | "p = ?b" "m = n" "a" by auto
    then show "16 \<le> m \<and> 8 dvd m \<and> 8 dvd p \<and> word (grown n s) (p - 4) = tag m a \<and> word (grown n s) (p + m - 8) = tag m a"
    proof cases
      case 1
      then show ?thesis using w [of "p - 4"] w [of "p + m - 8"] core_block [OF c 1] by auto
    qed (use n cd in \<open>simp add: grown_def\<close>)
  qed
  moreover have "tiling 16 (?b + n) ?B" using tiling_append [OF cd(3) tiling_single] n by simp
  ultimately have core: "core (grown n s) ?B"
    using cd n w [of 4] w [of 8] unfolding core_def by (auto simp: grown_def)
  have "flist (grown n s) fl"
  proof -
    have "links (word (grown n s)) 0 fl 0 = links (word s) 0 fl 0"
      using frees_bound [OF c] heap_invD(3) [OF h] by (intro links_cong) (fastforce intro!: w)
    moreover have "node_ok (grown n s) b" if "node_ok s b" for b using that n by (simp add: node_ok_def grown_def)
    ultimately show ?thesis using heap_invD(2) [OF h] by (auto simp: flist_def grown_def)
  qed
  moreover have "no_adjacent ?B" using heap_invD(4) [OF h] by (auto simp: no_adjacent_def)
  moreover have "frees ?B = frees B" by (auto simp: frees_def)
  ultimately show "heap_inv (grown n s) ?B fl" using core heap_invD(3) [OF h] by (simp add: heap_inv_def)
  show "kept B s (grown n s)"
    unfolding kept_def using B w by fastforce
qed

definition extended :: "mm \<Rightarrow> block set \<Rightarrow> int \<Rightarrow> int \<Rightarrow> mm \<Rightarrow> bool" where
  "extended s B bp k s' \<longleftrightarrow> (\<exists>B' fl'. heap_inv s' B' fl' \<and> (bp, k, False) \<in> B' \<and> allocs B' = allocs B) \<and> kept B s s'"

lemma extendedI:
  assumes "heap_inv s' (B \<union> {(b, k, True)} - D \<union> C) fl'" and "(bp, n, False) \<in> C" and "(b, k, True) \<in> D" and "(b, k, True) \<notin> B"
    and "allocs D = {(b, k)}" and "allocs C = {}" and "kept B s t" and "kept (B \<union> {(b, k, True)} - D) t s'"
  shows "extended s B bp n s'"
proof -
  have "allocs (B \<union> {(b, k, True)} - D \<union> C) = allocs B"
    using assms(3-6) allocs_swap [of "B \<union> {(b, k, True)}" D C] by (auto simp: allocs_def)
  moreover have "kept B s s'"
  proof (rule kept_trans [OF assms(7,8)])
    fix q m assume qm: "(q, m, True) \<in> B"
    have "(q, m, True) \<notin> D" using assms(4,5) qm by (auto simp: allocs_def)
    then show "(q, m, True) \<in> B \<union> {(b, k, True)} - D" using qm by blast
  qed
  ultimately show ?thesis unfolding extended_def using assms(1,2) by blast
qed

text \<open>The new area becomes a free block of its own, or joins the free block before it.\<close>

lemma extend_new:
  assumes h: "heap_inv s B fl" and n: "8 dvd n" "16 \<le> n" "mem_brk s + n \<le> MAX_HEAP"
    and al: "\<And>q m. (q, m, False) \<in> B \<Longrightarrow> q + m \<noteq> mem_brk s"
  shows "\<exists>s'. insert_free_block (mem_brk s) (s\<lparr>mem_brk := mem_brk s + n,
      word := (word s)(mem_brk s - 4 := tag n False, mem_brk s + n - 8 := tag n False, mem_brk s + n - 4 := 1)\<rparr>) = Some s' \<and>
    extended s B (mem_brk s) n s' \<and> mem_brk s' = mem_brk s + n"
proof -
  let ?b = "mem_brk s"
  let ?w = "(word s)(?b - 4 := tag n False, ?b + n - 8 := tag n False, ?b + n - 4 := 1)"
  let ?B = "B \<union> {(?b, n, True)}"
  note g = heap_grown [OF h n]
  have st: "s\<lparr>mem_brk := ?b + n, word := ?w\<rparr> = grown n s\<lparr>word := ?w\<rparr>" by (simp add: grown_def)
  have b: "(?b, n, True) \<in> ?B" by simp
  note c = heap_invD(1) [OF g(1)] heap_invD(1) [OF h]
  note to = tag_out [OF c(1) b]
  have t: "tiling ?b (?b + n) {(?b, n, a)}" for a using n tiling_single by simp
  have nf: "?b \<notin> frees ?B" "?b + 4 \<notin> lks (frees ?B)" "?b \<notin> lks (frees ?B)"
    using payload_out [OF c(1) b, of ?b] payload_out [OF c(1) b, of "?b + 4"] n by (auto simp: lks_def)
  have e: "(y, k, False) \<notin> ?B" if "y \<ge> ?b" for y k using core_block [OF c(2), of y k False] that by auto
  have na: "no_adjacent (?B - {(?b, n, True)} \<union> {(?b, n, False)})"
    by (rule no_adjacent_change [OF coreD(3) [OF c(1)] heap_invD(4) [OF g(1)] t _ _ t]) (use al n e in \<open>auto simp: no_adjacent_def\<close>)
  have "\<exists>s' fl'. insert_free_block ?b (grown n s\<lparr>word := ?w\<rparr>) = Some s' \<and> heap_inv s' (?B - {(?b, n, True)} \<union> {(?b, n, False)}) fl' \<and>
      kept (?B - {(?b, n, True)}) (grown n s) s' \<and> only ({?b - 4, ?b + n - 8} \<union> lks (insert ?b (frees ?B))) (grown n s) s'"
  proof (rule heap_insert [OF g(1) t _ _ t, where w = ?w and T = "{?b - 4, ?b + n - 8}"])
    show "blocks_ok ?w {(?b, n, False)}" using n coreD(2) [OF c(2)] by (simp add: blocks_ok_def)
  qed (use n to nf na in \<open>auto simp: frees_simps grown_def split: if_splits\<close>)
  then obtain s' fl' where r: "insert_free_block ?b (grown n s\<lparr>word := ?w\<rparr>) = Some s'"
      "heap_inv s' (?B - {(?b, n, True)} \<union> {(?b, n, False)}) fl'" "kept (?B - {(?b, n, True)}) (grown n s) s'"
      "mem_brk s' = mem_brk (grown n s)"
    unfolding only_def by blast
  have "extended s B ?b n s'" by (rule extendedI [OF r(2) _ _ g(3) _ _ g(2) r(3)]) (simp_all add: allocs_simps)
  then show ?thesis unfolding st using r(1,4) by (auto simp: grown_def)
qed

lemma extend_merge:
  assumes h: "heap_inv s B fl" and n: "8 dvd n" "16 \<le> n" "mem_brk s + n \<le> MAX_HEAP"
    and q: "(q, m, False) \<in> B" "q + m = mem_brk s"
  shows "extended s B q (m + n) (s\<lparr>mem_brk := mem_brk s + n,
      word := (word s)(q - 4 := tag (m + n) False, q + (m + n) - 8 := tag (m + n) False, q + (m + n) - 4 := 1)\<rparr>)"
proof -
  let ?b = "mem_brk s"
  let ?w = "(word s)(q - 4 := tag (m + n) False, q + (m + n) - 8 := tag (m + n) False, q + (m + n) - 4 := 1)"
  let ?B = "B \<union> {(?b, n, True)}" and ?D = "{(q, m, False), (?b, n, True)}" and ?C = "{(q, m + n, False)}"
  note g = heap_grown [OF h n]
  have st: "s\<lparr>mem_brk := ?b + n, word := ?w\<rparr> = grown n s\<lparr>word := ?w\<rparr>" by (simp add: grown_def)
  have b: "(?b, n, True) \<in> ?B" "(q, m, False) \<in> ?B" using q by simp_all
  note c = heap_invD(1) [OF g(1)] heap_invD(1) [OF h]
  note cb = core_block [OF c(2) q(1)]
  note to = tag_out [OF c(1) b(1)] tag_out [OF c(1) b(2)]
  have tD: "tiling q (q + m + n) ?D"
    using tiling_append [OF tiling_single [of m q False] tiling_single [of n "q + m" True]] cb n q
    by (simp add: insert_commute)
  have tC: "tiling q (q + m + n) ?C" using tiling_single [of "m + n" q False] cb n by (simp add: add.assoc)
  have e: "(y, k, False) \<notin> ?B" if "y \<ge> ?b" for y k using core_block [OF c(2), of y k False] that by auto
  have na: "no_adjacent (?B - ?D \<union> ?C)"
    by (rule no_adjacent_change [OF coreD(3) [OF c(1)] heap_invD(4) [OF g(1)] tD _ _ tC])
      (use no_adjacentD [OF heap_invD(4) [OF h]] q n e cb in \<open>auto simp: no_adjacent_def\<close>)
  have r: "heap_inv (grown n s\<lparr>word := ?w\<rparr>) (?B - ?D \<union> ?C) fl \<and> kept (?B - ?D) (grown n s) (grown n s\<lparr>word := ?w\<rparr>)"
  proof (rule heap_keep [OF g(1) tD _ _ tC, where T = "{q - 4, q + m - 4, q + m + n - 8}"])
    show "blocks_ok ?w ?C" using n cb by (simp add: blocks_ok_def)
    show "a \<in> {q - 4, q + m - 4, q + m + n - 8}" if "?w a \<noteq> word (grown n s) a" for a
      using that q coreD(7) [OF c(2)] by (auto simp: grown_def add.assoc split: if_splits)
  qed (use n to na cb q in \<open>auto simp: frees_simps add.assoc split: if_splits\<close>)
  show ?thesis
    unfolding st
    by (rule extendedI [OF conjunct1 [OF r] _ _ g(3) _ _ g(2) conjunct2 [OF r]]) (simp_all add: allocs_simps)
qed

lemma extend_heap_ok:
  assumes h: "heap_inv s B fl" and n: "n = 4 * words" "8 dvd n" "16 \<le> n" "n < 2 ^ 31"
  shows "if mem_brk s + n \<le> MAX_HEAP
    then \<exists>bp k s'. extend_heap words s = Some (Some bp, s') \<and> extended s B bp k s' \<and> n \<le> k \<and> mem_brk s' = mem_brk s + n
    else extend_heap words s = Some (None, s)"
proof (cases "mem_brk s + n \<le> MAX_HEAP")
  case False
  have "mem_sbrk (to_int n) s = (None, s)" using False n by (simp add: int_ok_def mem_sbrk_def)
  then show ?thesis using False n by (simp add: extend_heap_def Let_def u64_def mult.commute)
next
  case True
  let ?b = "mem_brk s" and ?s = "s\<lparr>mem_brk := mem_brk s + n\<rparr>"
  note c = heap_invD(1) [OF h]
  note cd = coreD [OF c]
  have sz: "u64 (words * 4) = n" using n by (simp add: u64_def mult.commute)
  have sb: "mem_sbrk (to_int n) s = (Some ?b, ?s)" using True n by (simp add: int_ok_def mem_sbrk_def)
  have ins: "in_heap (?b - 4) ?s" "in_heap (?b - 8) ?s" "in_heap (?b + n - 8) ?s" "in_heap (?b + n - 4) ?s"
    using cd n by (auto simp: in_heap_def; presburger)+
  have inw: "in_heap p (s\<lparr>mem_brk := k, word := w\<rparr>) = in_heap p (s\<lparr>mem_brk := k\<rparr>)" for p w k by (simp add: in_heap_def)
  have n32: "tag n False mod 4294967296 = tag n False" using n by simp
  let ?new = "s\<lparr>mem_brk := mem_brk s + n,
      word := (word s)(mem_brk s - 4 := tag n False, mem_brk s + n - 8 := tag n False, mem_brk s + n - 4 := 1)\<rparr>"
  have t01: "tag 0 True = 1" by (simp add: tag_def)
  consider (al) m where "word s (?b - 8) = tag m True" "in_heap (?b - m - 4) ?s" "word s (?b - m - 4) AND 1 = 1" "8 dvd m"
      "\<And>q m. (q, m, False) \<in> B \<Longrightarrow> q + m \<noteq> ?b"
    | (fr) q m where "(q, m, False) \<in> B" "q + m = ?b"
  proof (cases "\<exists>q m. (q, m, False) \<in> B \<and> q + m = ?b")
    case False
    show ?thesis
    proof (cases "?b = 16")
      case True
      then show ?thesis using False al [of 8] cd n by (auto simp: tag_def in_heap_def)
    next
      case b: False
      then have "16 < ?b" using cd(9) by simp
      then obtain q m a where q1: "(q, m, a) \<in> B" "q + m = ?b"
        using tiling_prev [OF cd(3), of ?b 0 False] by blast
      then have q: "(q, m, True) \<in> B" "q + m = ?b" using False by (cases a; auto)+
      note cb = core_block [OF c q(1)]
      have q': "?b - m = q" using q by simp
      have "in_heap (q - 4) ?s" using core_in(1) [OF c q(1), of 0] n cb by (simp add: in_heap_def)
      then show ?thesis using False al [of m] cb q(2) unfolding q' by (force simp: algebra_simps)
    qed
  qed (use fr in blast)
  then show ?thesis
  proof cases
    case al
    have "extend_heap words s = do { s \<leftarrow> insert_free_block ?b ?new; Some (Some ?b, s) }"
      using sz sb ins al(1-4) n n32 t01
      by (simp add: extend_heap_def Let_def PREV_BLKP_def GET_SIZE_def GET_ALLOC_def inw PUT_FTR_def FTRP_def NEXT_BLKP_def)
    moreover obtain s' where s': "insert_free_block ?b ?new = Some s'" "extended s B ?b n s'" "mem_brk s' = ?b + n"
      using extend_new [OF h n(2,3) True al(5)] by blast
    ultimately show ?thesis using True by auto
  next
    case fr
    note cb = core_block [OF c fr(1)]
    have k: "8 dvd m + n" "0 \<le> m + n" "m + n < 2 ^ 31" using cb n True by (auto simp: MAX_HEAP_def)
    have k2: "u64 (n + m) = m + n" "q = ?b - m" using k fr by (simp_all add: u64_def add.commute)
    have ins': "in_heap (?b - m - 4) ?s" "word s (?b - 8) = tag m False" "word s (?b - m - 4) = tag m False"
      using cb k2(2) n core_in(1) [OF c fr(1), of 0] by (auto simp: in_heap_def)
    have "extend_heap words s = Some (Some q, s\<lparr>mem_brk := mem_brk s + n,
      word := (word s)(q - 4 := tag (m + n) False, q + (m + n) - 8 := tag (m + n) False, q + (m + n) - 4 := 1)\<rparr>)"
      using sz sb ins ins' k k2 n t01 cb(4)
      by (simp add: extend_heap_def Let_def PREV_BLKP_def GET_SIZE_def GET_ALLOC_def inw PUT_FTR_def FTRP_def NEXT_BLKP_def)
    then show ?thesis using extend_merge [OF h n(2,3) True fr(1,2)] True cb by force
  qed
qed

end
