(* ===== verification/Mm_Ops.thy ===== *)
theory Mm_Ops
  imports Mm_Core
begin

text \<open>
  What \<^verbatim>\<open>mm_init\<close>, \<^verbatim>\<open>mm_malloc\<close>, \<^verbatim>\<open>mm_free\<close> and \<^verbatim>\<open>mm_realloc\<close> of \<^verbatim>\<open>lab7/mm.c\<close> promise.
\<close>

lemma kept_allocs: "kept B s t \<Longrightarrow> allocs C \<subseteq> allocs B \<Longrightarrow> kept C s t"
  unfolding kept_def allocs_def by blast

section \<open>The search\<close>

definition blk_size :: "mm \<Rightarrow> int \<Rightarrow> int" where
  "blk_size s b = word s (b - 4) AND NOT 7"

lemma find_from_list:
  "flist s (xs @ ys) \<Longrightarrow> find_from sz (if ys = [] then None else Some (hd ys)) s = Some (find (\<lambda>b. sz \<le> blk_size s b) ys)"
proof (induction ys arbitrary: xs)
  case Nil
  show ?case by (subst find_from.simps) simp
next
  case (Cons b ys)
  have l: "flist s (xs @ b # ys)" using Cons.prems .
  have "node_ok s b" using flist_middle(5) [OF l] .
  then have "in_heap (b - 4) s" by (auto simp: node_ok_def in_heap_def; presburger)
  moreover have "find_from sz (if ys = [] then None else Some (hd ys)) s = Some (find (\<lambda>b. sz \<le> blk_size s b) ys)"
    using Cons.IH [of "xs @ [b]"] l by simp
  ultimately show ?case using next_free_val [OF l] by (subst find_from.simps) (simp add: GET_SIZE_def blk_size_def)
qed

lemma find_fit_list: "flist s fl \<Longrightarrow> find_fit sz s = Some (find (\<lambda>b. sz \<le> blk_size s b) fl)"
  using find_from_list [of s "[]" fl sz] by (cases "fl = []") (simp_all add: find_fit_def flist_def)

lemma blk_size_block: "core s B \<Longrightarrow> (p, n, a) \<in> B \<Longrightarrow> blk_size s p = n"
  using core_block by (simp add: blk_size_def)

lemma find_fit_block:
  assumes h: "heap_inv s B fl"
  shows "(find_fit sz s = Some None \<and> (\<forall>p n. (p, n, False) \<in> B \<longrightarrow> n < sz)) \<or>
    (\<exists>p n. find_fit sz s = Some (Some p) \<and> (p, n, False) \<in> B \<and> sz \<le> n)"
proof (cases "find (\<lambda>b. sz \<le> blk_size s b) fl")
  case None
  then have "\<forall>p \<in> set fl. blk_size s p < sz" by (auto simp: find_None_iff)
  then show ?thesis
    using find_fit_list [OF heap_invD(2) [OF h], of sz] None heap_invD(3) [OF h] blk_size_block [OF heap_invD(1) [OF h]]
    by (auto simp: frees_def)
next
  case (Some p)
  then have "p \<in> set fl" "sz \<le> blk_size s p" by (auto simp: find_Some_iff)
  then show ?thesis
    using find_fit_list [OF heap_invD(2) [OF h], of sz] Some heap_invD(3) [OF h] blk_size_block [OF heap_invD(1) [OF h]]
    by (auto simp: frees_def)
qed

section \<open>\<^verbatim>\<open>mm_malloc\<close>\<close>

text \<open>The block sizes that \<^verbatim>\<open>mm_malloc\<close> works with.\<close>

definition request :: "int \<Rightarrow> int" where
  "request n = adjust (if n = 448 then 512 else if n = 112 then 128 else n)"

lemma adjust_ok:
  assumes "0 < n" and "n < 2 ^ 31 - 16"
  shows "8 dvd adjust n" "16 \<le> adjust n" "n + 8 \<le> adjust n" "adjust n < n + 16" "adjust n < 2 ^ 31"
proof -
  have "adjust n = 8 * ((n + 15) div 8)" using assms by (simp add: adjust_def u64_def)
  then show "8 dvd adjust n" "16 \<le> adjust n" "n + 8 \<le> adjust n" "adjust n < n + 16" "adjust n < 2 ^ 31"
    using assms by simp_all
qed

lemma request_ok:
  assumes "0 < n" and "n < 2 ^ 31 - 16"
  shows "8 dvd request n" "16 \<le> request n" "n + 8 \<le> request n" "request n < 2 ^ 31"
  using adjust_ok [OF assms] adjust_ok [of 512] adjust_ok [of 128] by (auto simp: request_def)

definition malloc_result :: "int \<Rightarrow> mm \<Rightarrow> block set \<Rightarrow> int option \<Rightarrow> mm \<Rightarrow> bool" where
  "malloc_result n s B r s' \<longleftrightarrow> (case r of
      None \<Rightarrow> s' = s \<and> (\<forall>p k. (p, k, False) \<in> B \<longrightarrow> k < request n) \<and> mem_brk s + max (request n) CHUNKSIZE > MAX_HEAP
    | Some q \<Rightarrow> mem_brk s' \<le> mem_brk s + max (request n) CHUNKSIZE \<and> (\<exists>m. obtained s B q m s' \<and> request n \<le> m))"

lemma mm_malloc_ok:
  assumes h: "heap_inv s B fl" and n: "0 < n" "n < 2 ^ 31 - 16"
  shows "\<exists>r s'. mm_malloc n s = Some (r, s') \<and> malloc_result n s B r s'"
proof -
  note rq = request_ok [OF n]
  let ?e = "if request n > CHUNKSIZE then request n else CHUNKSIZE"
  have e: "8 dvd ?e" "16 \<le> ?e" "?e < 2 ^ 31" "?e = 4 * (?e div 4)" using rq by auto
  have mal: "mm_malloc n s = do {
          fit \<leftarrow> find_fit (request n) s;
          (case fit of
             Some bp \<Rightarrow> do { (bp, s) \<leftarrow> place bp (request n) s; Some (Some bp, s) }
           | None \<Rightarrow> do {
               (bp, s) \<leftarrow> extend_heap (?e div 4) s;
               (case bp of
                  None \<Rightarrow> Some (None, s)
                | Some bp \<Rightarrow> do { (bp, s) \<leftarrow> place bp (request n) s; Some (Some bp, s) })
             })
        }"
  proof -
    have rq_eq: "adjust (if (if n = 448 then 512 else n) = 112 then 128 else if n = 448 then 512 else n) = request n"
      by (simp add: request_def)
    have "(n = 0) = False" using n by simp
    then show ?thesis by (simp only: mm_malloc_def Let_def rq_eq if_False WSIZE_def)
  qed
  consider (fit) p k where "find_fit (request n) s = Some (Some p)" "(p, k, False) \<in> B" "request n \<le> k"
    | (no) "find_fit (request n) s = Some None" "\<forall>p k. (p, k, False) \<in> B \<longrightarrow> k < request n"
    using find_fit_block [OF h, of "request n"] by blast
  then show ?thesis
  proof cases
    case fit
    then obtain q m s' where "place p (request n) s = Some (q, s')" "obtained s B q m s'" "request n \<le> m" "mem_brk s' = mem_brk s"
      using place_ok [OF h fit(2) rq(1,2) fit(3)] by blast
    then show ?thesis using fit(1) unfolding mal by (auto simp: malloc_result_def)
  next
    case no
    note ex = extend_heap_ok [OF h e(4,1,2,3)]
    show ?thesis
    proof (cases "mem_brk s + ?e \<le> MAX_HEAP")
      case True
      then obtain bp k t where t: "extend_heap (?e div 4) s = Some (Some bp, t)" "extended s B bp k t" "?e \<le> k"
          "mem_brk t = mem_brk s + ?e"
        using ex by (auto simp del: One_nat_def)
      then obtain B' fl' where B': "heap_inv t B' fl'" "(bp, k, False) \<in> B'" "allocs B' = allocs B" "kept B s t"
        unfolding extended_def by blast
      obtain q m s' where s': "place bp (request n) t = Some (q, s')" "obtained t B' q m s'" "request n \<le> m"
          "mem_brk s' = mem_brk t"
        using place_ok [OF B'(1,2) rq(1,2)] t(3) rq by (auto split: if_splits)
      have "kept B s s'"
        using s'(2) B'(3) kept_allocs [of B' t s' B] unfolding obtained_def by (intro kept_trans [OF B'(4)]) auto
      then have "obtained s B q m s'" using s'(2) B'(3) by (simp add: obtained_def)
      moreover have "mem_brk s' \<le> mem_brk s + max (request n) CHUNKSIZE" using s'(4) t(4) by (simp add: max_def)
      ultimately show ?thesis using no(1) t(1) s'(1,3) unfolding mal by (auto simp: malloc_result_def)
    next
      case False
      then show ?thesis using ex no unfolding mal by (auto simp: malloc_result_def max_def split: if_splits)
    qed
  qed
qed

section \<open>\<^verbatim>\<open>mm_free\<close>\<close>

text \<open>The neighbours of a block, as the code reads them; the prologue and the epilogue count as allocated.\<close>

definition before :: "mm \<Rightarrow> block set \<Rightarrow> int \<Rightarrow> int \<Rightarrow> bool \<Rightarrow> bool" where
  "before s B p m a \<longleftrightarrow> word s (p - 8) = tag m a \<and> word s (p - m - 4) = tag m a \<and> in_heap (p - m - 4) s \<and> 8 dvd m \<and> 8 \<le> m \<and>
     p - m - 4 < p - 8 \<and> (if a then \<forall>q k. (q, k, False) \<in> B \<longrightarrow> q + k \<noteq> p else (p - m, m, False) \<in> B)"

definition behind :: "mm \<Rightarrow> block set \<Rightarrow> int \<Rightarrow> int \<Rightarrow> bool \<Rightarrow> bool" where
  "behind s B y k a \<longleftrightarrow> word s (y - 4) = tag k a \<and> 8 dvd k \<and> (if a then \<forall>j. (y, j, False) \<notin> B else (y, k, False) \<in> B)"

lemma before_ex:
  assumes c: "core s B" and b: "(p, n, a) \<in> B"
  shows "\<exists>m a. before s B p m a"
proof (cases "p = 16")
  case True
  have "before s B 16 8 True"
    using coreD(5,6,9) [OF c] core_block(1,3) [OF c, of _ _ False] by (fastforce simp: before_def tag_def in_heap_def)
  then show ?thesis using True by blast
next
  case False
  then have "16 < p" using core_block(1) [OF c b] by simp
  then obtain q m a' where q: "(q, m, a') \<in> B" "q + m = p" using tiling_prev [OF coreD(3) [OF c] _ disjI1 [OF b]] by blast
  note cq = core_block [OF c q(1)]
  have q': "p - m = q" "p - 8 = q + m - 8" using q by auto
  have "r + k \<noteq> p" if "a'" "(r, k, False) \<in> B" for r k
    using tiling_disjoint [OF coreD(3) [OF c] q(1) that(2)] core_block(3) [OF c that(2)] cq(3) that q(2) by auto
  moreover have "in_heap (q - 4) s" using core_in(1) [OF c q(1), of 0] cq by simp
  ultimately have "before s B p m a'" using cq q(1) unfolding before_def q' by auto
  then show ?thesis by blast
qed

lemma behind_ex:
  assumes c: "core s B" and b: "(p, n, a) \<in> B"
  shows "\<exists>k a. behind s B (p + n) k a"
proof -
  consider "p + n = mem_brk s" "word s (p + n - 4) = tag 0 True" | k a where "(p + n, k, a) \<in> B" "word s (p + n - 4) = tag k a"
    using next_tag [OF c b] by blast
  then show ?thesis
  proof cases
    case 1
    have "(p + n, j, False) \<notin> B" for j using core_block(3,5) [OF c, of "p + n" j False] 1(1) by auto
    then have "behind s B (p + n) 0 True" using 1 by (simp add: behind_def)
    then show ?thesis by blast
  next
    case 2
    have "(p + n, j, False) \<notin> B" if "a" for j using tiling_unique [OF coreD(3) [OF c] 2(1), of j False] that by blast
    then have "behind s B (p + n) k a" using core_block(4) [OF c 2(1)] 2 by (cases a) (simp_all add: behind_def)
    then show ?thesis by blast
  qed
qed

text \<open>What \<^verbatim>\<open>coalesce\<close> reads.\<close>

definition unalloc :: "int \<Rightarrow> int \<Rightarrow> mm \<Rightarrow> mm" where
  "unalloc p n s = s\<lparr>word := (word s)(p - 4 := tag n False, p + n - 8 := tag n False)\<rparr>"

lemma unalloc_put:
  assumes c: "core s B" and b: "(p, n, True) \<in> B"
  shows "mm_free p s = do { (_, s) \<leftarrow> coalesce p (unalloc p n s); Some s }"
  using core_in [OF c b, of 0] core_in [OF c b, of n] core_block [OF c b]
  by (simp add: mm_free_def unalloc_def GET_SIZE_def PUT_FTR_def FTRP_def)

lemma coalesce_reads:
  assumes c: "core s B" and b: "(p, n, True) \<in> B" and m: "before s B p m pa" and k: "behind s B (p + n) k na"
  shows "PREV_BLKP p (unalloc p n s) = Some (p - m)" "FTRP (p - m) (unalloc p n s) = Some (p - 8)"
    "GET_ALLOC (p - 8) (unalloc p n s) = Some (of_bool pa)" "NEXT_BLKP p (unalloc p n s) = Some (p + n)"
    "GET_ALLOC (p + n - 4) (unalloc p n s) = Some (of_bool na)" "GET_SIZE (p - 4) (unalloc p n s) = Some n"
    "GET_SIZE (p - m - 4) (unalloc p n s) = Some m" "GET_SIZE (p + n - 4) (unalloc p n s) = Some k"
  using core_in [OF c b, of 0] core_in [OF c b, of n] core_block [OF c b] m k
  by (auto simp: before_def behind_def unalloc_def GET_SIZE_def GET_ALLOC_def PREV_BLKP_def NEXT_BLKP_def FTRP_def)

definition freed :: "mm \<Rightarrow> block set \<Rightarrow> int \<Rightarrow> int \<Rightarrow> mm \<Rightarrow> bool" where
  "freed s B p n s' \<longleftrightarrow> (\<exists>B' fl'. heap_inv s' B' fl' \<and> allocs B' = allocs B - {(p, n)}) \<and> kept (B - {(p, n, True)}) s s' \<and> mem_brk s' = mem_brk s"

lemma freedI:
  assumes "heap_inv s' (B - D \<union> C) fl'" and "allocs D = {(p, n)}" and "allocs C = {}" and "kept (B - D) s s'" and "mem_brk s' = mem_brk s"
  shows "freed s B p n s'"
proof -
  have "allocs (B - {(p, n, True)}) \<subseteq> allocs (B - D)" using assms(2) by (auto simp: allocs_def)
  then have "kept (B - {(p, n, True)}) s s'" using kept_allocs [OF assms(4)] by blast
  moreover have "allocs (B - D \<union> C) = allocs B - {(p, n)}" using allocs_swap [of B D C] assms(2,3) by simp
  ultimately show ?thesis unfolding freed_def using assms(1,5) by blast
qed

lemma free_alone:
  assumes h: "heap_inv s B fl" and b: "(p, n, True) \<in> B"
    and l: "\<And>q k. (q, k, False) \<in> B \<Longrightarrow> q + k \<noteq> p" and r: "\<And>k. (p + n, k, False) \<notin> B"
  shows "\<exists>s'. insert_free_block p (unalloc p n s) = Some s' \<and> freed s B p n s'"
proof -
  let ?w = "(word s)(p - 4 := tag n False, p + n - 8 := tag n False)"
  note c = heap_invD(1) [OF h]
  note cb = core_block [OF c b] and to = tag_out [OF c b]
  have t: "tiling p (p + n) {(p, n, a)}" for a using cb tiling_single by simp
  have nf: "p \<notin> frees B" "p + 4 \<notin> lks (frees B)" "p \<notin> lks (frees B)"
    using payload_out [OF c b, of p] payload_out [OF c b, of "p + 4"] cb by (auto simp: lks_def)
  have na: "no_adjacent (B - {(p, n, True)} \<union> {(p, n, False)})"
    by (rule no_adjacent_change [OF coreD(3) [OF c] heap_invD(4) [OF h] t _ _ t]) (use b l r cb in \<open>auto simp: no_adjacent_def\<close>)
  have "\<exists>s' fl'. insert_free_block p (s\<lparr>word := ?w\<rparr>) = Some s' \<and> heap_inv s' (B - {(p, n, True)} \<union> {(p, n, False)}) fl' \<and>
      kept (B - {(p, n, True)}) s s' \<and> only ({p - 4, p + n - 8} \<union> lks (insert p (frees B))) s s'"
  proof (rule heap_insert [OF h t _ _ t, where w = ?w and T = "{p - 4, p + n - 8}"])
    show "blocks_ok ?w {(p, n, False)}" using cb by (simp add: blocks_ok_def)
  qed (use cb to nf na b in \<open>auto simp: frees_simps split: if_splits\<close>)
  then show ?thesis unfolding unalloc_def [symmetric] using freedI [of _ B "{(p, n, True)}" "{(p, n, False)}"]
    by (auto simp: allocs_simps only_def)
qed

lemma free_next:
  assumes h: "heap_inv s B fl" and b: "(p, n, True) \<in> B" and k: "(p + n, k, False) \<in> B"
    and l: "\<And>q k. (q, k, False) \<in> B \<Longrightarrow> q + k \<noteq> p"
  shows "\<exists>s'. replace_free_block (p + n) p (unalloc p n s\<lparr>word := (word (unalloc p n s))(p - 4 := tag (n + k) False, p + (n + k) - 8 := tag (n + k) False)\<rparr>)
      = Some s' \<and> freed s B p n s'"
proof -
  let ?w = "(word (unalloc p n s))(p - 4 := tag (n + k) False, p + (n + k) - 8 := tag (n + k) False)"
  let ?D = "{(p, n, True), (p + n, k, False)}" and ?C = "{(p, n + k, False)}"
  note c = heap_invD(1) [OF h]
  note cb = core_block [OF c b] and ck = core_block [OF c k] and to = tag_out [OF c b] tag_out [OF c k]
  have st: "unalloc p n s\<lparr>word := ?w\<rparr> = s\<lparr>word := ?w\<rparr>" by (simp add: unalloc_def)
  have tD: "tiling p (p + n + k) ?D"
    using tiling_append [OF tiling_single [of n p True] tiling_single [of k "p + n" False]] cb ck by (simp add: insert_commute)
  have tC: "tiling p (p + n + k) ?C" using tiling_single [of "n + k" p False] cb ck by (simp add: add.assoc)
  have nf: "p \<notin> frees B" "p + 4 \<notin> lks (frees B)" "p \<notin> lks (frees B)"
    using payload_out [OF c b, of p] payload_out [OF c b, of "p + 4"] cb by (auto simp: lks_def)
  have na: "no_adjacent (B - ?D \<union> ?C)"
    by (rule no_adjacent_change [OF coreD(3) [OF c] heap_invD(4) [OF h] tD _ _ tC])
      (use b k l cb ck no_adjacentD [OF heap_invD(4) [OF h] k] in \<open>auto simp: no_adjacent_def\<close>)
  have "\<exists>s' fl'. replace_free_block (p + n) p (s\<lparr>word := ?w\<rparr>) = Some s' \<and> heap_inv s' (B - ?D \<union> ?C) fl' \<and>
      kept (B - ?D) s s' \<and> only ({p - 4, p + n - 8, p + (n + k) - 8} \<union> lks (insert p (frees B))) s s'"
  proof (rule heap_replace [OF h tD _ _ tC, where w = ?w and T = "{p - 4, p + n - 8, p + (n + k) - 8}"])
    show "blocks_ok ?w ?C" using cb ck by (simp add: blocks_ok_def)
  qed (use cb ck to nf na b k in \<open>auto simp: frees_simps unalloc_def add.assoc split: if_splits\<close>)
  then show ?thesis unfolding st using freedI [of _ B ?D ?C] by (auto simp: allocs_simps only_def)
qed

lemma free_prev:
  assumes h: "heap_inv s B fl" and b: "(q + m, n, True) \<in> B" and q: "(q, m, False) \<in> B"
    and r: "\<And>k. (q + m + n, k, False) \<notin> B"
  shows "freed s B (q + m) n (unalloc (q + m) n s\<lparr>word := (word (unalloc (q + m) n s))(q - 4 := tag (n + m) False, q + (n + m) - 8 := tag (n + m) False)\<rparr>)"
proof -
  let ?w = "(word (unalloc (q + m) n s))(q - 4 := tag (n + m) False, q + (n + m) - 8 := tag (n + m) False)"
  let ?D = "{(q, m, False), (q + m, n, True)}" and ?C = "{(q, n + m, False)}"
  note c = heap_invD(1) [OF h]
  note cb = core_block [OF c b] and cq = core_block [OF c q] and to = tag_out [OF c b] tag_out [OF c q]
  have st: "unalloc (q + m) n s\<lparr>word := ?w\<rparr> = s\<lparr>word := ?w\<rparr>" by (simp add: unalloc_def)
  have tD: "tiling q (q + m + n) ?D"
    using tiling_append [OF tiling_single [of m q False] tiling_single [of n "q + m" True]] cb cq by (simp add: insert_commute)
  have tC: "tiling q (q + m + n) ?C" using tiling_single [of "n + m" q False] cb cq by (simp add: algebra_simps)
  have na: "no_adjacent (B - ?D \<union> ?C)"
    by (rule no_adjacent_change [OF coreD(3) [OF c] heap_invD(4) [OF h] tD _ _ tC])
      (use b q r cb cq no_adjacentD [OF heap_invD(4) [OF h]] in \<open>auto simp: no_adjacent_def\<close>)
  have "heap_inv (s\<lparr>word := ?w\<rparr>) (B - ?D \<union> ?C) fl \<and> kept (B - ?D) s (s\<lparr>word := ?w\<rparr>)"
  proof (rule heap_keep [OF h tD _ _ tC, where w = ?w and T = "{q - 4, q + m - 4, q + m + n - 8}"])
    show "blocks_ok ?w ?C" using cb cq by (simp add: blocks_ok_def)
    show "a \<notin> lks (frees B) \<and> q - 4 \<le> a \<and> a < q + m + n - 4" if "a \<in> {q - 4, q + m - 4, q + m + n - 8}" for a
      using that to cb cq by auto
  qed (use cb cq na b q in \<open>auto simp: frees_simps unalloc_def algebra_simps split: if_splits\<close>)
  then show ?thesis unfolding st using freedI [of _ B ?D ?C] by (auto simp: allocs_simps only_def)
qed

lemma free_both:
  assumes h: "heap_inv s B fl" and b: "(q + m, n, True) \<in> B" and q: "(q, m, False) \<in> B" and k: "(q + m + n, k, False) \<in> B"
  defines "w \<equiv> (word (unalloc (q + m) n s))(q - 4 := tag (n + (m + k)) False, q + m + n + k - 8 := tag (n + (m + k)) False)"
  shows "\<exists>s'. remove_free_block (q + m + n) (unalloc (q + m) n s\<lparr>word := w\<rparr>) = Some s' \<and> freed s B (q + m) n s'"
proof -
  let ?D = "{(q, m, False), (q + m, n, True), (q + m + n, k, False)}" and ?C = "{(q, n + (m + k), False)}"
  note c = heap_invD(1) [OF h]
  note cb = core_block [OF c b] and cq = core_block [OF c q] and ck = core_block [OF c k]
  note to = tag_out [OF c b] tag_out [OF c q] tag_out [OF c k]
  have st: "unalloc (q + m) n s\<lparr>word := w\<rparr> = s\<lparr>word := w\<rparr>" by (simp add: unalloc_def)
  have tD: "tiling q (q + m + n + k) ?D"
    using tiling_append [OF tiling_append [OF tiling_single [of m q False] tiling_single [of n "q + m" True]] tiling_single [of k _ False]]
      cb cq ck by (simp add: insert_commute)
  have tC: "tiling q (q + m + n + k) ?C" using tiling_single [of "n + (m + k)" q False] cb cq ck by (simp add: algebra_simps)
  have na: "no_adjacent (B - ?D \<union> ?C)"
    by (rule no_adjacent_change [OF coreD(3) [OF c] heap_invD(4) [OF h] tD _ _ tC])
      (use b q k cb cq ck no_adjacentD [OF heap_invD(4) [OF h]] in \<open>auto simp: no_adjacent_def\<close>)
  have "\<exists>s' fl'. remove_free_block (q + m + n) (s\<lparr>word := w\<rparr>) = Some s' \<and> heap_inv s' (B - ?D \<union> ?C) fl' \<and>
      kept (B - ?D) s s' \<and> only ({q - 4, q + m - 4, q + m + n - 8, q + m + n + k - 8} \<union> lks (frees B)) s s'"
  proof (rule heap_remove [OF h tD _ _ tC, where w = w and T = "{q - 4, q + m - 4, q + m + n - 8, q + m + n + k - 8}"])
    show "blocks_ok w ?C" using cb cq ck by (simp add: blocks_ok_def w_def algebra_simps)
    show "a \<in> {q - 4, q + m - 4, q + m + n - 8, q + m + n + k - 8}" if "w a \<noteq> word s a" for a
      using that by (auto simp: w_def unalloc_def split: if_splits)
    show "a \<notin> lks (frees B) \<and> q - 4 \<le> a \<and> a < q + m + n + k - 4"
      if "a \<in> {q - 4, q + m - 4, q + m + n - 8, q + m + n + k - 8}" for a
      using that to cb cq ck by auto
    show "{x - 4, x + l - 8} \<inter> lks (frees B) = {}" if "(x, l, a) \<in> ?C" for x l a
      using that to by (auto simp: add.assoc add.left_commute [of n])
  qed (use cb cq ck na b q k in \<open>auto simp: frees_simps algebra_simps split: if_splits\<close>)
  then show ?thesis unfolding st using freedI [of _ B ?D ?C] by (auto simp: allocs_simps only_def)
qed

lemma put_ftr_new:
  assumes "8 dvd n" and "in_heap (p - 4) t" and "in_heap (p + n - 8) t"
  shows "PUT_FTR p v (t\<lparr>word := w(p - 4 := tag n a)\<rparr>) = Some (t\<lparr>word := w(p - 4 := tag n a, p + n - 8 := v mod 2 ^ 32)\<rparr>)"
  using assms put_ftr [of "t\<lparr>word := w(p - 4 := tag n a)\<rparr>" p n a v] by simp

lemma mm_free_ok:
  assumes h: "heap_inv s B fl" and b: "(p, n, True) \<in> B"
  shows "\<exists>s'. mm_free p s = Some s' \<and> freed s B p n s'"
proof -
  note c = heap_invD(1) [OF h]
  note cb = core_block [OF c b]
  let ?t = "unalloc p n s"
  obtain m pa k na where m: "before s B p m pa" and k: "behind s B (p + n) k na"
    using before_ex [OF c b] behind_ex [OF c b] by blast
  note rd = coalesce_reads [OF c b m k]
  have inb: "in_heap a (s\<lparr>word := w\<rparr>) = in_heap a s" for a w by simp
  have int: "in_heap a ?t = in_heap a s" for a by (simp add: unalloc_def)
  have ins: "in_heap (p - 4) s" "in_heap (p + n - 8) s" using core_in [OF c b, of 0] core_in [OF c b, of n] cb by simp_all
  show ?thesis
  proof (cases pa; cases na)
    assume pa: "pa" and na: "na"
    have "coalesce p ?t = do { s \<leftarrow> insert_free_block p ?t; Some (p, s) }"
      using rd pa na by (simp add: coalesce_def)
    then show ?thesis
      using free_alone [OF h b] m k pa na unalloc_put [OF c b] by (auto simp: before_def behind_def)
  next
    assume pa: "pa" and na: "\<not> na"
    then have kb: "(p + n, k, False) \<in> B" using k by (simp add: behind_def)
    note ck = core_block [OF c kb]
    let ?w = "(word ?t)(p - 4 := tag (n + k) False, p + (n + k) - 8 := tag (n + k) False)"
    have nk: "u64 (n + k) = n + k" "8 dvd n + k" "tag (n + k) False mod 4294967296 = tag (n + k) False" "in_heap (p + (n + k) - 8) s"
      using cb ck coreD(1) [OF c] core_in(2) [OF c kb, of k] by (simp_all add: u64_def MAX_HEAP_def tag_def add.assoc)
    have "coalesce p ?t = do { s \<leftarrow> replace_free_block (p + n) p (?t\<lparr>word := ?w\<rparr>); Some (p, s) }"
      using rd pa na nk ins int put_ftr_new [of "n + k" p ?t] by (simp add: coalesce_def Let_def)
    then show ?thesis
      using free_next [OF h b kb] m pa unalloc_put [OF c b] by (auto simp: before_def)
  next
    assume pa: "\<not> pa" and na: "na"
    then have qb: "(p - m, m, False) \<in> B" using m by (simp add: before_def)
    note cq = core_block [OF c qb]
    let ?q = "p - m"
    let ?w = "(word ?t)(?q - 4 := tag (n + m) False, ?q + (n + m) - 8 := tag (n + m) False)"
    have nk: "u64 (n + m) = n + m" "8 dvd n + m" "tag (n + m) False mod 4294967296 = tag (n + m) False" "in_heap (?q - 4) s"
      using cb cq coreD(1) [OF c] core_in(1) [OF c qb, of 0] by (simp_all add: u64_def MAX_HEAP_def tag_def)
    have "coalesce p ?t = Some (?q, ?t\<lparr>word := ?w\<rparr>)"
      using rd pa na nk ins int put_ftr_new [of "n + m" ?q ?t] by (simp add: coalesce_def Let_def add.commute [of n])
    then show ?thesis
      using free_prev [of s B fl ?q m n] h b qb k na unalloc_put [OF c b] by (auto simp: behind_def)
  next
    assume pa: "\<not> pa" and na: "\<not> na"
    then have qb: "(p - m, m, False) \<in> B" and kb: "(p + n, k, False) \<in> B" using m k by (simp_all add: before_def behind_def)
    note cq = core_block [OF c qb] and ck = core_block [OF c kb]
    let ?q = "p - m"
    let ?w = "(word ?t)(?q - 4 := tag (n + (m + k)) False, ?q + m + n + k - 8 := tag (n + (m + k)) False)"
    have nk: "u64 (n + (m + k)) = n + (m + k)" "8 dvd n + (m + k)" "tag (n + (m + k)) False mod 4294967296 = tag (n + (m + k)) False"
      "in_heap (?q - 4) s" "in_heap (p + n + k - 8) s" "in_heap (p + n - 4) s"
      using cb cq ck coreD(1) [OF c] core_in(1) [OF c qb, of 0] core_in(2) [OF c kb, of k] core_in(1) [OF c kb, of 0]
      by (simp_all add: u64_def MAX_HEAP_def tag_def)
    have "coalesce p ?t = do { s \<leftarrow> remove_free_block (?q + m + n) (?t\<lparr>word := ?w\<rparr>); Some (?q, s) }"
    proof -
      have f: "FTRP (p + n) ?t = Some (p + n + k - 8)" "GET_SIZE (p + n + k - 8) ?t = Some k"
        using rd(8) ck cb nk(5) int by (simp_all add: FTRP_def GET_SIZE_def unalloc_def)
      have "word (?t\<lparr>word := (word ?t)(?q - 4 := v)\<rparr>) (p + n - 4) = tag k False" for v
        using ck cb cq by (simp add: unalloc_def)
      note pf = put_ftr [OF this ck(4)]
      show ?thesis
        using rd pa na nk ins int pf f by (simp add: coalesce_def Let_def)
    qed
    then show ?thesis
      using free_both [of s B fl ?q m n k] h b qb kb unalloc_put [OF c b] by auto
  qed
qed

end
