(* ===== verification/Mm_Realloc.thy ===== *)
theory Mm_Realloc
  imports Mm_Ops
begin

text \<open>
  \<^verbatim>\<open>mm_realloc\<close> of \<^verbatim>\<open>lab7/mm.c\<close>: shrinking and growing in place, and the move to a new block.
\<close>

text \<open>What a successful reallocation does: the block \<open>(p, n)\<close> becomes \<open>(q, m)\<close> with the same contents; the break moves
  by at most \<open>e\<close>.\<close>

definition resized :: "int \<Rightarrow> mm \<Rightarrow> block set \<Rightarrow> int \<Rightarrow> int \<Rightarrow> int \<Rightarrow> int \<Rightarrow> mm \<Rightarrow> bool" where
  "resized e s B p n q m s' \<longleftrightarrow> mem_brk s' \<le> mem_brk s + e \<and>
     (\<exists>B' fl'. heap_inv s' B' fl' \<and> allocs B' = insert (q, m) (allocs B - {(p, n)})) \<and> (q, m) \<notin> allocs B - {(p, n)} \<and>
     kept (B - {(p, n, True)}) s s' \<and>
     (\<forall>i. 0 \<le> i \<longrightarrow> i < min n m - 8 \<longrightarrow> 4 dvd i \<longrightarrow> word s' (q + i) = word s (p + i))"

lemma resizedI:
  assumes b: "(p, n, True) \<in> B" and h: "heap_inv s B fl" "heap_inv s' (B - D \<union> C) fl'" and D: "allocs D = {(p, n)}"
    and C: "allocs C = {(p, m)}" and k: "kept (B - D) s s'" and o: "only A s s'" "\<And>a. p \<le> a \<Longrightarrow> a < p + min n m - 8 \<Longrightarrow> a \<notin> A"
  shows "resized 0 s B p n p m s'"
proof -
  have "allocs (B - {(p, n, True)}) \<subseteq> allocs (B - D)" using D by (auto simp: allocs_def)
  then have "kept (B - {(p, n, True)}) s s'" using kept_allocs [OF k] by blast
  moreover have "(p, m) \<notin> allocs B - {(p, n)}"
    using tiling_unique [OF coreD(3) [OF heap_invD(1) [OF h(1)]] b] by (auto simp: allocs_def)
  moreover have "allocs (B - D \<union> C) = insert (p, m) (allocs B - {(p, n)})" using allocs_swap [of B D C] D C by simp
  moreover have "word s' (p + i) = word s (p + i)" if "0 \<le> i" "i < min n m - 8" for i
    using o(1) o(2) [of "p + i"] that by (simp add: only_def)
  moreover have "mem_brk s' \<le> mem_brk s + 0" using o(1) by (simp add: only_def)
  ultimately show ?thesis unfolding resized_def using h(2) by blast
qed

lemma tiling_two: "0 < n \<Longrightarrow> 0 < k \<Longrightarrow> y = p + n + k \<Longrightarrow> tiling p y {(p, n, a), (p + n, k, b)}"
  using tiling_append [OF tiling_single [of n p a] tiling_single [of k "p + n" b]] by (simp add: insert_commute)

lemma resized_mono: "resized 0 s B p n q m s' \<Longrightarrow> resized (max e CHUNKSIZE) s B p n q m s'"
  by (auto simp: resized_def)

section \<open>Shrinking\<close>

definition shrunk :: "int \<Rightarrow> int \<Rightarrow> int \<Rightarrow> mm \<Rightarrow> int \<Rightarrow> int" where
  "shrunk p a r s = (word s)(p - 4 := tag a True, p + a - 8 := tag a True, p + a - 4 := tag r False, p + a + r - 8 := tag r False)"

lemma blocks_ok_shrunk:
  "8 dvd p \<Longrightarrow> 8 dvd a \<Longrightarrow> 8 dvd r \<Longrightarrow> 16 \<le> a \<Longrightarrow> 16 \<le> r \<Longrightarrow> blocks_ok (shrunk p a r s) {(p, a, True), (p + a, r, False)}"
  by (auto simp: blocks_ok_def shrunk_def)

lemma shrink_next:
  assumes h: "heap_inv s B fl" and b: "(p, n, True) \<in> B" and k: "(p + n, k, False) \<in> B"
    and a: "8 dvd a" "16 \<le> a" "a + 16 \<le> n"
  shows "\<exists>s'. replace_free_block (p + n) (p + a) (s\<lparr>word := shrunk p a (n - a + k) s\<rparr>) = Some s' \<and> resized 0 s B p n p a s'"
proof -
  let ?D = "{(p, n, True), (p + n, k, False)}" and ?C = "{(p, a, True), (p + a, n - a + k, False)}"
  let ?w = "shrunk p a (n - a + k) s" and ?T = "{p - 4, p + a - 8, p + a - 4, p + n + k - 8}"
  note c = heap_invD(1) [OF h]
  note cb = core_block [OF c b] and ck = core_block [OF c k]
  note po = payload_out [OF c b]
  have tD: "tiling p (p + n + k) ?D" using cb ck by (intro tiling_two) auto
  have tC: "tiling p (p + n + k) ?C" using cb ck a by (intro tiling_two) auto
  have w: "z \<in> ?T" if "?w z \<noteq> word s z" for z using that by (auto simp: shrunk_def algebra_simps split: if_splits)
  have T: "z \<notin> lks (frees B) \<and> p - 4 \<le> z \<and> z < p + n + k - 4" if "z \<in> ?T" for z
    using that po [of z] tag_out [OF c k] cb ck a by auto
  have nf: "p + a \<notin> lks (frees B)" "p + a + 4 \<notin> lks (frees B)" using po a by simp_all
  have na: "no_adjacent (B - ?D \<union> ?C)"
    by (rule no_adjacent_change [OF coreD(3) [OF c] heap_invD(4) [OF h] tD _ _ tC])
      (use b k a cb ck no_adjacentD [OF heap_invD(4) [OF h] k] in \<open>auto simp: no_adjacent_def\<close>)
  have "\<exists>s' fl'. replace_free_block (p + n) (p + a) (s\<lparr>word := ?w\<rparr>) = Some s' \<and> heap_inv s' (B - ?D \<union> ?C) fl' \<and>
      kept (B - ?D) s s' \<and> only (?T \<union> lks (insert (p + a) (frees B))) s s'"
  proof (rule heap_replace [OF h tD _ _ tC w T])
    show "blocks_ok ?w ?C" using cb ck a by (intro blocks_ok_shrunk) simp_all
    show "{x - 4, x + l - 8} \<inter> lks (insert (p + a) (frees B)) = {}" if "(x, l, e) \<in> ?C" for x l e
      using that T [of "x - 4"] T [of "x + l - 8"] cb ck a by auto
    show "p + a \<notin> frees B" using nf by auto
  qed (use cb ck na b k a in \<open>auto simp: frees_simps\<close>)
  then obtain s' fl' where s': "replace_free_block (p + n) (p + a) (s\<lparr>word := ?w\<rparr>) = Some s'" "heap_inv s' (B - ?D \<union> ?C) fl'"
      "kept (B - ?D) s s'" "only (?T \<union> lks (insert (p + a) (frees B))) s s'" by blast
  have "resized 0 s B p n p a s'"
    by (rule resizedI [OF b h s'(2) _ _ s'(3,4)]) (use a cb ck po in \<open>auto simp: allocs_simps\<close>)
  then show ?thesis using s'(1) by blast
qed

lemma shrink_alone:
  assumes h: "heap_inv s B fl" and b: "(p, n, True) \<in> B" and k: "\<And>k. (p + n, k, False) \<notin> B"
    and a: "8 dvd a" "16 \<le> a" "a + 16 \<le> n"
  shows "\<exists>s'. insert_free_block (p + a) (s\<lparr>word := shrunk p a (n - a) s\<rparr>) = Some s' \<and> resized 0 s B p n p a s'"
proof -
  let ?D = "{(p, n, True)}" and ?C = "{(p, a, True), (p + a, n - a, False)}"
  let ?w = "shrunk p a (n - a) s" and ?T = "{p - 4, p + a - 8, p + a - 4, p + n - 8}"
  note c = heap_invD(1) [OF h]
  note cb = core_block [OF c b]
  note po = payload_out [OF c b]
  have tD: "tiling p (p + n) ?D" using cb tiling_single by simp
  have tC: "tiling p (p + n) ?C" using cb a by (intro tiling_two) auto
  have w: "z \<in> ?T" if "?w z \<noteq> word s z" for z using that by (auto simp: shrunk_def split: if_splits)
  have T: "z \<notin> lks (frees B) \<and> p - 4 \<le> z \<and> z < p + n - 4" if "z \<in> ?T" for z
    using that po [of z] cb a by auto
  have nf: "p + a \<notin> lks (frees B)" "p + a + 4 \<notin> lks (frees B)" using po a by simp_all
  have na: "no_adjacent (B - ?D \<union> ?C)"
    by (rule no_adjacent_change [OF coreD(3) [OF c] heap_invD(4) [OF h] tD _ _ tC])
      (use b k a cb in \<open>auto simp: no_adjacent_def\<close>)
  have "\<exists>s' fl'. insert_free_block (p + a) (s\<lparr>word := ?w\<rparr>) = Some s' \<and> heap_inv s' (B - ?D \<union> ?C) fl' \<and>
      kept (B - ?D) s s' \<and> only (?T \<union> lks (insert (p + a) (frees B))) s s'"
  proof (rule heap_insert [OF h tD _ _ tC w T])
    show "blocks_ok ?w ?C" using cb a by (intro blocks_ok_shrunk) simp_all
    show "{x - 4, x + l - 8} \<inter> lks (insert (p + a) (frees B)) = {}" if "(x, l, e) \<in> ?C" for x l e
      using that T [of "x - 4"] T [of "x + l - 8"] cb a by auto
    show "p + a \<notin> frees B" using nf by auto
  qed (use cb na b a in \<open>auto simp: frees_simps\<close>)
  then obtain s' fl' where s': "insert_free_block (p + a) (s\<lparr>word := ?w\<rparr>) = Some s'" "heap_inv s' (B - ?D \<union> ?C) fl'"
      "kept (B - ?D) s s'" "only (?T \<union> lks (insert (p + a) (frees B))) s s'" by blast
  have "resized 0 s B p n p a s'"
    by (rule resizedI [OF b h s'(2) _ _ s'(3,4)]) (use a cb po in \<open>auto simp: allocs_simps\<close>)
  then show ?thesis using s'(1) by blast
qed

lemma realloc_shrink_ok:
  assumes h: "heap_inv s B fl" and b: "(p, n, True) \<in> B" and a: "8 dvd a" "16 \<le> a" "a + 16 \<le> n"
  shows "\<exists>s'. realloc_shrink p a n s = Some s' \<and> resized 0 s B p n p a s'"
proof -
  note c = heap_invD(1) [OF h]
  note cb = core_block [OF c b]
  obtain k na where k: "behind s B (p + n) k na" using behind_ex [OF c b] by blast
  have ins: "in_heap (p - 4) s" "in_heap (p + a - 8) s" "in_heap (p + a - 4) s" "in_heap (p + n - 8) s" "in_heap (p + n - 4) s"
    using core_in [OF c b, of 0] core_in [OF c b a(1)] core_in [OF c b, of n] a cb by simp_all
  have ta: "tag a True mod 4294967296 = tag a True" using a cb by (simp add: tag_def)
  have inw: "in_heap x (s\<lparr>word := w\<rparr>) = in_heap x s" for x w by simp
  show ?thesis
  proof (cases na)
    case True
    have r: "u64 (n - a) = n - a" "8 dvd n - a" "tag (n - a) False mod 4294967296 = tag (n - a) False"
      using a cb by (simp_all add: u64_def)
    have "realloc_shrink p a n s = insert_free_block (p + a) (s\<lparr>word := shrunk p a (n - a) s\<rparr>)"
      using k True ins ta r cb a put_ftr_new [of a p s] put_ftr_new [of "n - a" "p + a" s] inw
      by (simp add: realloc_shrink_def Let_def NEXT_BLKP_def GET_SIZE_def GET_ALLOC_def behind_def shrunk_def)
    then show ?thesis using shrink_alone [OF h b _ a] k True by (simp add: behind_def)
  next
    case False
    then have kb: "(p + n, k, False) \<in> B" using k by (simp add: behind_def)
    note ck = core_block [OF c kb]
    let ?r = "n - a + k"
    have r: "u64 ?r = ?r" "8 dvd ?r" "tag ?r False mod 4294967296 = tag ?r False" "in_heap (p + a + ?r - 8) s"
      using a cb ck coreD(1) [OF c] core_in(2) [OF c kb, of k] by (simp_all add: u64_def MAX_HEAP_def tag_def add.assoc)
    have "realloc_shrink p a n s = replace_free_block (p + n) (p + a) (s\<lparr>word := shrunk p a ?r s\<rparr>)"
      using k False ins ta r cb ck a put_ftr_new [of a p s] put_ftr_new [of ?r "p + a" s] inw
      by (simp add: realloc_shrink_def Let_def NEXT_BLKP_def GET_SIZE_def GET_ALLOC_def behind_def shrunk_def)
    then show ?thesis using shrink_next [OF h b kb a] by simp
  qed
qed

section \<open>Growing in place\<close>

lemma other_out:
  assumes c: "core s B" and D: "tiling x y D" "D \<subseteq> B" "x < y" and z: "x - 4 \<le> z" "z < y"
  shows "z \<notin> lks (frees B - frees D)"
proof -
  have "f \<noteq> z \<and> f + 4 \<noteq> z" if f: "f \<in> frees B - frees D" for f
  proof -
    obtain l where l: "(f, l, False) \<in> B - D" using f by (auto simp: frees_def)
    then show ?thesis
      using tiling_outside [OF coreD(3) [OF c] D(1,2) l D(3)] core_block(3) [OF c, of f l False] z by auto
  qed
  then show ?thesis unfolding lks_def by force
qed

text \<open>Into the free block behind, whose rest stays free.\<close>

lemma grow_split:
  assumes h: "heap_inv s B fl" and b: "(p, n, True) \<in> B" and k: "(p + n, k, False) \<in> B"
    and a: "8 dvd a" "n < a" "a + 16 \<le> n + k"
  shows "\<exists>t. replace_free_block (p + n) (p + a) s = Some t \<and> mem_brk t = mem_brk s \<and>
    resized 0 s B p n p a (t\<lparr>word := shrunk p a (n + k - a) t\<rparr>)"
proof -
  let ?D = "{(p, n, True), (p + n, k, False)}" and ?C = "{(p, a, True), (p + a, n + k - a, False)}"
  let ?T = "{p - 4, p + a - 8, p + a - 4, p + n + k - 8}"
  note c = heap_invD(1) [OF h]
  note cb = core_block [OF c b] and ck = core_block [OF c k]
  have tD: "tiling p (p + n + k) ?D" using cb ck by (intro tiling_two) auto
  have tC: "tiling p (p + n + k) ?C" using cb ck a by (intro tiling_two) auto
  have D: "?D \<subseteq> B" "p < p + n + k" using b k cb ck by auto
  have ok: "blocks_ok (shrunk p a (n + k - a) t) ?C" for t using a cb ck by (intro blocks_ok_shrunk) simp_all
  have na: "no_adjacent (B - ?D \<union> ?C)"
    by (rule no_adjacent_change [OF coreD(3) [OF c] heap_invD(4) [OF h] tD D tC])
      (use b k a cb ck no_adjacentD [OF heap_invD(4) [OF h] k] in \<open>auto simp: no_adjacent_def\<close>)
  have fr: "frees ?D = {p + n}" "frees ?C = {p + a}" by (simp_all add: frees_simps)
  obtain xs ys where fl: "fl = xs @ (p + n) # ys"
    using k heap_invD(3) [OF h] split_list [of "p + n" fl] by (auto simp: frees_in)
  have l: "flist s (xs @ (p + n) # ys)" using heap_invD(2) [OF h] fl by simp
  have d: "distinct (xs @ (p + n) # ys)" using flist_spaced(4) [OF l] .
  have others: "set xs \<union> set ys = frees B - frees ?D" using heap_invD(3) [OF h] fl d fr by auto
  have oo: "z \<notin> lks (set xs \<union> set ys)" if "p - 4 \<le> z" "z < p + n + k" for z
    using other_out [OF c tD D that] unfolding others .
  have pa: "p + a \<notin> set xs \<union> set ys" using oo [of "p + a"] a cb ck by (auto simp: lks_def)
  have set: "set (xs @ (p + a) # ys) = frees B - frees ?D \<union> frees ?C" using others fr by auto
  have dist: "distinct (xs @ (p + a) # ys)" using d pa by auto
  note nodes = change_nodes [OF c tD D tC ok dist set, where s' = s]
  obtain t where t: "replace_free_block (p + n) (p + a) s = Some t" "flist t (xs @ (p + a) # ys)"
      "only (lks (set xs \<union> {p + a} \<union> set ys)) s t"
    using replace_flist [OF l _ nodes(1)] nodes(2) a cb by force
  let ?s' = "t\<lparr>word := shrunk p a (n + k - a) t\<rparr>"
  have w: "z \<in> ?T" if "word ?s' z \<noteq> word t z" for z using that by (auto simp: shrunk_def split: if_splits)
  have oT: "only ?T t ?s'" using w by (intro onlyI) auto
  have "flist ?s' (xs @ (p + a) # ys)"
  proof (rule flist_frame [OF t(2) oT])
    have "z \<notin> lks (set xs \<union> set ys) \<and> z \<noteq> p + a \<and> z \<noteq> p + a + 4" if "z \<in> ?T" for z
      using that oo [of z] a cb ck by auto
    then show "?T \<inter> lks (set (xs @ (p + a) # ys)) = {}" by auto
  qed simp_all
  moreover have lk: "lks (set xs \<union> {p + a} \<union> set ys) \<subseteq> run p (p + n + k) B"
  proof -
    have "lks (set xs \<union> set ys) \<subseteq> lks (frees B)" using others by (auto simp: lks_def)
    then show ?thesis using a cb ck by (auto simp: run_def)
  qed
  moreover have "only (run p (p + n + k) B) s ?s'"
    by (rule only_trans [OF t(3) oT lk]) (use a cb ck in \<open>auto simp: run_def\<close>)
  moreover have "blocks_ok (word ?s') ?C" using ok by simp
  ultimately have r: "heap_inv ?s' (B - ?D \<union> ?C) (xs @ (p + a) # ys) \<and> kept (B - ?D) s ?s' \<and> mem_brk ?s' = mem_brk s"
    using heap_change [OF h tD D tC _ _ _ set na] by blast
  have "only (lks (set xs \<union> {p + a} \<union> set ys) \<union> ?T) s ?s'"
    by (rule only_trans [OF t(3) oT]) auto
  moreover have "z \<notin> lks (set xs \<union> {p + a} \<union> set ys) \<union> ?T" if "p \<le> z" "z < p + min n a - 8" for z
    using that oo [of z] a cb ck by auto
  ultimately have "resized 0 s B p n p a ?s'"
    using r by (intro resizedI [OF b h, of ?s' ?D ?C]) (auto simp: allocs_simps)
  then show ?thesis using t(1) r by auto
qed

text \<open>Taking the free block behind as a whole.\<close>

lemma grow_whole:
  assumes h: "heap_inv s B fl" and b: "(p, n, True) \<in> B" and k: "(p + n, k, False) \<in> B"
  defines "w \<equiv> (word s)(p - 4 := tag (n + k) True, p + (n + k) - 8 := tag (n + k) True)"
  shows "\<exists>s'. remove_free_block (p + n) (s\<lparr>word := w\<rparr>) = Some s' \<and> resized 0 s B p n p (n + k) s'"
proof -
  let ?D = "{(p, n, True), (p + n, k, False)}" and ?C = "{(p, n + k, True)}" and ?T = "{p - 4, p + n + k - 8}"
  note c = heap_invD(1) [OF h]
  note cb = core_block [OF c b] and ck = core_block [OF c k] and to = tag_out [OF c b] tag_out [OF c k]
  have tD: "tiling p (p + n + k) ?D" using cb ck by (intro tiling_two) auto
  have tC: "tiling p (p + n + k) ?C" using tiling_single [of "n + k" p True] cb ck by (simp add: add.assoc)
  have na: "no_adjacent (B - ?D \<union> ?C)"
    by (rule no_adjacent_change [OF coreD(3) [OF c] heap_invD(4) [OF h] tD _ _ tC])
      (use b k cb ck in \<open>auto simp: no_adjacent_def\<close>)
  have T: "z \<notin> lks (frees B) \<and> p - 4 \<le> z \<and> z < p + n + k - 4" if "z \<in> ?T" for z
    using that to cb ck by auto
  have "\<exists>s' fl'. remove_free_block (p + n) (s\<lparr>word := w\<rparr>) = Some s' \<and> heap_inv s' (B - ?D \<union> ?C) fl' \<and>
      kept (B - ?D) s s' \<and> only (?T \<union> lks (frees B)) s s'"
  proof (rule heap_remove [OF h tD _ _ tC _ T])
    show "blocks_ok w ?C" using cb ck by (simp add: blocks_ok_def w_def)
    show "z \<in> ?T" if "w z \<noteq> word s z" for z using that by (auto simp: w_def algebra_simps split: if_splits)
    show "{x - 4, x + l - 8} \<inter> lks (frees B) = {}" if "(x, l, e) \<in> ?C" for x l e
      using that to by (auto simp: add.assoc)
  qed (use b k cb ck na in \<open>auto simp: frees_simps\<close>)
  then obtain s' fl' where s': "remove_free_block (p + n) (s\<lparr>word := w\<rparr>) = Some s'" "heap_inv s' (B - ?D \<union> ?C) fl'"
      "kept (B - ?D) s s'" "only (?T \<union> lks (frees B)) s s'" by blast
  have "resized 0 s B p n p (n + k) s'"
    by (rule resizedI [OF b h s'(2) _ _ s'(3,4)]) (use cb ck payload_out [OF c b] in \<open>auto simp: allocs_simps\<close>)
  then show ?thesis using s'(1) by blast
qed

section \<open>The move\<close>

text \<open>Writing the payload of an allocated block.\<close>

lemma heap_payload:
  assumes h: "heap_inv s B fl" and b: "(q, m, True) \<in> B" and w: "\<And>z. w z \<noteq> word s z \<Longrightarrow> q \<le> z \<and> z < q + m - 8"
  shows "heap_inv (s\<lparr>word := w\<rparr>) B fl" "kept (B - {(q, m, True)}) s (s\<lparr>word := w\<rparr>)"
proof -
  note c = heap_invD(1) [OF h]
  note cb = core_block [OF c b]
  have t: "tiling q (q + m) {(q, m, True)}" using cb tiling_single by simp
  have eq: "B - {(q, m, True)} \<union> {(q, m, True)} = B" using b by blast
  have "heap_inv (s\<lparr>word := w\<rparr>) (B - {(q, m, True)} \<union> {(q, m, True)}) fl \<and> kept (B - {(q, m, True)}) s (s\<lparr>word := w\<rparr>)"
  proof (rule heap_keep [OF h t _ _ t, where T = "{q..<q + m - 8}"])
    show "z \<notin> lks (frees B) \<and> q - 4 \<le> z \<and> z < q + m - 4" if "z \<in> {q..<q + m - 8}" for z
      using that payload_out [OF c b, of z] by simp
    have "w (q - 4) = word s (q - 4)" "w (q + m - 8) = word s (q + m - 8)" using w [of "q - 4"] w [of "q + m - 8"] by auto
    then show "blocks_ok w {(q, m, True)}" using cb by (simp add: blocks_ok_def)
    show "no_adjacent (B - {(q, m, True)} \<union> {(q, m, True)})" unfolding eq by (rule heap_invD(4) [OF h])
  qed (use b w cb in auto)
  then show "heap_inv (s\<lparr>word := w\<rparr>) B fl" "kept (B - {(q, m, True)}) s (s\<lparr>word := w\<rparr>)" unfolding eq by blast+
qed

lemma realloc_move_ok:
  assumes h: "heap_inv s B fl" and b: "(p, n, True) \<in> B" and a: "n \<le> a" "a < 2 ^ 31 - 16"
  shows "(mm_malloc a s = Some (None, s) \<and> realloc_move p a n s = None) \<or>
    (\<exists>q m s'. realloc_move p a n s = Some (Some q, s') \<and> resized (max (request a) CHUNKSIZE) s B p n q m s' \<and> a + 8 \<le> m)"
proof -
  note cb = core_block [OF heap_invD(1) [OF h] b]
  have a0: "0 < a" using a cb by simp
  obtain r s1 where r: "mm_malloc a s = Some (r, s1)" "malloc_result a s B r s1"
    using mm_malloc_ok [OF h a0 a(2)] by blast
  show ?thesis
  proof (cases r)
    case None
    then show ?thesis using r by (simp add: realloc_move_def malloc_result_def)
  next
    case (Some q)
    then obtain m where m: "obtained s B q m s1" "request a \<le> m" using r(2) by (auto simp: malloc_result_def)
    then obtain B1 fl1 where 1: "heap_inv s1 B1 fl1" "(q, m) \<notin> allocs B" "allocs B1 = insert (q, m) (allocs B)" "kept B s s1"
      unfolding obtained_def by blast
    have in1: "(q, m, True) \<in> B1" "(p, n, True) \<in> B1" using 1(3) b by (auto simp: allocs_def)
    have ne: "(q, m) \<noteq> (p, n)" using 1(2) b by (auto simp: allocs_def)
    note c1 = heap_invD(1) [OF 1(1)]
    note cq = core_block [OF c1 in1(1)] and cp = core_block [OF c1 in1(2)]
    have am: "a + 8 \<le> m" using request_ok(3) [OF a0 a(2)] m(2) by simp
    have dis: "p + n \<le> q \<or> q + m \<le> p" using tiling_disjoint [OF coreD(3) [OF c1] in1(2,1)] ne by auto
    let ?w = "\<lambda>z. if q \<le> z \<and> z < q + (n - 8) \<and> 4 dvd z then word s1 (p + (z - q)) else word s1 z"
    let ?s2 = "s1\<lparr>word := ?w\<rparr>"
    have d4: "4 dvd p" "4 dvd q" "4 dvd n - 8" using cb cq by presburger+
    have cpy: "mm_memcpy q p (u64 (n - 8)) s1 = Some ?s2"
      using cb cq cp am a dis d4 by (auto simp: mm_memcpy_def u64_def)
    have w2: "q \<le> z \<and> z < q + m - 8" if "?w z \<noteq> word s1 z" for z using that am a by (auto split: if_splits)
    have h2: "heap_inv ?s2 B1 fl1" "kept (B1 - {(q, m, True)}) s1 ?s2"
      by (rule heap_payload [OF 1(1) in1(1)], rule w2, assumption)+
    obtain s3 where s3: "mm_free p ?s2 = Some s3" "freed ?s2 B1 p n s3" using mm_free_ok [OF h2(1) in1(2)] by blast
    have mv: "realloc_move p a n s = Some (Some q, s3)"
      using r(1) Some cpy s3(1) by (simp add: realloc_move_def)
    obtain B3 fl3 where 3: "heap_inv s3 B3 fl3" "allocs B3 = allocs B1 - {(p, n)}" "kept (B1 - {(p, n, True)}) ?s2 s3"
      using s3(2) unfolding freed_def by blast
    have k1: "kept (B - {(p, n, True)}) s s1" using kept_mono [OF 1(4)] by blast
    have k23: "kept (B1 - {(q, m, True)} - {(p, n, True)}) s1 s3"
      by (rule kept_trans [OF kept_mono [OF h2(2)] 3(3)]) auto
    have "kept (B - {(p, n, True)}) s s3"
      by (rule kept_trans [OF k1 k23]) (use 1(2,3) in \<open>auto simp: allocs_def\<close>)
    moreover have "word s3 (q + i) = word s (p + i)" if i: "0 \<le> i" "i < min n m - 8" "4 dvd i" for i
    proof -
      have "word s3 (q + i) = ?w (q + i)" using 3(3) in1(1) ne i unfolding kept_def by auto
      also have "\<dots> = word s1 (p + i)" using i d4 by (auto simp: min_def split: if_splits)
      also have "\<dots> = word s (p + i)" using 1(4) b i unfolding kept_def by auto
      finally show ?thesis .
    qed
    moreover have "mem_brk s3 \<le> mem_brk s + max (request a) CHUNKSIZE"
      using s3(2) r(2) Some by (simp add: freed_def malloc_result_def)
    ultimately have "resized (max (request a) CHUNKSIZE) s B p n q m s3"
      unfolding resized_def using 3(1,2) 1(2,3) ne by blast
    then show ?thesis using mv am by blast
  qed
qed

section \<open>\<^verbatim>\<open>mm_realloc\<close>\<close>

lemma resized_same:
  assumes "heap_inv s B fl" and "(p, n, True) \<in> B"
  shows "resized 0 s B p n p n s"
  using assms unfolding resized_def by (auto simp: allocs_def)

lemma realloc_grow_ok:
  assumes h: "heap_inv s B fl" and b: "(p, n, True) \<in> B" and a: "8 dvd a" "n < a" "a < 2 ^ 31 - 16"
  shows "(mm_malloc a s = Some (None, s) \<and> realloc_grow p a n s = None) \<or>
    (\<exists>q m s'. realloc_grow p a n s = Some (Some q, s') \<and> resized (max (request a) CHUNKSIZE) s B p n q m s' \<and> a \<le> m)"
proof -
  note c = heap_invD(1) [OF h]
  note cb = core_block [OF c b]
  obtain k na where k: "behind s B (p + n) k na" using behind_ex [OF c b] by blast
  have ins: "in_heap (p - 4) s" "in_heap (p + n - 4) s"
    using core_in [OF c b, of 0] core_in [OF c b, of n] cb by simp_all
  have inw: "in_heap x (s\<lparr>word := w\<rparr>) = in_heap x s" for x w by simp
  have rd: "NEXT_BLKP p s = Some (p + n)" "GET_SIZE (p + n - 4) s = Some k" "GET_ALLOC (p + n - 4) s = Some (of_bool na)"
    using k ins cb by (simp_all add: NEXT_BLKP_def GET_SIZE_def GET_ALLOC_def behind_def)
  have move: "?thesis" if "realloc_grow p a n s = realloc_move p a n s"
  proof -
    have "n \<le> a" using a by simp
    then show ?thesis using realloc_move_ok [OF h b _ a(3)] unfolding that by force
  qed
  show ?thesis
  proof (cases na)
    case True
    then show ?thesis using rd by (intro move) (simp add: realloc_grow_def)
  next
    case False
    then have kb: "(p + n, k, False) \<in> B" using k by (simp add: behind_def)
    note ck = core_block [OF c kb]
    have u: "u64 (n + k) = n + k" "u64 (a + 16) = a + 16" using a cb ck coreD(1) [OF c] by (simp_all add: u64_def MAX_HEAP_def)
    consider "a + 16 \<le> n + k" | "\<not> a + 16 \<le> n + k" "a \<le> n + k" | "\<not> a + 16 \<le> n + k" "\<not> a \<le> n + k" by blast
    then show ?thesis
    proof cases
      case 1
      let ?r = "n + k - a"
      obtain t where t: "replace_free_block (p + n) (p + a) s = Some t" "mem_brk t = mem_brk s"
          "resized 0 s B p n p a (t\<lparr>word := shrunk p a ?r t\<rparr>)"
        using grow_split [OF h b kb a(1,2) 1] by blast
      have e: "8 dvd ?r" "u64 ?r = ?r" "tag ?r False mod 4294967296 = tag ?r False" "tag a True mod 4294967296 = tag a True"
        using a cb ck 1 coreD(1) [OF c] by (simp_all add: u64_def MAX_HEAP_def tag_def)
      have inh: "in_heap (p - 4) t" "in_heap (p + a - 8) t" "in_heap (p + a - 4) t" "in_heap (p + a + ?r - 8) t"
        using ins core_in [OF c kb, of "a - n"] core_in(2) [OF c kb, of k] a cb ck 1 t(2)
        by (simp_all add: in_heap_def algebra_simps)
      have "realloc_grow p a n s = Some (Some p, t\<lparr>word := shrunk p a ?r t\<rparr>)"
        using rd False 1 u t(1) e inh put_ftr_new [of a p t] put_ftr_new [of ?r "p + a" t] a(1)
        by (simp add: realloc_grow_def Let_def shrunk_def)
      then show ?thesis using resized_mono [OF t(3), of "request a"] by auto
    next
      case 2
      let ?w = "(word s)(p - 4 := tag (n + k) True, p + (n + k) - 8 := tag (n + k) True)"
      have e: "8 dvd n + k" "tag (n + k) True mod 4294967296 = tag (n + k) True" "in_heap (p + (n + k) - 8) s"
        using cb ck coreD(1) [OF c] core_in(2) [OF c kb, of k] by (simp_all add: MAX_HEAP_def tag_def add.assoc)
      have "realloc_grow p a n s = do { s \<leftarrow> remove_free_block (p + n) (s\<lparr>word := ?w\<rparr>); Some (Some p, s) }"
        using rd False 2 u e ins inw put_ftr_new [of "n + k" p s] by (simp add: realloc_grow_def Let_def)
      moreover obtain s' where "remove_free_block (p + n) (s\<lparr>word := ?w\<rparr>) = Some s'" "resized 0 s B p n p (n + k) s'"
        using grow_whole [OF h b kb] by blast
      ultimately show ?thesis using resized_mono [of s B p n p "n + k" s' "request a"] 2(2) by auto
    next
      case 3
      then show ?thesis using rd False u by (intro move) (simp add: realloc_grow_def)
    qed
  qed
qed

lemma mm_realloc_ok:
  assumes h: "heap_inv s B fl" and b: "(p, n, True) \<in> B" and n: "0 < sz" "sz < 2 ^ 31 - 32"
  shows "(n < adjust sz \<and> mm_malloc (adjust sz) s = Some (None, s) \<and> mm_realloc (Some p) sz s = None) \<or>
    (\<exists>q m s'. mm_realloc (Some p) sz s = Some (Some q, s') \<and> resized (max (request (adjust sz)) CHUNKSIZE) s B p n q m s' \<and> sz + 8 \<le> m)"
proof -
  note c = heap_invD(1) [OF h]
  note cb = core_block [OF c b]
  have adj: "8 dvd adjust sz" "16 \<le> adjust sz" "sz + 8 \<le> adjust sz" "adjust sz < 2 ^ 31 - 16"
    using adjust_ok [of sz] n by simp_all
  have rd: "GET_SIZE (p - 4) s = Some n" using core_in(1) [OF c b, of 0] cb by (simp add: GET_SIZE_def)
  consider "adjust sz + 16 \<le> n" | "adjust sz \<le> n" "\<not> adjust sz + 16 \<le> n" | "n < adjust sz" by linarith
  then show ?thesis
  proof cases
    case 1
    obtain s' where s': "realloc_shrink p (adjust sz) n s = Some s'" "resized 0 s B p n p (adjust sz) s'"
      using realloc_shrink_ok [OF h b adj(1,2) 1] by blast
    then have "mm_realloc (Some p) sz s = Some (Some p, s')" using 1 rd n adj(3) by (simp add: mm_realloc_def Let_def)
    then show ?thesis using resized_mono [OF s'(2), of "request (adjust sz)"] adj(3) by auto
  next
    case 2
    then have "mm_realloc (Some p) sz s = Some (Some p, s)" using rd n by (simp add: mm_realloc_def Let_def)
    moreover have "sz + 8 \<le> n" using 2(1) adj(3) by simp
    ultimately show ?thesis using resized_mono [OF resized_same [OF h b], of "request (adjust sz)"] by auto
  next
    case 3
    have "mm_realloc (Some p) sz s = realloc_grow p (adjust sz) n s" using rd n 3 by (simp add: mm_realloc_def Let_def)
    then show ?thesis using realloc_grow_ok [OF h b adj(1) 3 adj(4)] 3 adj(3) by force
  qed
qed

end
