(* ===== verification/Mdriver_Props.thy ===== *)
theory Mdriver_Props
  imports Mdriver Mm_Props
begin

text \<open>
  The contract between the driver and a malloc package, that a package which keeps it passes the driver, and
  that \<^verbatim>\<open>mm.c\<close> keeps it; and what the driver's own checks miss or wrongly report.
\<close>

section \<open>Bytes\<close>

definition byte_of :: "(int \<Rightarrow> int) \<Rightarrow> int \<Rightarrow> int" where
  "byte_of w a = w (wd a) div 256 ^ nat (a mod 4) mod 256"

lemma byte_update:
  fixes w v :: int
  assumes "0 \<le> v" "v < 256"
  shows "(w + (v - w div 256 ^ k mod 256) * 256 ^ k) div 256 ^ j mod 256 = (if j = k then v else w div 256 ^ j mod 256)"
proof -
  let ?B = "256 ^ k :: int" and ?c = "v - w div 256 ^ k mod 256"
  have B: "0 < ?B" by simp
  have div: "(w + ?c * ?B) div ?B = w div ?B + ?c" using B by simp
  have h: "w div ?B + ?c = 256 * (w div ?B div 256) + v" by (simp add: minus_mod_eq_mult_div [symmetric])
  consider "j = k" | "j < k" | "k < j" by linarith
  then show ?thesis
  proof cases
    case 1
    then show ?thesis unfolding 1 div h using assms by simp
  next
    case 2
    then obtain e where k: "k = j + Suc e" using less_iff_Suc_add [of j k] by auto
    have "?B = 256 ^ e * 256 * 256 ^ j" by (simp add: k power_add)
    then have "w + ?c * ?B = w + (?c * 256 ^ e * 256) * 256 ^ j" by (simp only: mult.assoc)
    then have "(w + ?c * ?B) div 256 ^ j = w div 256 ^ j + ?c * 256 ^ e * 256" by (simp only: div_mult_self1) simp
    then show ?thesis using 2 by simp
  next
    case 3
    then obtain e where j: "j = Suc k + e" using less_iff_Suc_add [of k j] by auto
    have "(256 :: int) ^ j = ?B * 256 * 256 ^ e" by (simp add: j power_add)
    then have "x div 256 ^ j = x div ?B div 256 div 256 ^ e" for x :: int
      using zdiv_zmult2_eq [of "256 ^ e" x "?B * 256"] zdiv_zmult2_eq [of 256 x ?B] by simp
    moreover have "(w + ?c * ?B) div ?B div 256 = w div ?B div 256" unfolding div h using assms by simp
    ultimately show ?thesis using 3 by simp
  qed
qed

lemma wd_le: "wd a \<le> a" "a < wd a + 4" "4 dvd wd a"
  using pos_mod_bound [of 4 a] pos_mod_sign [of 4 a] by (auto simp: wd_def mod_eq_dvd_iff minus_mod_eq_mult_div)

lemma wd_eq: "wd a = wd b \<Longrightarrow> a mod 4 = b mod 4 \<Longrightarrow> a = b"
  by (simp add: wd_def)

lemma heap_byte_in: "in_heap (wd a) s \<Longrightarrow> heap_byte a s = Some (byte_of (word s) a)"
  by (simp add: heap_byte_def byte_of_def)

lemma put_byte_in:
  assumes "in_heap (wd a) s"
  shows "\<exists>w. put_byte a v s = Some (s\<lparr>word := w\<rparr>) \<and> (\<forall>b. byte_of w b = (if b = a then v mod 256 else byte_of (word s) b)) \<and>
    (\<forall>x. x \<noteq> wd a \<longrightarrow> w x = word s x)"
proof -
  let ?w = "(word s)(wd a := word s (wd a) + (v mod 256 - byte_of (word s) a) * 256 ^ nat (a mod 4))"
  have "byte_of ?w b = (if b = a then v mod 256 else byte_of (word s) b)" for b
  proof (cases "wd b = wd a")
    case True
    then have "byte_of ?w b = (if nat (b mod 4) = nat (a mod 4) then v mod 256 else byte_of (word s) b)"
      using byte_update [of "v mod 256" "word s (wd a)" "nat (a mod 4)" "nat (b mod 4)"] by (simp add: byte_of_def)
    moreover have "nat (b mod 4) = nat (a mod 4) \<longleftrightarrow> b = a" using wd_eq [OF True] by auto
    ultimately show ?thesis by simp
  qed (auto simp: byte_of_def)
  then show ?thesis using assms by (intro exI [of _ ?w]) (simp add: put_byte_def heap_byte_in)
qed

lemma memset_in:
  "\<forall>a. p \<le> a \<longrightarrow> a < p + int n \<longrightarrow> in_heap (wd a) s \<Longrightarrow>
   \<exists>w. mm_memset p v n s = Some (s\<lparr>word := w\<rparr>) \<and>
     (\<forall>b. byte_of w b = (if p \<le> b \<and> b < p + int n then v mod 256 else byte_of (word s) b)) \<and>
     (\<forall>x. w x \<noteq> word s x \<longrightarrow> (\<exists>a. p \<le> a \<and> a < p + int n \<and> x = wd a))"
proof (induction n arbitrary: p s)
  case 0
  show ?case by (intro exI [of _ "word s"]) simp
next
  case (Suc n)
  obtain w where w: "put_byte p v s = Some (s\<lparr>word := w\<rparr>)" "\<forall>b. byte_of w b = (if b = p then v mod 256 else byte_of (word s) b)"
      "\<forall>x. x \<noteq> wd p \<longrightarrow> w x = word s x"
    using put_byte_in [of p s v] Suc.prems by auto
  obtain w' where w': "mm_memset (p + 1) v n (s\<lparr>word := w\<rparr>) = Some (s\<lparr>word := w'\<rparr>)"
      "\<forall>b. byte_of w' b = (if p + 1 \<le> b \<and> b < p + 1 + int n then v mod 256 else byte_of w b)"
      "\<forall>x. w' x \<noteq> w x \<longrightarrow> (\<exists>a. p + 1 \<le> a \<and> a < p + 1 + int n \<and> x = wd a)"
    using Suc.IH [of "p + 1" "s\<lparr>word := w\<rparr>"] Suc.prems by auto
  have "byte_of w' b = (if p \<le> b \<and> b < p + int (Suc n) then v mod 256 else byte_of (word s) b)" for b
    using w(2) w'(2) by auto
  moreover have "\<exists>a. p \<le> a \<and> a < p + int (Suc n) \<and> x = wd a" if "w' x \<noteq> word s x" for x
  proof (cases "w' x = w x")
    case True
    then show ?thesis using that w(3) by (intro exI [of _ p]) auto
  next
    case False
    then obtain a where "p + 1 \<le> a" "a < p + 1 + int n" "x = wd a" using w'(3) by blast
    then show ?thesis by (intro exI [of _ a]) auto
  qed
  ultimately show ?case using w(1) w'(1) by (intro exI [of _ w']) simp
qed

lemma all_chars_in:
  "\<forall>a. p \<le> a \<longrightarrow> a < p + int n \<longrightarrow> in_heap (wd a) s \<Longrightarrow>
   all_chars p v n s = Some (\<forall>a. p \<le> a \<longrightarrow> a < p + int n \<longrightarrow> schar (byte_of (word s) a) = v)"
proof (induction n arbitrary: p)
  case (Suc n)
  have "all_chars (p + 1) v n s = Some (\<forall>a. p + 1 \<le> a \<longrightarrow> a < p + 1 + int n \<longrightarrow> schar (byte_of (word s) a) = v)"
    using Suc.prems by (intro Suc.IH) auto
  moreover have "(\<forall>a. p \<le> a \<longrightarrow> a < p + int (Suc n) \<longrightarrow> Q a) \<longleftrightarrow> Q p \<and> (\<forall>a. p + 1 \<le> a \<longrightarrow> a < p + 1 + int n \<longrightarrow> Q a)" for Q
    by (smt (verit) of_nat_Suc of_nat_0_le_iff)
  ultimately show ?case using Suc.prems by (simp add: heap_byte_in)
qed simp

lemma low_byte: "i AND 255 = i mod (256 :: int)"
  using take_bit_eq_mask [of 8 i] by (simp add: mask_eq_exp_minus_1 take_bit_eq_mod)

section \<open>The contract\<close>

definition same :: "(int \<times> int) set \<Rightarrow> mm \<Rightarrow> mm \<Rightarrow> bool" where
  "same A s s' \<longleftrightarrow> (\<forall>(p, m) \<in> A. \<forall>a. p \<le> a \<longrightarrow> a < p + m \<longrightarrow> word s' a = word s a)"

text \<open>\<open>I s A\<close>: the package is in order and \<open>A\<close> are its allocated blocks, each with the size of its payload.\<close>

locale mm_contract =
  fixes P :: "mm package" and I :: "mm \<Rightarrow> (int \<times> int) set \<Rightarrow> bool"
  assumes init_ok: "mem_brk s = 0 \<Longrightarrow> \<exists>s'. pk_init P s = Some (0, s') \<and> I s' {} \<and> mem_brk s' \<le> 4112"
    and block_ok: "I s A \<Longrightarrow> (p, m) \<in> A \<Longrightarrow> 8 dvd p \<and> 0 \<le> p \<and> 4 dvd m \<and> p + m \<le> mem_brk s"
    and apart: "I s A \<Longrightarrow> (p, m) \<in> A \<Longrightarrow> (q, k) \<in> A \<Longrightarrow> (p, m) = (q, k) \<or> p + m \<le> q \<or> q + k \<le> p"
    and write_ok: "I s A \<Longrightarrow> (p, m) \<in> A \<Longrightarrow> (\<And>a. w a \<noteq> word s a \<Longrightarrow> p \<le> a \<and> a < p + m) \<Longrightarrow> I (s\<lparr>word := w\<rparr>) A"
    and malloc_ok: "I s A \<Longrightarrow> 0 < n \<Longrightarrow> n < 2 ^ 31 - 32 \<Longrightarrow> mem_brk s + n + 4096 \<le> MAX_HEAP \<Longrightarrow>
      \<exists>q m s'. pk_malloc P n s = Some (Some q, s') \<and> I s' (insert (q, m) A) \<and> (q, m) \<notin> A \<and> n \<le> m \<and>
        mem_brk s' \<le> mem_brk s + n + 4096 \<and> same A s s'"
    and realloc_ok: "I s A \<Longrightarrow> (p, k) \<in> A \<Longrightarrow> 0 < n \<Longrightarrow> n < 2 ^ 31 - 32 \<Longrightarrow> mem_brk s + n + 4096 \<le> MAX_HEAP \<Longrightarrow>
      \<exists>q m s'. pk_realloc P (Some p) n s = Some (Some q, s') \<and> I s' (insert (q, m) (A - {(p, k)})) \<and> (q, m) \<notin> A - {(p, k)} \<and>
        n \<le> m \<and> mem_brk s' \<le> mem_brk s + n + 4096 \<and> same (A - {(p, k)}) s s' \<and>
        (\<forall>i. 0 \<le> i \<longrightarrow> i < min k m \<longrightarrow> 4 dvd i \<longrightarrow> word s' (q + i) = word s (p + i))"
    and free_ok: "I s A \<Longrightarrow> (p, k) \<in> A \<Longrightarrow>
      \<exists>s'. pk_free P p s = Some s' \<and> I s' (A - {(p, k)}) \<and> mem_brk s' = mem_brk s \<and> same (A - {(p, k)}) s s'"

section \<open>Traces\<close>

text \<open>A trace that uses its identifiers properly; \<open>L\<close> are those of the allocated blocks.\<close>

fun wf_ops :: "int \<Rightarrow> int set \<Rightarrow> traceop_t list \<Rightarrow> bool" where
  "wf_ops n L [] \<longleftrightarrow> True"
| "wf_ops n L (op # ops) \<longleftrightarrow> 0 \<le> tp_index op \<and> tp_index op < n \<and> (case tp_type op of
     ALLOC \<Rightarrow> tp_index op \<notin> L \<and> 0 < tp_size op \<and> tp_size op < 2 ^ 31 - 32 \<and> wf_ops n (insert (tp_index op) L) ops
   | REALLOC \<Rightarrow> tp_index op \<in> L \<and> 0 < tp_size op \<and> tp_size op < 2 ^ 31 - 32 \<and> tp_index op mod 256 < 128 \<and> wf_ops n L ops
   | FREE \<Rightarrow> tp_index op \<in> L \<and> wf_ops n (L - {tp_index op}) ops)"

text \<open>What a trace may need of the heap.\<close>

fun cost_ops :: "traceop_t list \<Rightarrow> int" where
  "cost_ops [] = 0"
| "cost_ops (op # ops) = (if tp_type op = FREE then 0 else tp_size op + 4096) + cost_ops ops"

definition blk :: "'h drv \<Rightarrow> int \<Rightarrow> int" where
  "blk d i = tr_blocks (dr_trace d) ! nat i"

definition bsz :: "'h drv \<Rightarrow> int \<Rightarrow> int" where
  "bsz d i = block_sizes (dr_trace d) ! nat i"

definition filled :: "mm \<Rightarrow> int \<Rightarrow> int \<Rightarrow> int \<Rightarrow> bool" where
  "filled s i p n \<longleftrightarrow> (\<forall>a. p \<le> a \<longrightarrow> a < p + n \<longrightarrow> byte_of (word s) a = i mod 256)"

text \<open>The driver's records of the allocated blocks, each of some capacity, are right, and so are the contents.\<close>

definition recs :: "mm drv \<Rightarrow> (int \<Rightarrow> int) \<Rightarrow> int set \<Rightarrow> (int \<times> int) set" where
  "recs d cap L = (\<lambda>i. (blk d i, cap i)) ` L"

definition recorded :: "mm drv \<Rightarrow> int \<Rightarrow> (int \<Rightarrow> int) \<Rightarrow> int set \<Rightarrow> bool" where
  "recorded d n cap L \<longleftrightarrow> length (tr_blocks (dr_trace d)) = nat n \<and> length (block_sizes (dr_trace d)) = nat n \<and>
     (\<forall>i \<in> L. 0 \<le> i \<and> i < n \<and> 0 < bsz d i \<and> bsz d i \<le> cap i \<and> bsz d i < 2 ^ 31 \<and> filled (dr_heap d) i (blk d i) (bsz d i)) \<and>
     inj_on (blk d) L \<and>
     set (dr_ranges d) = (\<lambda>i. (blk d i, blk d i + bsz d i - 1)) ` L \<and> distinct (map fst (dr_ranges d))"

lemma overlapping_None:
  "overlapping lo hi rs = None \<longleftrightarrow> (\<forall>(plo, phi) \<in> set rs. \<not> ((lo \<ge> plo \<and> lo \<le> phi) \<or> (hi \<ge> plo \<and> hi \<le> phi)))"
  by (induction lo hi rs rule: overlapping.induct) auto

lemma set_remove_first:
  "distinct (map fst rs) \<Longrightarrow> set (remove_first p rs) = {r \<in> set rs. fst r \<noteq> p} \<and> distinct (map fst (remove_first p rs))"
  by (induction p rs rule: remove_first.induct) (auto simp: image_iff; force)+

lemma recorded_remove:
  assumes "recorded d n cap L" and "idx \<in> L"
  shows "recorded (remove_range (blk d idx) d) n cap (L - {idx})"
proof -
  let ?d = "remove_range (blk d idx) d"
  have b: "blk ?d = blk d" "bsz ?d = bsz d" by (simp_all add: blk_def bsz_def remove_range_def fun_eq_iff)
  have inj: "inj_on (blk d) L" using assms(1) by (simp add: recorded_def)
  have "set (dr_ranges ?d) = {r \<in> set (dr_ranges d). fst r \<noteq> blk d idx}" "distinct (map fst (dr_ranges ?d))"
    using set_remove_first [of "dr_ranges d" "blk d idx"] assms(1) by (simp_all add: recorded_def remove_range_def)
  moreover have "{r \<in> (\<lambda>i. (blk d i, blk d i + bsz d i - 1)) ` L. fst r \<noteq> blk d idx} = (\<lambda>i. (blk d i, blk d i + bsz d i - 1)) ` (L - {idx})"
    using inj assms(2) by (auto simp: inj_on_def)
  moreover have "inj_on (blk d) (L - {idx})" using inj by (rule inj_on_diff)
  ultimately show ?thesis using assms(1) unfolding recorded_def b by (simp add: remove_range_def)
qed

lemma recs_remove: "recorded d n cap L \<Longrightarrow> idx \<in> L \<Longrightarrow> recs d cap L - {(blk d idx, cap idx)} = recs d cap (L - {idx})"
  unfolding recs_def recorded_def inj_on_def by auto

lemma byte_of_cong: "w (wd a) = w' (wd a) \<Longrightarrow> byte_of w a = byte_of w' a"
  by (simp add: byte_of_def)

lemma wd_block:
  assumes "8 dvd p" and "4 dvd m" and "p \<le> a" and "a < p + m"
  shows "p \<le> wd a" "wd a + 4 \<le> p + m"
proof -
  have "4 dvd p" using assms(1) by presburger
  then show "p \<le> wd a" "wd a + 4 \<le> p + m" using assms(2-4) wd_le [of a] by presburger+
qed

section \<open>A package that keeps the contract passes the driver\<close>

context mm_contract
begin

lemma in_block:
  assumes "I s A" and "(p, m) \<in> A" and "p \<le> a" and "a < p + m"
  shows "in_heap (wd a) s" "p \<le> wd a" "wd a < p + m"
  using block_ok [OF assms(1,2)] wd_block [of p m a] assms(3,4) wd_le(3) [of a] by (auto simp: in_heap_def)

lemma fill:
  assumes "I s A" and "(p, m) \<in> A" and "0 \<le> n" and "n \<le> m"
  shows "\<exists>w. mm_memset p v (nat n) s = Some (s\<lparr>word := w\<rparr>) \<and> I (s\<lparr>word := w\<rparr>) A \<and>
    (\<forall>b. byte_of w b = (if p \<le> b \<and> b < p + n then v mod 256 else byte_of (word s) b))"
proof -
  have "\<forall>a. p \<le> a \<longrightarrow> a < p + int (nat n) \<longrightarrow> in_heap (wd a) s" using in_block(1) [OF assms(1,2)] assms(3,4) by auto
  then obtain w where w: "mm_memset p v (nat n) s = Some (s\<lparr>word := w\<rparr>)"
      "\<forall>b. byte_of w b = (if p \<le> b \<and> b < p + int (nat n) then v mod 256 else byte_of (word s) b)"
      "\<forall>x. w x \<noteq> word s x \<longrightarrow> (\<exists>a. p \<le> a \<and> a < p + int (nat n) \<and> x = wd a)"
    using memset_in [of p "nat n" s v] by blast
  have "p \<le> x \<and> x < p + m" if ch: "w x \<noteq> word s x" for x
  proof -
    have "\<forall>x. w x \<noteq> word s x \<longrightarrow> (\<exists>a. p \<le> a \<and> a < p + n \<and> x = wd a)" using w(3) assms(3) by simp
    then obtain a where "p \<le> a" "a < p + n" "x = wd a" using ch by blast
    then show ?thesis using in_block(2,3) [OF assms(1,2), of a] assms(4) by auto
  qed
  then have "I (s\<lparr>word := w\<rparr>) A" by (rule write_ok [OF assms(1,2)])
  then show ?thesis using w(1,2) assms(3) by auto
qed

lemma same_bytes:
  assumes "I s A" and "A' \<subseteq> A" and "same A' s s'" and "(p, m) \<in> A'" and "p \<le> a" and "a < p + m"
  shows "byte_of (word s') a = byte_of (word s) a"
  using in_block(2,3) [OF assms(1) subsetD [OF assms(2,4)] assms(5,6)] assms(3,4) unfolding same_def
  by (intro byte_of_cong) auto

lemma recorded_heap:
  assumes "recorded d n cap L" and "I (dr_heap d) A" and "recs d cap L \<subseteq> A" and "same (recs d cap L) (dr_heap d) s'"
  shows "recorded (d\<lparr>dr_heap := s'\<rparr>) n cap L"
proof -
  have b: "blk (d\<lparr>dr_heap := s'\<rparr>) = blk d" "bsz (d\<lparr>dr_heap := s'\<rparr>) = bsz d" by (simp_all add: blk_def bsz_def fun_eq_iff)
  have "filled s' i (blk d i) (bsz d i)" if "i \<in> L" for i
  proof -
    have i: "(blk d i, cap i) \<in> recs d cap L" "bsz d i \<le> cap i" "filled (dr_heap d) i (blk d i) (bsz d i)"
      using that assms(1) by (auto simp: recs_def recorded_def)
    show ?thesis
      unfolding filled_def
    proof (intro allI impI)
      fix a assume "blk d i \<le> a" "a < blk d i + bsz d i"
      then show "byte_of (word s') a = i mod 256"
        using same_bytes [OF assms(2,3,4) i(1), of a] i(2,3) by (simp add: filled_def)
    qed
  qed
  then show ?thesis using assms(1) unfolding recorded_def b by simp
qed

text \<open>The common tail of an allocation and a reallocation.\<close>

lemma add_range_ok:
  assumes r: "recorded d n cap L" and I: "I (dr_heap d) (insert (q, m) (recs d cap L))" and q: "(q, m) \<notin> recs d cap L"
    and z: "0 < z" "z \<le> m"
  shows "add_range q z t i d = Done (True, d\<lparr>dr_ranges := (q, q + z - 1) # dr_ranges d\<rparr>)"
proof -
  have b: "8 dvd q" "0 \<le> q" "q + m \<le> mem_brk (dr_heap d)" using block_ok [OF I, of q m] by auto
  have "blk d j + cap j \<le> q \<or> q + m \<le> blk d j" if "j \<in> L" for j
    using apart [OF I, of q m "blk d j" "cap j"] that q by (auto simp: recs_def)
  then have "overlapping q (q + z - 1) (dr_ranges d) = None"
    using r z unfolding overlapping_None recorded_def by force
  then show ?thesis
    using b z by (auto simp: add_range_def Let_def IS_ALIGNED_def mem_heap_lo_def mem_heap_hi_def dvd_eq_mod_eq_0)
qed

lemma record_ok:
  assumes r: "recorded d n cap L" and I: "I (dr_heap d) (insert (q, m) (recs d cap L))" and q: "(q, m) \<notin> recs d cap L"
    and z: "0 < z" "z \<le> m" "z < 2 ^ 31" and idx: "0 \<le> idx" "idx < n" "idx \<notin> L"
  defines "d1 \<equiv> d\<lparr>dr_ranges := (q, q + z - 1) # dr_ranges d\<rparr>" and "cap' \<equiv> cap(idx := m)"
  shows "\<exists>h d'. mm_memset q (idx AND 255) (nat z) (dr_heap d1) = Some h \<and> set_block idx q z (d1\<lparr>dr_heap := h\<rparr>) = Some d' \<and>
    recorded d' n cap' (insert idx L) \<and> I (dr_heap d') (recs d' cap' (insert idx L)) \<and> dr_errors d' = dr_errors d \<and>
    mem_brk (dr_heap d') = mem_brk (dr_heap d) \<and> tr_ops (dr_trace d') = tr_ops (dr_trace d)"
proof -
  have dis: "blk d j + cap j \<le> q \<or> q + m \<le> blk d j" if "j \<in> L" for j
    using apart [OF I, of q m "blk d j" "cap j"] that q by (auto simp: recs_def)
  have L: "0 \<le> j \<and> j < n \<and> 0 < bsz d j \<and> bsz d j \<le> cap j \<and> bsz d j < 2 ^ 31 \<and> filled (dr_heap d) j (blk d j) (bsz d j)" if "j \<in> L" for j
    using r that by (simp add: recorded_def)
  obtain w where w: "mm_memset q (idx AND 255) (nat z) (dr_heap d) = Some (dr_heap d\<lparr>word := w\<rparr>)"
      "I (dr_heap d\<lparr>word := w\<rparr>) (insert (q, m) (recs d cap L))"
      "\<forall>b. byte_of w b = (if q \<le> b \<and> b < q + z then (idx AND 255) mod 256 else byte_of (word (dr_heap d)) b)"
    using fill [OF I, of q m z "idx AND 255"] z by auto
  let ?h = "dr_heap d\<lparr>word := w\<rparr>"
  have len: "length (tr_blocks (dr_trace d)) = nat n" "length (block_sizes (dr_trace d)) = nat n" using r by (simp_all add: recorded_def)
  let ?d' = "d1\<lparr>dr_heap := ?h, dr_trace := (dr_trace d)\<lparr>tr_blocks := (tr_blocks (dr_trace d))[nat idx := q],
      block_sizes := (block_sizes (dr_trace d))[nat idx := z]\<rparr>\<rparr>"
  have sb: "set_block idx q z (d1\<lparr>dr_heap := ?h\<rparr>) = Some ?d'"
    using idx len z by (simp add: set_block_def d1_def u64_def)
  have new: "blk ?d' j = (if j = idx then q else blk d j)" "bsz ?d' j = (if j = idx then z else bsz d j)" if "0 \<le> j" "j < n" for j
    using that idx len by (auto simp: blk_def bsz_def nth_list_update)
  have recs: "recs ?d' cap' (insert idx L) = insert (q, m) (recs d cap L)"
  proof -
    have "(\<lambda>j. (blk ?d' j, cap' j)) ` L = (\<lambda>j. (blk d j, cap j)) ` L"
      using new L idx(3) by (intro image_cong) (auto simp: cap'_def)
    then show ?thesis using new(1) [of idx] idx unfolding recs_def image_insert cap'_def by simp
  qed
  have "recorded ?d' n cap' (insert idx L)"
    unfolding recorded_def
  proof (intro conjI ballI)
    show "length (tr_blocks (dr_trace ?d')) = nat n" "length (block_sizes (dr_trace ?d')) = nat n" using len by simp_all
    fix j assume j: "j \<in> insert idx L"
    then have jn: "0 \<le> j" "j < n" using L idx by auto
    then show "0 \<le> j" "j < n" .
    show "0 < bsz ?d' j" "bsz ?d' j \<le> cap' j" "bsz ?d' j < 2 ^ 31" using new(2) [OF jn] j L z by (auto simp: cap'_def)
    show "filled (dr_heap ?d') j (blk ?d' j) (bsz ?d' j)"
    proof (cases "j = idx")
      case True
      then show ?thesis using new [OF jn] w(3) by (simp add: filled_def low_byte)
    next
      case False
      then have "j \<in> L" using j by simp
      then show ?thesis using new [OF jn] w(3) L dis z False unfolding filled_def by fastforce
    qed
  next
    have old: "blk ?d' j = blk d j" "bsz ?d' j = bsz d j" if "j \<in> L" for j using new L [OF that] idx(3) that by auto
    have q': "q \<noteq> blk d j" if "j \<in> L" for j using dis [OF that] L [OF that] z by auto
    have "inj_on (blk ?d') L" using r old by (auto simp: recorded_def inj_on_def)
    moreover have "blk ?d' idx \<notin> blk ?d' ` (L - {idx})" using old(1) q' new(1) [OF idx(1,2)] by auto
    ultimately show "inj_on (blk ?d') (insert idx L)" unfolding inj_on_insert by blast
    have "(\<lambda>i. (blk ?d' i, blk ?d' i + bsz ?d' i - 1)) ` L = (\<lambda>i. (blk d i, blk d i + bsz d i - 1)) ` L"
      using old by (intro image_cong) auto
    then show "set (dr_ranges ?d') = (\<lambda>i. (blk ?d' i, blk ?d' i + bsz ?d' i - 1)) ` insert idx L"
      using new [OF idx(1,2)] r unfolding image_insert by (simp add: recorded_def d1_def)
    have "fst ` set (dr_ranges d) = blk d ` L" using r by (simp add: recorded_def image_image)
    then show "distinct (map fst (dr_ranges ?d'))" using r q' by (auto simp: recorded_def d1_def)
  qed
  then show ?thesis using w(1,2) sb recs by (intro exI [of _ ?h] exI [of _ ?d']) (simp add: d1_def)
qed

text \<open>The state between two requests.\<close>

definition good :: "mm drv \<Rightarrow> int \<Rightarrow> int set \<Rightarrow> bool" where
  "good d n L \<longleftrightarrow> (\<exists>cap. recorded d n cap L \<and> I (dr_heap d) (recs d cap L))"

lemma recs_heap [simp]: "recs (d\<lparr>dr_heap := h\<rparr>) cap L = recs d cap L"
  by (simp add: recs_def blk_def)

lemma recs_remove_range [simp]: "recs (remove_range p d) cap L = recs d cap L"
  by (simp add: recs_def blk_def remove_range_def)

lemma valid_alloc_ok:
  assumes g: "good d n L" and idx: "0 \<le> idx" "idx < n" "idx \<notin> L" and z: "0 < z" "z < 2 ^ 31 - 32"
    and room: "mem_brk (dr_heap d) + z + 4096 \<le> MAX_HEAP"
  shows "\<exists>d'. valid_alloc P t i idx z d = Some (Done (True, d')) \<and> good d' n (insert idx L) \<and> dr_errors d' = dr_errors d \<and>
    mem_brk (dr_heap d') \<le> mem_brk (dr_heap d) + z + 4096 \<and> tr_ops (dr_trace d') = tr_ops (dr_trace d)"
proof -
  obtain cap where r: "recorded d n cap L" and I: "I (dr_heap d) (recs d cap L)" using g unfolding good_def by blast
  obtain q m s' where m: "pk_malloc P z (dr_heap d) = Some (Some q, s')" "I s' (insert (q, m) (recs d cap L))"
      "(q, m) \<notin> recs d cap L" "z \<le> m" "mem_brk s' \<le> mem_brk (dr_heap d) + z + 4096" "same (recs d cap L) (dr_heap d) s'"
    using malloc_ok [OF I z room] by blast
  let ?d = "d\<lparr>dr_heap := s'\<rparr>"
  have r': "recorded ?d n cap L" using recorded_heap [OF r I subset_refl m(6)] .
  have m': "I (dr_heap ?d) (insert (q, m) (recs ?d cap L))" "(q, m) \<notin> recs ?d cap L" using m(2,3) by simp_all
  have z31: "z < 2 ^ 31" using z by simp
  obtain h d' where rec: "mm_memset q (idx AND 255) (nat z) (dr_heap (?d\<lparr>dr_ranges := (q, q + z - 1) # dr_ranges ?d\<rparr>)) = Some h"
      "set_block idx q z ((?d\<lparr>dr_ranges := (q, q + z - 1) # dr_ranges ?d\<rparr>)\<lparr>dr_heap := h\<rparr>) = Some d'"
      "recorded d' n (cap(idx := m)) (insert idx L)" "I (dr_heap d') (recs d' (cap(idx := m)) (insert idx L))"
      "dr_errors d' = dr_errors ?d" "mem_brk (dr_heap d') = mem_brk (dr_heap ?d)" "tr_ops (dr_trace d') = tr_ops (dr_trace ?d)"
    using record_ok [OF r' m' z(1) m(4) z31 idx] by blast
  have "u64 z = z" using z by (simp add: u64_def)
  then have "valid_alloc P t i idx z d = Some (Done (True, d'))"
    using m(1) add_range_ok [OF r' m' z(1) m(4), of t i] rec(1,2) by (simp add: valid_alloc_def Let_def)
  moreover have "good d' n (insert idx L)" using rec(3,4) unfolding good_def by blast
  ultimately show ?thesis using rec(5-7) m(5) by simp
qed

text \<open>The check of the old contents reads the filling byte as a signed character.\<close>

lemma valid_realloc_result:
  assumes g: "good d n L" and idx: "idx \<in> L" and z: "0 < z" "z < 2 ^ 31 - 32"
    and room: "mem_brk (dr_heap d) + z + 4096 \<le> MAX_HEAP"
  shows "if idx mod 256 < 128
    then \<exists>d'. valid_realloc P t i idx z d = Some (Done (True, d')) \<and> good d' n L \<and> dr_errors d' = dr_errors d \<and>
      mem_brk (dr_heap d') \<le> mem_brk (dr_heap d) + z + 4096 \<and> tr_ops (dr_trace d') = tr_ops (dr_trace d)
    else \<exists>d'. valid_realloc P t i idx z d = Some (Done (False, d')) \<and> dr_errors d' = dr_errors d @ [(t, LINENUM i, NotPreserved)]"
proof -
  obtain cap where r: "recorded d n cap L" and I: "I (dr_heap d) (recs d cap L)" using g unfolding good_def by blast
  let ?p = "blk d idx" and ?k = "cap idx" and ?L = "L - {idx}"
  have L: "0 \<le> idx" "idx < n" "0 < bsz d idx" "bsz d idx \<le> ?k" "bsz d idx < 2 ^ 31" "filled (dr_heap d) idx ?p (bsz d idx)"
    using r idx by (auto simp: recorded_def)
  have pk: "(?p, ?k) \<in> recs d cap L" using idx by (auto simp: recs_def)
  obtain q m s' where m: "pk_realloc P (Some ?p) z (dr_heap d) = Some (Some q, s')"
      "I s' (insert (q, m) (recs d cap L - {(?p, ?k)}))" "(q, m) \<notin> recs d cap L - {(?p, ?k)}" "z \<le> m"
      "mem_brk s' \<le> mem_brk (dr_heap d) + z + 4096" "same (recs d cap L - {(?p, ?k)}) (dr_heap d) s'"
      "\<forall>j. 0 \<le> j \<longrightarrow> j < min ?k m \<longrightarrow> 4 dvd j \<longrightarrow> word s' (q + j) = word (dr_heap d) (?p + j)"
    using realloc_ok [OF I pk z room] by blast
  note rr = recs_remove [OF r idx]
  let ?d = "remove_range ?p (d\<lparr>dr_heap := s'\<rparr>)"
  have "recorded ?d n cap ?L"
  proof -
    have sub: "recs d cap ?L \<subseteq> recs d cap L" unfolding recs_def by blast
    have rem: "remove_range ?p (d\<lparr>dr_heap := s'\<rparr>) = (remove_range ?p d)\<lparr>dr_heap := s'\<rparr>" by (simp add: remove_range_def)
    have "recorded (remove_range ?p d) n cap ?L" using recorded_remove [OF r idx] .
    then show ?thesis
      unfolding rem using recorded_heap [of "remove_range ?p d" n cap ?L "recs d cap L" s'] I sub m(6)
      unfolding rr by (simp add: remove_range_def recs_def blk_def)
  qed
  note r' = this
  have m': "I (dr_heap ?d) (insert (q, m) (recs ?d cap ?L))" "(q, m) \<notin> recs ?d cap ?L"
    using m(2,3) unfolding rr by (simp_all add: remove_range_def recs_def blk_def)
  have z31: "z < 2 ^ 31" using z by simp
  have len: "length (tr_blocks (dr_trace d)) = nat n" "length (block_sizes (dr_trace d)) = nat n" using r by (simp_all add: recorded_def)
  let ?d1 = "?d\<lparr>dr_ranges := (q, q + z - 1) # dr_ranges ?d\<rparr>"
  let ?o = "if z < bsz d idx then z else bsz d idx"
  have "all_chars q (idx AND 255) (nat ?o) s' = Some (idx mod 256 < 128)"
  proof -
    have bq: "8 dvd q" "8 dvd ?p" using block_ok [OF m(2), of q m] block_ok [OF I pk] by auto
    have inb: "in_heap (wd a) s'" if "q \<le> a" "a < q + int (nat ?o)" for a
      using in_block(1) [OF m(2), of q m a] that m(4) z L(3) by (auto split: if_splits)
    have "byte_of (word s') a = idx mod 256" if a: "q \<le> a" "a < q + int (nat ?o)" for a
    proof -
      let ?b = "?p + (a - q)"
      have a4: "wd a - q = wd ?b - ?p" "a mod 4 = ?b mod 4" "4 dvd wd a - q" "0 \<le> wd a - q" "wd a \<le> a"
        using bq wd_le [of a] a(1) unfolding wd_def by presburger+
      have "a - q < bsz d idx" "a - q < z" using a z L(3) by (auto split: if_splits)
      then have "wd a - q < min ?k m" using a4(5) L(4) m(4) by simp
      then have "word s' (wd a) = word (dr_heap d) (wd ?b)" using m(7) a4(1,3,4) by (metis add_diff_cancel_left' diff_add_cancel)
      then have "byte_of (word s') a = byte_of (word (dr_heap d)) ?b" using a4(2) by (simp add: byte_of_def)
      also have "\<dots> = idx mod 256" using L(6) a \<open>a - q < bsz d idx\<close> by (simp add: filled_def)
      finally show ?thesis .
    qed
    note byte = this
    have o: "0 < ?o" using z L(3) by simp
    have "(\<forall>a. q \<le> a \<longrightarrow> a < q + int (nat ?o) \<longrightarrow> schar (byte_of (word s') a) = idx AND 255) \<longleftrightarrow> idx mod 256 < 128"
    proof
      assume "\<forall>a. q \<le> a \<longrightarrow> a < q + int (nat ?o) \<longrightarrow> schar (byte_of (word s') a) = idx AND 255"
      then have "schar (byte_of (word s') q) = idx AND 255" using o by auto
      moreover have "byte_of (word s') q = idx mod 256" using byte [of q] o by simp
      ultimately show "idx mod 256 < 128" by (simp add: schar_def low_byte split: if_splits)
    next
      assume "idx mod 256 < 128"
      then show "\<forall>a. q \<le> a \<longrightarrow> a < q + int (nat ?o) \<longrightarrow> schar (byte_of (word s') a) = idx AND 255"
        using byte by (simp add: schar_def low_byte)
    qed
    then show ?thesis using inb by (subst all_chars_in) auto
  qed
  moreover have "dr_heap ?d1 = s'" by (simp add: remove_range_def)
  ultimately have same: "all_chars q (idx AND 255) (nat ?o) (dr_heap ?d1) = Some (idx mod 256 < 128)" by simp
  obtain h d' where rec: "mm_memset q (idx AND 255) (nat z) (dr_heap ?d1) = Some h"
      "set_block idx q z (?d1\<lparr>dr_heap := h\<rparr>) = Some d'"
      "recorded d' n (cap(idx := m)) (insert idx ?L)" "I (dr_heap d') (recs d' (cap(idx := m)) (insert idx ?L))"
      "dr_errors d' = dr_errors ?d" "mem_brk (dr_heap d') = mem_brk (dr_heap ?d)" "tr_ops (dr_trace d') = tr_ops (dr_trace ?d)"
    using record_ok [OF r' m' z(1) m(4) z31 L(1,2)] by blast
  have rd: "arr_get (tr_blocks (dr_trace d)) idx = Some ?p" "arr_get (block_sizes (dr_trace ?d1)) idx = Some (bsz d idx)"
      "u64 z = z" "to_int (bsz d idx) = bsz d idx"
    using L z len by (simp_all add: blk_def bsz_def remove_range_def u64_def int_ok_def)
  note ar = add_range_ok [OF r' m' z(1) m(4), of t i]
  show ?thesis
  proof (cases "idx mod 256 < 128")
    case True
    then have "valid_realloc P t i idx z d = Some (Done (True, d'))"
      using m(1) ar rec(1,2) rd same by (cases "z < bsz d idx") (simp_all add: valid_realloc_def Let_def)
    moreover have "good d' n L" using rec(3,4) insert_Diff [OF idx] unfolding good_def by auto
    ultimately show ?thesis using True rec(5-7) m(5) by (simp add: remove_range_def)
  next
    case False
    then have "valid_realloc P t i idx z d = Some (Done (False, malloc_error t i NotPreserved ?d1))"
      using m(1) ar rd same by (cases "z < bsz d idx") (simp_all add: valid_realloc_def Let_def)
    then show ?thesis using False by (simp add: malloc_error_def remove_range_def)
  qed
qed

lemma valid_free_ok:
  assumes g: "good d n L" and idx: "idx \<in> L"
  shows "\<exists>d'. valid_free P idx d = Some (Done (True, d')) \<and> good d' n (L - {idx}) \<and> dr_errors d' = dr_errors d \<and>
    mem_brk (dr_heap d') = mem_brk (dr_heap d) \<and> tr_ops (dr_trace d') = tr_ops (dr_trace d)"
proof -
  obtain cap where r: "recorded d n cap L" and I: "I (dr_heap d) (recs d cap L)" using g unfolding good_def by blast
  let ?p = "blk d idx" and ?k = "cap idx" and ?L = "L - {idx}"
  have pk: "(?p, ?k) \<in> recs d cap L" using idx by (auto simp: recs_def)
  obtain s' where s': "pk_free P ?p (dr_heap d) = Some s'" "I s' (recs d cap ?L)" "mem_brk s' = mem_brk (dr_heap d)"
      "same (recs d cap ?L) (dr_heap d) s'"
    using free_ok [OF I pk] unfolding recs_remove [OF r idx] by blast
  let ?d = "(remove_range ?p d)\<lparr>dr_heap := s'\<rparr>"
  have sub: "recs d cap ?L \<subseteq> recs d cap L" unfolding recs_def by blast
  have hd: "dr_heap (remove_range ?p d) = dr_heap d" by (simp add: remove_range_def)
  have "recorded ?d n cap ?L"
    by (rule recorded_heap [OF recorded_remove [OF r idx], of "recs d cap L"]) (use I sub s'(4) hd in simp_all)
  moreover have "I (dr_heap ?d) (recs ?d cap ?L)" using s'(2) by simp
  moreover have "0 \<le> idx" "idx < int (length (tr_blocks (dr_trace d)))" using r idx by (auto simp: recorded_def)
  then have "valid_free P idx d = Some (Done (True, ?d))"
    using s'(1) hd by (simp add: valid_free_def Let_def blk_def)
  ultimately show ?thesis using s'(3) unfolding good_def by (auto simp: remove_range_def)
qed

lemma valid_ops_ok:
  assumes "good d n L" and "wf_ops n L ops" and "mem_brk (dr_heap d) + cost_ops ops \<le> MAX_HEAP"
  shows "\<exists>d'. valid_ops P t i ops d = Some (Done (True, d')) \<and> dr_errors d' = dr_errors d"
  using assms
proof (induction ops arbitrary: d L i)
  case (Cons op ops)
  have cost: "0 \<le> cost_ops ops"
  proof -
    have "wf_ops n L' ops \<Longrightarrow> 0 \<le> cost_ops ops" for L'
      by (induction ops arbitrary: L') (auto split: optype.splits)
    then show ?thesis using Cons.prems(2) by (auto split: optype.splits)
  qed
  have idx: "0 \<le> tp_index op" "tp_index op < n" using Cons.prems(2) by simp_all
  have step: "?case" if "valid_op P t i op d = Some (Done (True, d1))" "good d1 n L1" "wf_ops n L1 ops" "dr_errors d1 = dr_errors d"
      "mem_brk (dr_heap d1) + cost_ops ops \<le> MAX_HEAP" for d1 L1
    using Cons.IH [OF that(2,3,5), of "i + 1"] that(1,4) by auto
  show ?case
  proof (cases "tp_type op")
    case ALLOC
    then have w: "tp_index op \<notin> L" "0 < tp_size op" "tp_size op < 2 ^ 31 - 32" "wf_ops n (insert (tp_index op) L) ops"
      using Cons.prems(2) by simp_all
    have c: "mem_brk (dr_heap d) + tp_size op + 4096 + cost_ops ops \<le> MAX_HEAP" using Cons.prems(3) ALLOC by simp
    then show ?thesis
      using valid_alloc_ok [OF Cons.prems(1) idx w(1-3), of t i] cost step [OF _ _ w(4)] ALLOC by (force simp: valid_op_def)
  next
    case REALLOC
    then have w: "tp_index op \<in> L" "0 < tp_size op" "tp_size op < 2 ^ 31 - 32" "tp_index op mod 256 < 128" "wf_ops n L ops"
      using Cons.prems(2) by simp_all
    have c: "mem_brk (dr_heap d) + tp_size op + 4096 + cost_ops ops \<le> MAX_HEAP" using Cons.prems(3) REALLOC by simp
    then show ?thesis
      using valid_realloc_result [OF Cons.prems(1) w(1-3), of t i] w(4) cost step [OF _ _ w(5)] REALLOC by (force simp: valid_op_def)
  next
    case FREE
    then have w: "tp_index op \<in> L" "wf_ops n (L - {tp_index op}) ops" using Cons.prems(2) by simp_all
    show ?thesis
      using valid_free_ok [OF Cons.prems(1) w(1)] step [OF _ _ w(2)] FREE Cons.prems(3) by (force simp: valid_op_def)
  qed
qed simp

lemma eval_ok:
  assumes "wf_ops (num_ids (dr_trace d)) {} (tr_ops (dr_trace d))" and "num_ops (dr_trace d) = int (length (tr_ops (dr_trace d)))"
    and "length (tr_blocks (dr_trace d)) = nat (num_ids (dr_trace d))" and "length (block_sizes (dr_trace d)) = nat (num_ids (dr_trace d))"
    and "4112 + cost_ops (tr_ops (dr_trace d)) \<le> MAX_HEAP"
  shows "\<exists>d'. eval_mm_valid P t d = Some (Done (True, d')) \<and> dr_errors d' = dr_errors d"
proof -
  obtain s' where s': "pk_init P (mem_reset_brk (dr_heap d)) = Some (0, s')" "I s' {}" "mem_brk s' \<le> 4112"
    using init_ok [of "mem_reset_brk (dr_heap d)"] by (auto simp: mem_reset_brk_def)
  let ?d = "(clear_ranges d)\<lparr>dr_heap := s'\<rparr>"
  have "good ?d (num_ids (dr_trace d)) {}"
    using s'(2) assms(3,4) by (auto simp: good_def recorded_def recs_def clear_ranges_def)
  moreover have "mem_brk (dr_heap ?d) + cost_ops (tr_ops (dr_trace d)) \<le> MAX_HEAP" using s'(3) assms(5) by simp
  ultimately obtain d' where "valid_ops P t 0 (tr_ops (dr_trace d)) ?d = Some (Done (True, d'))" "dr_errors d' = dr_errors ?d"
    using valid_ops_ok [OF _ assms(1), of ?d t 0] by blast
  then show ?thesis using s'(1) assms(2) by (simp add: eval_mm_valid_def Let_def clear_ranges_def)
qed

lemma eval_high_byte:
  assumes ops: "tr_ops (dr_trace d) = [\<lparr>tp_type = ALLOC, tp_index = idx, tp_size = m\<rparr>, \<lparr>tp_type = REALLOC, tp_index = idx, tp_size = n\<rparr>]"
    and k: "num_ops (dr_trace d) = 2" and idx: "0 \<le> idx" "idx < num_ids (dr_trace d)" "128 \<le> idx mod 256"
    and len: "length (tr_blocks (dr_trace d)) = nat (num_ids (dr_trace d))" "length (block_sizes (dr_trace d)) = nat (num_ids (dr_trace d))"
    and sz: "0 < m" "m < 2 ^ 20" "0 < n" "n < 2 ^ 20"
  shows "\<exists>d'. eval_mm_valid P t d = Some (Done (False, d')) \<and> dr_errors d' = dr_errors d @ [(t, LINENUM 1, NotPreserved)]"
proof -
  obtain s' where s': "pk_init P (mem_reset_brk (dr_heap d)) = Some (0, s')" "I s' {}" "mem_brk s' \<le> 4112"
    using init_ok [of "mem_reset_brk (dr_heap d)"] by (auto simp: mem_reset_brk_def)
  let ?d = "(clear_ranges d)\<lparr>dr_heap := s'\<rparr>"
  have g: "good ?d (num_ids (dr_trace d)) {}"
    using s'(2) len by (auto simp: good_def recorded_def recs_def clear_ranges_def)
  have z: "m < 2 ^ 31 - 32" "n < 2 ^ 31 - 32" using sz by simp_all
  have room: "mem_brk (dr_heap ?d) + m + 4096 \<le> MAX_HEAP" using s'(3) sz by (simp add: MAX_HEAP_def)
  obtain d1 where d1: "valid_alloc P t 0 idx m ?d = Some (Done (True, d1))" "good d1 (num_ids (dr_trace d)) {idx}"
      "dr_errors d1 = dr_errors ?d" "mem_brk (dr_heap d1) \<le> mem_brk (dr_heap ?d) + m + 4096"
    using valid_alloc_ok [OF g idx(1,2) _ sz(1) z(1) room, of t 0] by auto
  have room': "mem_brk (dr_heap d1) + n + 4096 \<le> MAX_HEAP" using d1(4) s'(3) sz by (simp add: MAX_HEAP_def)
  obtain d2 where "valid_realloc P t 1 idx n d1 = Some (Done (False, d2))" "dr_errors d2 = dr_errors d1 @ [(t, LINENUM 1, NotPreserved)]"
    using valid_realloc_result [OF d1(2) _ sz(3) z(2) room', of idx t 1] idx(3) by auto
  then show ?thesis
    using d1 s'(1) ops k by (auto simp: eval_mm_valid_def Let_def valid_op_def clear_ranges_def)
qed

end

section \<open>\<^verbatim>\<open>mm.c\<close> keeps the contract\<close>

definition mm_in :: "mm \<Rightarrow> (int \<times> int) set \<Rightarrow> bool" where
  "mm_in s A \<longleftrightarrow> (\<exists>B fl. heap_inv s B fl \<and> A = (\<lambda>(p, n). (p, n - 8)) ` allocs B)"

lemma mm_inE:
  assumes "mm_in s A" and "(p, m) \<in> A"
  obtains B fl where "heap_inv s B fl" "A = (\<lambda>(p, n). (p, n - 8)) ` allocs B" "(p, m + 8, True) \<in> B"
  using assms unfolding mm_in_def allocs_def by fastforce

lemma payload_insert: "(\<lambda>(p, n). (p, n - 8)) ` insert (q, m) A = insert (q, m - 8) ((\<lambda>(p, n). (p, n - (8 :: int))) ` A)"
  by simp

lemma payload_remove: "(\<lambda>(p, n). (p, n - 8)) ` (A - {(q, m)}) = ((\<lambda>(p, n). (p, n - (8 :: int))) ` A) - {(q, m - 8)}"
  by force

lemma payload_in: "(q, m - 8) \<in> (\<lambda>(p, n). (p, n - (8 :: int))) ` A \<longleftrightarrow> (q, m) \<in> A"
  by force

lemma same_kept: "kept B s s' \<Longrightarrow> same ((\<lambda>(p, n). (p, n - 8)) ` allocs B) s s'"
  unfolding kept_def same_def allocs_def by fastforce

lemma allocs_minus: "allocs (B - {(p, n, True)}) = allocs B - {(p, n)}"
  by (auto simp: allocs_def)

lemma request_upper:
  assumes "0 < n" and "n < 2 ^ 31 - 16"
  shows "max (request n) CHUNKSIZE \<le> n + 4096"
  using adjust_ok [OF assms] adjust_ok [of 512] adjust_ok [of 128] assms by (auto simp: request_def)

lemma request_adjust_upper:
  assumes "0 < n" and "n < 2 ^ 31 - 32"
  shows "max (request (adjust n)) CHUNKSIZE \<le> n + 4096"
  using adjust_ok [of n] adjust_ok [of "adjust n"] adjust_ok [of 512] adjust_ok [of 128] assms by (auto simp: request_def)

lemma mm_in_init:
  assumes "mem_brk s = 0"
  shows "\<exists>s'. mm_init s = Some (0, s') \<and> mm_in s' {} \<and> mem_brk s' \<le> 4112"
proof -
  have p: "mem_brk (prologue s) = 16" by (simp add: prologue_def)
  then obtain bp k s' where e: "extend_heap 1024 (prologue s) = Some (Some bp, s')" "extended (prologue s) {} bp k s'"
      "mem_brk s' = 16 + 4096"
    using extend_heap_ok [OF heap_prologue, of 4096 1024 s] by (auto simp: MAX_HEAP_def)
  then have "mm_in s' {}" by (auto simp: extended_def mm_in_def allocs_def)
  then show ?thesis using mm_init_prologue [OF assms] e by auto
qed

lemma mm_in_malloc:
  assumes I: "mm_in s A" and n: "0 < n" "n < 2 ^ 31 - 32" and room: "mem_brk s + n + 4096 \<le> MAX_HEAP"
  shows "\<exists>q m s'. mm_malloc n s = Some (Some q, s') \<and> mm_in s' (insert (q, m) A) \<and> (q, m) \<notin> A \<and> n \<le> m \<and>
    mem_brk s' \<le> mem_brk s + n + 4096 \<and> same A s s'"
proof -
  obtain B fl where h: "heap_inv s B fl" and A: "A = (\<lambda>(p, n). (p, n - 8)) ` allocs B" using I unfolding mm_in_def by blast
  have n16: "n < 2 ^ 31 - 16" using n by simp
  obtain r s' where r: "mm_malloc n s = Some (r, s')" "malloc_result n s B r s'" using mm_malloc_ok [OF h n(1) n16] by blast
  note up = request_upper [OF n(1) n16]
  obtain q where q: "r = Some q" using r(2) up room by (cases r) (auto simp: malloc_result_def)
  then obtain m B' fl' where m: "mem_brk s' \<le> mem_brk s + max (request n) CHUNKSIZE" "request n \<le> m" "heap_inv s' B' fl'"
      "(q, m) \<notin> allocs B" "allocs B' = insert (q, m) (allocs B)" "kept B s s'"
    using r(2) unfolding malloc_result_def obtained_def by auto
  have "mm_in s' (insert (q, m - 8) A)" using m(3,5) A payload_insert unfolding mm_in_def by metis
  moreover have "(q, m - 8) \<notin> A" using m(4) unfolding A payload_in .
  moreover have "n \<le> m - 8" using m(2) request_ok(3) [OF n(1) n16] by simp
  moreover have "mem_brk s' \<le> mem_brk s + n + 4096" using m(1) up by linarith
  ultimately show ?thesis using r(1) q same_kept [OF m(6)] A by blast
qed

lemma mm_in_realloc:
  assumes I: "mm_in s A" and p: "(p, k) \<in> A" and n: "0 < n" "n < 2 ^ 31 - 32" and room: "mem_brk s + n + 4096 \<le> MAX_HEAP"
  shows "\<exists>q m s'. mm_realloc (Some p) n s = Some (Some q, s') \<and> mm_in s' (insert (q, m) (A - {(p, k)})) \<and> (q, m) \<notin> A - {(p, k)} \<and>
    n \<le> m \<and> mem_brk s' \<le> mem_brk s + n + 4096 \<and> same (A - {(p, k)}) s s' \<and>
    (\<forall>i. 0 \<le> i \<longrightarrow> i < min k m \<longrightarrow> 4 dvd i \<longrightarrow> word s' (q + i) = word s (p + i))"
proof -
  obtain B fl where h: "heap_inv s B fl" and A: "A = (\<lambda>(p, n). (p, n - 8)) ` allocs B" and b: "(p, k + 8, True) \<in> B"
    using mm_inE [OF I p] .
  note up = request_adjust_upper [OF n]
  have "\<not> (mm_malloc (adjust n) s = Some (None, s))"
  proof
    assume none: "mm_malloc (adjust n) s = Some (None, s)"
    have a: "0 < adjust n" "adjust n < 2 ^ 31 - 16" using adjust_ok [of n] n by auto
    show False using mm_malloc_ok [OF h a] none up room by (auto simp: malloc_result_def)
  qed
  then obtain q m s' where q: "mm_realloc (Some p) n s = Some (Some q, s')"
      "resized (max (request (adjust n)) CHUNKSIZE) s B p (k + 8) q m s'" "n + 8 \<le> m"
    using mm_realloc_ok [OF h b n] by blast
  then obtain B' fl' where m: "mem_brk s' \<le> mem_brk s + max (request (adjust n)) CHUNKSIZE" "heap_inv s' B' fl'"
      "allocs B' = insert (q, m) (allocs B - {(p, k + 8)})" "(q, m) \<notin> allocs B - {(p, k + 8)}" "kept (B - {(p, k + 8, True)}) s s'"
      "\<forall>i. 0 \<le> i \<longrightarrow> i < min (k + 8) m - 8 \<longrightarrow> 4 dvd i \<longrightarrow> word s' (q + i) = word s (p + i)"
    unfolding resized_def by blast
  have A': "A - {(p, k)} = (\<lambda>(p, n). (p, n - 8)) ` (allocs B - {(p, k + 8)})" unfolding A payload_remove by simp
  have "mm_in s' (insert (q, m - 8) (A - {(p, k)}))" using m(2,3) A' payload_insert unfolding mm_in_def by metis
  moreover have "(q, m - 8) \<notin> A - {(p, k)}" using m(4) unfolding A' payload_in .
  moreover have "same (A - {(p, k)}) s s'" using same_kept [OF m(5)] unfolding allocs_minus A' .
  moreover have "min k (m - 8) = min (k + 8) m - 8" by simp
  moreover have "n \<le> m - 8" "mem_brk s' \<le> mem_brk s + n + 4096" using q(3) m(1) up by linarith+
  ultimately show ?thesis using q(1) m(6) by metis
qed

lemma mm_in_free:
  assumes I: "mm_in s A" and p: "(p, k) \<in> A"
  shows "\<exists>s'. mm_free p s = Some s' \<and> mm_in s' (A - {(p, k)}) \<and> mem_brk s' = mem_brk s \<and> same (A - {(p, k)}) s s'"
proof -
  obtain B fl where h: "heap_inv s B fl" and A: "A = (\<lambda>(p, n). (p, n - 8)) ` allocs B" and b: "(p, k + 8, True) \<in> B"
    using mm_inE [OF I p] .
  obtain s' B' fl' where s': "mm_free p s = Some s'" "heap_inv s' B' fl'" "allocs B' = allocs B - {(p, k + 8)}"
      "kept (B - {(p, k + 8, True)}) s s'" "mem_brk s' = mem_brk s"
    using mm_free_ok [OF h b] unfolding freed_def by blast
  have A': "A - {(p, k)} = (\<lambda>(p, n). (p, n - 8)) ` (allocs B - {(p, k + 8)})" unfolding A payload_remove by simp
  have "mm_in s' (A - {(p, k)})" using s'(2,3) A' unfolding mm_in_def by metis
  moreover have "same (A - {(p, k)}) s s'" using same_kept [OF s'(4)] unfolding allocs_minus A' .
  ultimately show ?thesis using s'(1,5) by blast
qed

interpretation mmc: mm_contract mm_package mm_in
proof
  show "\<exists>s'. pk_init mm_package s = Some (0, s') \<and> mm_in s' {} \<and> mem_brk s' \<le> 4112" if "mem_brk s = 0" for s
    using mm_in_init [OF that] by (simp add: mm_package_def)
next
  fix s A p m assume "mm_in s A" "(p, m) \<in> A"
  then obtain B fl where h: "heap_inv s B fl" "(p, m + 8, True) \<in> B" by (rule mm_inE)
  note cb = core_block [OF heap_invD(1) [OF h(1)] h(2)]
  have "4 dvd m" using cb(4) by presburger
  then show "8 dvd p \<and> 0 \<le> p \<and> 4 dvd m \<and> p + m \<le> mem_brk s" using cb by simp
next
  fix s A p m q k assume I: "mm_in s A" and pq: "(p, m) \<in> A" "(q, k) \<in> A"
  then obtain B fl where h: "heap_inv s B fl" "(p, m + 8, True) \<in> B" "(q, k + 8, True) \<in> B"
    unfolding mm_in_def allocs_def by fastforce
  show "(p, m) = (q, k) \<or> p + m \<le> q \<or> q + k \<le> p"
    using tiling_disjoint [OF coreD(3) [OF heap_invD(1) [OF h(1)]] h(2,3)] by auto
next
  fix s A p m w assume I: "mm_in s A" "(p, m) \<in> A" and w: "\<And>a. w a \<noteq> word s a \<Longrightarrow> p \<le> a \<and> a < p + m"
  obtain B fl where h: "heap_inv s B fl" "A = (\<lambda>(p, n). (p, n - 8)) ` allocs B" "(p, m + 8, True) \<in> B" using mm_inE [OF I] .
  have "heap_inv (s\<lparr>word := w\<rparr>) B fl" by (rule heap_payload(1) [OF h(1,3)]) (use w in simp)
  then show "mm_in (s\<lparr>word := w\<rparr>) A" using h(2) unfolding mm_in_def by blast
qed (use mm_in_malloc mm_in_realloc mm_in_free in \<open>simp_all add: mm_package_def\<close>)

section \<open>The driver on \<^verbatim>\<open>mm.c\<close>\<close>

text \<open>C32: \<^verbatim>\<open>eval_mm_valid\<close> run on \<^verbatim>\<open>mm.c\<close> accepts every trace that allocates an identifier before it reallocates or frees
  it, has sizes between 1 and \<open>2^31 - 33\<close>, reallocates no identifier whose low byte is 128 or more, and for which 4096 bytes
  beyond each requested size fit the heap; it reports no error and leaves defined C nowhere.\<close>

theorem mm_passes_driver:
  assumes "wf_ops (num_ids (dr_trace d)) {} (tr_ops (dr_trace d))" and "num_ops (dr_trace d) = int (length (tr_ops (dr_trace d)))"
    and "length (tr_blocks (dr_trace d)) = nat (num_ids (dr_trace d))" and "length (block_sizes (dr_trace d)) = nat (num_ids (dr_trace d))"
    and "4112 + cost_ops (tr_ops (dr_trace d)) \<le> MAX_HEAP"
  shows "\<exists>d'. eval_mm_valid mm_package t d = Some (Done (True, d')) \<and> dr_errors d' = dr_errors d"
  using mmc.eval_ok [OF assms] .

definition sample_ops :: "traceop_t list" where
  "sample_ops = [\<lparr>tp_type = ALLOC, tp_index = 0, tp_size = 100\<rparr>, \<lparr>tp_type = ALLOC, tp_index = 1, tp_size = 13\<rparr>,
     \<lparr>tp_type = REALLOC, tp_index = 0, tp_size = 5000\<rparr>, \<lparr>tp_type = FREE, tp_index = 1, tp_size = 0\<rparr>]"

definition sample :: "int \<Rightarrow> traceop_t list \<Rightarrow> mm drv" where
  "sample n ops = \<lparr>dr_heap = raw, dr_ranges = [], dr_errors = [], dr_trace = \<lparr>sugg_heapsize = 0, num_ids = n,
     num_ops = int (length ops), weight = 1, tr_ops = ops, tr_blocks = replicate (nat n) 0, block_sizes = replicate (nat n) 0\<rparr>\<rparr>"

theorem mm_passes_driver_witness:
  "\<exists>d'. eval_mm_valid mm_package 0 (sample 2 sample_ops) = Some (Done (True, d')) \<and> dr_errors d' = dr_errors (sample 2 sample_ops)"
  by (rule mm_passes_driver) (simp_all add: sample_def sample_ops_def MAX_HEAP_def)


definition high_ops :: "traceop_t list" where
  "high_ops = [\<lparr>tp_type = ALLOC, tp_index = 200, tp_size = 8\<rparr>, \<lparr>tp_type = REALLOC, tp_index = 200, tp_size = 16\<rparr>]"


text \<open>\<^verbatim>\<open>add_range\<close> accepts a payload that strictly encloses another: neither of its ends lies inside.\<close>

lemma add_range_misses_enclosed:
  assumes "lo mod 8 = 0" and "0 \<le> lo" and "lo + n \<le> mem_brk (dr_heap d)" and "dr_ranges d = [(plo, phi)]"
    and "lo < plo" and "plo \<le> phi" and "phi < lo + n - 1"
  shows "add_range lo n t i d = Done (True, d\<lparr>dr_ranges := [(lo, lo + n - 1), (plo, phi)]\<rparr>)"
  using assms by (simp add: add_range_def Let_def IS_ALIGNED_def mem_heap_lo_def mem_heap_hi_def)

lemma add_range_misses_enclosed_witness:
  "add_range 16 100 0 0 ((sample 1 [])\<lparr>dr_heap := raw\<lparr>mem_brk := 200\<rparr>, dr_ranges := [(32, 47)]\<rparr>) =
    Done (True, (sample 1 [])\<lparr>dr_heap := raw\<lparr>mem_brk := 200\<rparr>, dr_ranges := [(32, 47)]\<rparr>\<lparr>dr_ranges := [(16, 16 + 100 - 1), (32, 47)]\<rparr>)"
  by (rule add_range_misses_enclosed) simp_all

end
