(* ===== verification/Mm_Types.thy ===== *)
theory Mm_Types
  imports Mm_Props
begin

text \<open>
  The types of the allocator's state: heap words are of 32 bits, the break lies in the heap and only grows.  Every
  function of \<^verbatim>\<open>lab7/mm.c\<close> keeps them, on any heap, well formed or not.
\<close>

section \<open>The invariant\<close>

definition heap_typed :: "mm \<Rightarrow> bool" where
  "heap_typed s \<longleftrightarrow> (\<forall>a. 0 \<le> word s a \<and> word s a < 2 ^ 32) \<and> 0 \<le> mem_brk s \<and> mem_brk s \<le> MAX_HEAP"

definition evolves :: "mm \<Rightarrow> mm \<Rightarrow> bool" where
  "evolves s s' \<longleftrightarrow> mem_brk s \<le> mem_brk s' \<and> (heap_typed s \<longrightarrow> heap_typed s')"

named_theorems evolving \<open>functions along which a heap evolves\<close>

lemma heap_typed_fields [simp]:
  "heap_typed (s\<lparr>hd_free := x\<rparr>) = heap_typed s" "heap_typed (s\<lparr>ft_free := x\<rparr>) = heap_typed s"
  "heap_typed (s\<lparr>heap_listp := p\<rparr>) = heap_typed s"
  by (simp_all add: heap_typed_def)

section \<open>Memory\<close>

lemma PUT_evolves [evolving]: "PUT p v s = Some s' \<Longrightarrow> evolves s s'"
  by (auto simp: PUT_def heap_typed_def evolves_def split: if_splits)

lemma PUT_FTR_evolves [evolving]: "PUT_FTR p v s = Some s' \<Longrightarrow> evolves s s'"
  by (auto simp: PUT_FTR_def bind_eq_Some_conv evolves_def dest!: evolving)

lemma memcpy_evolves [evolving]: "mm_memcpy d p n s = Some s' \<Longrightarrow> evolves s s'"
  by (auto simp: mm_memcpy_def heap_typed_def evolves_def split: if_splits)

lemma sbrk_evolves [evolving]: "mem_sbrk n s = (r, s') \<Longrightarrow> evolves s s'"
  by (auto simp: mem_sbrk_def evolves_def heap_typed_def split: if_splits)

section \<open>Blocks\<close>

lemma insert_evolves [evolving]: "insert_free_block bp s = Some s' \<Longrightarrow> evolves s s'"
  by (auto simp: insert_free_block_def bind_eq_Some_conv evolves_def dest!: evolving split: option.splits)

lemma replace_evolves [evolving]: "replace_free_block b c s = Some s' \<Longrightarrow> evolves s s'"
  by (auto simp: replace_free_block_def bind_eq_Some_conv evolves_def dest!: evolving split: if_splits)

lemma remove_evolves [evolving]: "remove_free_block b s = Some s' \<Longrightarrow> evolves s s'"
  by (auto simp: remove_free_block_def bind_eq_Some_conv evolves_def dest!: evolving split: option.splits)

lemma extend_evolves [evolving]: "extend_heap n s = Some (r, s') \<Longrightarrow> evolves s s'"
  by (auto simp: extend_heap_def Let_def bind_eq_Some_conv evolves_def dest!: evolving split: prod.splits option.splits if_splits)

lemma place_evolves [evolving]: "place bp n s = Some (r, s') \<Longrightarrow> evolves s s'"
  by (auto simp: place_def bind_eq_Some_conv evolves_def dest!: evolving split: if_splits)

lemma coalesce_evolves [evolving]: "coalesce bp s = Some (r, s') \<Longrightarrow> evolves s s'"
  by (auto simp: coalesce_def Let_def bind_eq_Some_conv evolves_def dest!: evolving split: if_splits)

section \<open>The exported functions\<close>

lemma init_evolves [evolving]: "mm_init s = Some (r, s') \<Longrightarrow> evolves s s'"
  by (auto simp: mm_init_def Let_def bind_eq_Some_conv evolves_def dest!: evolving split: prod.splits option.splits)

lemma malloc_evolves [evolving]: "mm_malloc n s = Some (r, s') \<Longrightarrow> evolves s s'"
  by (auto simp: mm_malloc_def Let_def bind_eq_Some_conv evolves_def dest!: evolving split: option.splits if_splits)

lemma free_evolves [evolving]: "mm_free p s = Some s' \<Longrightarrow> evolves s s'"
  by (auto simp: mm_free_def bind_eq_Some_conv evolves_def dest!: evolving)

lemma shrink_evolves [evolving]: "realloc_shrink p a n s = Some s' \<Longrightarrow> evolves s s'"
  by (auto simp: realloc_shrink_def bind_eq_Some_conv evolves_def dest!: evolving split: if_splits)

lemma move_evolves [evolving]: "realloc_move p a n s = Some (r, s') \<Longrightarrow> evolves s s'"
  by (auto simp: realloc_move_def bind_eq_Some_conv evolves_def dest!: evolving split: option.splits)

lemma grow_evolves [evolving]: "realloc_grow p a n s = Some (r, s') \<Longrightarrow> evolves s s'"
  by (auto simp: realloc_grow_def Let_def bind_eq_Some_conv evolves_def dest!: evolving split: if_splits)

lemma realloc_evolves [evolving]: "mm_realloc p n s = Some (r, s') \<Longrightarrow> evolves s s'"
  by (auto simp: mm_realloc_def Let_def bind_eq_Some_conv evolves_def dest!: evolving split: option.splits if_splits)

section \<open>Calls in any order\<close>

datatype mm_call = Init | Malloc int | Free int | Realloc "int option" int

fun run_call :: "mm_call \<Rightarrow> mm \<Rightarrow> mm ub" where
  "run_call Init s = do { (_, s) \<leftarrow> mm_init s; Some s }"
| "run_call (Malloc n) s = do { (_, s) \<leftarrow> mm_malloc n s; Some s }"
| "run_call (Free p) s = mm_free p s"
| "run_call (Realloc p n) s = do { (_, s) \<leftarrow> mm_realloc p n s; Some s }"

fun run_calls :: "mm_call list \<Rightarrow> mm \<Rightarrow> mm ub" where
  "run_calls [] s = Some s"
| "run_calls (c # cs) s = do { s \<leftarrow> run_call c s; run_calls cs s }"

lemma run_call_evolves: "run_call c s = Some s' \<Longrightarrow> evolves s s'"
  by (cases c) (auto simp: bind_eq_Some_conv dest!: evolving)

lemma run_calls_evolves: "run_calls cs s = Some s' \<Longrightarrow> evolves s s'"
proof (induction cs arbitrary: s)
  case (Cons c cs)
  then obtain t where "run_call c s = Some t" "run_calls cs t = Some s'" by (auto simp: bind_eq_Some_conv)
  then show ?case using run_call_evolves Cons.IH unfolding evolves_def by (meson order_trans)
qed (simp add: evolves_def)

text \<open>C29: Whatever calls of \<^verbatim>\<open>mm_init\<close>, \<^verbatim>\<open>mm_malloc\<close>, \<^verbatim>\<open>mm_free\<close> and \<^verbatim>\<open>mm_realloc\<close> a program makes, with right
  or wrong arguments, as long as they stay in the heap its words keep to 32 bits and the break stays within the limit and
  never goes back.\<close>

theorem mm_keeps_types:
  assumes "heap_typed s" and "run_calls cs s = Some s'"
  shows "heap_typed s' \<and> mem_brk s \<le> mem_brk s'"
  using run_calls_evolves [OF assms(2)] assms(1) by (simp add: evolves_def)

theorem mm_keeps_types_witness:
  "\<exists>s'. run_calls [Init, Malloc 100, Malloc 5000, Free 5000] raw = Some s' \<and> heap_typed s' \<and> mem_brk raw \<le> mem_brk s'"
proof -
  have "\<not> Option.is_none (run_calls [Init, Malloc 100, Malloc 5000, Free 5000] raw)" by code_simp
  then obtain s' where r: "run_calls [Init, Malloc 100, Malloc 5000, Free 5000] raw = Some s'"
    by (auto simp: Option.is_none_def)
  have "heap_typed raw" by (simp add: heap_typed_def raw_def MAX_HEAP_def)
  from mm_keeps_types [OF this r] show ?thesis using r by blast
qed

end
