(* ===== verification/Mdriver_Util.thy ===== *)
theory Mdriver_Util
  imports Mdriver_Props Mm_Types
begin

text \<open>
  The runs of \<^verbatim>\<open>lab7/mdriver.c\<close> that follow a valid one: \<^verbatim>\<open>eval_mm_util\<close>, whose result is the largest live payload
  of the trace over the size of the heap and at most one, and \<^verbatim>\<open>eval_mm_speed\<close>.
\<close>

section \<open>The live payload of a trace\<close>

definition live_step :: "traceop_t \<Rightarrow> (int \<Rightarrow> int) \<Rightarrow> int \<Rightarrow> int" where
  "live_step op f = f(tp_index op := (if tp_type op = FREE then 0 else tp_size op))"

definition live :: "traceop_t list \<Rightarrow> int \<Rightarrow> int" where
  "live ops = fold live_step ops (\<lambda>_. 0)"

definition payload :: "int \<Rightarrow> traceop_t list \<Rightarrow> int" where
  "payload n ops = (\<Sum>i\<in>{0..<n}. live ops i)"

definition peak :: "int \<Rightarrow> traceop_t list \<Rightarrow> int" where
  "peak n ops = Max ((\<lambda>k. payload n (take k ops)) ` {..length ops})"

lemma payload_Nil: "payload n [] = 0"
  by (simp add: payload_def live_def)

lemma payload_snoc:
  assumes "0 \<le> tp_index op" and "tp_index op < n"
  shows "payload n (ops @ [op]) = payload n ops + ((if tp_type op = FREE then 0 else tp_size op) - live ops (tp_index op))"
proof -
  let ?v = "if tp_type op = FREE then 0 else tp_size op"
  have "{0..<n} = insert (tp_index op) ({0..<n} - {tp_index op})" using assms by auto
  then have s: "sum f {0..<n} = f (tp_index op) + sum f ({0..<n} - {tp_index op})" for f :: "int \<Rightarrow> int"
    using sum.insert [of "{0..<n} - {tp_index op}" "tp_index op" f] by simp
  have "(\<Sum>i\<in>{0..<n} - {tp_index op}. live (ops @ [op]) i) = (\<Sum>i\<in>{0..<n} - {tp_index op}. live ops i)"
    by (rule sum.cong) (auto simp: live_def live_step_def)
  moreover have "live (ops @ [op]) (tp_index op) = ?v" by (simp add: live_def live_step_def)
  ultimately show ?thesis unfolding payload_def using s [of "live (ops @ [op])"] s [of "live ops"] by simp
qed

lemma peak_Nil: "peak n [] = 0"
  by (simp add: peak_def payload_Nil)

lemma peak_snoc: "peak n (ops @ [op]) = max (peak n ops) (payload n (ops @ [op]))"
proof -
  have "{..length (ops @ [op])} = insert (Suc (length ops)) {..length ops}" by auto
  then have "(\<lambda>k. payload n (take k (ops @ [op]))) ` {..length (ops @ [op])} =
      insert (payload n (ops @ [op])) ((\<lambda>k. payload n (take k ops)) ` {..length ops})"
    by simp
  then show ?thesis unfolding peak_def by (simp add: max.commute)
qed

lemma peak_ge: "payload n ops \<le> peak n ops"
proof -
  have "payload n (take (length ops) ops) \<le> peak n ops" unfolding peak_def by (intro Max_ge imageI) auto
  then show ?thesis by simp
qed

lemma peak_nonneg: "0 \<le> peak n ops"
proof -
  have "payload n (take 0 ops) \<le> peak n ops" unfolding peak_def by (intro Max_ge imageI) auto
  then show ?thesis by (simp add: payload_Nil)
qed

lemma wf_cost: "wf_ops n L ops \<Longrightarrow> 0 \<le> cost_ops ops"
  by (induction ops arbitrary: L) (auto split: optype.splits)

section \<open>Disjoint blocks fit below the break\<close>

lemma disjoint_sum:
  fixes a z :: "'i \<Rightarrow> int"
  assumes "finite L" and "\<And>i. i \<in> L \<Longrightarrow> 0 \<le> a i \<and> 0 \<le> z i \<and> a i + z i \<le> b"
    and "\<And>i j. i \<in> L \<Longrightarrow> j \<in> L \<Longrightarrow> i \<noteq> j \<Longrightarrow> a i + z i \<le> a j \<or> a j + z j \<le> a i"
    and "0 \<le> b"
  shows "sum z L \<le> b"
proof -
  let ?S = "\<lambda>i. {a i ..< a i + z i}"
  have "int (card (\<Union>i\<in>L. ?S i)) = (\<Sum>i\<in>L. int (card (?S i)))"
    using assms(1,3) by (subst card_UN_disjoint) fastforce+
  also have "\<dots> = sum z L" by (rule sum.cong) (use assms(2) in auto)
  finally have "sum z L = int (card (\<Union>i\<in>L. ?S i))" by simp
  also have "\<dots> \<le> int (card {0 ..< b})"
    using assms(2) by (intro of_nat_mono card_mono) fastforce+
  finally show ?thesis using assms(4) by simp
qed

section \<open>Writing the table of blocks\<close>

lemma put_block_at:
  assumes "0 \<le> i" and "i < n" and "length (tr_blocks (dr_trace d)) = nat n"
  obtains d' where "put_block i q d = Some d'" "length (tr_blocks (dr_trace d')) = nat n" "dr_heap d' = dr_heap d"
    "\<And>j. 0 \<le> j \<Longrightarrow> j < n \<Longrightarrow> blk d' j = (if j = i then q else blk d j)"
proof (rule that)
  let ?d = "d\<lparr>dr_trace := (dr_trace d)\<lparr>tr_blocks := (tr_blocks (dr_trace d))[nat i := q]\<rparr>\<rparr>"
  show "put_block i q d = Some ?d" using assms by (simp add: put_block_def)
  show "length (tr_blocks (dr_trace ?d)) = nat n" "dr_heap ?d = dr_heap d" using assms by simp_all
  show "blk ?d j = (if j = i then q else blk d j)" if "0 \<le> j" "j < n" for j
    using assms that by (auto simp: blk_def nth_list_update)
qed

lemma set_block_at:
  assumes "0 \<le> i" and "i < n" and "length (tr_blocks (dr_trace d)) = nat n" and "length (block_sizes (dr_trace d)) = nat n"
    and "0 < z" and "z < 2 ^ 31"
  obtains d' where "set_block i q z d = Some d'" "length (tr_blocks (dr_trace d')) = nat n"
    "length (block_sizes (dr_trace d')) = nat n" "dr_heap d' = dr_heap d"
    "\<And>j. 0 \<le> j \<Longrightarrow> j < n \<Longrightarrow> blk d' j = (if j = i then q else blk d j)"
    "\<And>j. 0 \<le> j \<Longrightarrow> j < n \<Longrightarrow> bsz d' j = (if j = i then z else bsz d j)"
proof (rule that)
  let ?d = "d\<lparr>dr_trace := (dr_trace d)\<lparr>tr_blocks := (tr_blocks (dr_trace d))[nat i := q],
      block_sizes := (block_sizes (dr_trace d))[nat i := z]\<rparr>\<rparr>"
  show "set_block i q z d = Some ?d" using assms by (simp add: set_block_def u64_def)
  show "length (tr_blocks (dr_trace ?d)) = nat n" "length (block_sizes (dr_trace ?d)) = nat n" "dr_heap ?d = dr_heap d"
    using assms by simp_all
  show "blk ?d j = (if j = i then q else blk d j)" "bsz ?d j = (if j = i then z else bsz d j)" if "0 \<le> j" "j < n" for j
    using assms that by (auto simp: blk_def bsz_def nth_list_update)
qed

section \<open>What a package must promise besides\<close>

locale mm_growing = mm_contract +
  assumes init_takes: "mem_brk s = 0 \<Longrightarrow> pk_init P s = Some (r, s') \<Longrightarrow> 0 < mem_brk s'"
    and malloc_grows: "pk_malloc P n s = Some (x, s') \<Longrightarrow> mem_brk s \<le> mem_brk s'"
    and realloc_grows: "pk_realloc P p n s = Some (x, s') \<Longrightarrow> mem_brk s \<le> mem_brk s'"

text \<open>The driver's table of blocks without the contents; \<open>cap\<close> gives the capacities.\<close>

context mm_growing
begin

definition placed :: "mm drv \<Rightarrow> int \<Rightarrow> (int \<Rightarrow> int) \<Rightarrow> int set \<Rightarrow> bool" where
  "placed d n cap L \<longleftrightarrow> length (tr_blocks (dr_trace d)) = nat n \<and> L \<subseteq> {0..<n} \<and> (\<forall>i \<in> L. 0 < cap i) \<and>
     inj_on (blk d) L \<and> I (dr_heap d) (recs d cap L)"

lemma placed_index: "placed d n cap L \<Longrightarrow> i \<in> L \<Longrightarrow> 0 \<le> i \<and> i < int (length (tr_blocks (dr_trace d))) \<and> i < n"
  by (auto simp: placed_def)

lemma placed_get: "placed d n cap L \<Longrightarrow> i \<in> L \<Longrightarrow> arr_get (tr_blocks (dr_trace d)) i = Some (blk d i)"
  using placed_index by (force simp: blk_def)

lemma placed_sum:
  assumes "placed d n cap L" and "\<forall>i \<in> L. 0 \<le> z i \<and> z i \<le> cap i" and "0 \<le> mem_brk (dr_heap d)"
  shows "sum z L \<le> mem_brk (dr_heap d)"
proof (rule disjoint_sum [of L "blk d"])
  have I: "I (dr_heap d) (recs d cap L)" and inj: "inj_on (blk d) L" using assms(1) by (simp_all add: placed_def)
  show "finite L" using assms(1) finite_subset [of L "{0..<n}"] by (simp add: placed_def)
  show "0 \<le> blk d i \<and> 0 \<le> z i \<and> blk d i + z i \<le> mem_brk (dr_heap d)" if "i \<in> L" for i
    using block_ok [OF I, of "blk d i" "cap i"] that assms(2) by (auto simp: recs_def dest!: bspec)
  show "blk d i + z i \<le> blk d j \<or> blk d j + z j \<le> blk d i" if "i \<in> L" "j \<in> L" "i \<noteq> j" for i j
  proof -
    have "blk d i \<noteq> blk d j" using inj that by (auto simp: inj_on_def)
    then have "blk d i + cap i \<le> blk d j \<or> blk d j + cap j \<le> blk d i"
      using apart [OF I, of "blk d i" "cap i" "blk d j" "cap j"] that by (auto simp: recs_def)
    moreover have "z i \<le> cap i" "z j \<le> cap j" using assms(2) that by auto
    ultimately show ?thesis by linarith
  qed
qed (rule assms(3))

text \<open>A new block enters the table.\<close>

lemma placed_fresh:
  assumes L: "L - {i} \<subseteq> {0..<n}" "\<forall>j \<in> L - {i}. 0 < cap j" "inj_on (blk d) (L - {i})"
    and I: "I h (insert (q, m) (recs d cap (L - {i})))" and fresh: "(q, m) \<notin> recs d cap (L - {i})"
    and i: "0 < m" "0 \<le> i" "i < n"
    and d': "length (tr_blocks (dr_trace d')) = nat n" "dr_heap d' = h"
      "\<And>j. 0 \<le> j \<Longrightarrow> j < n \<Longrightarrow> blk d' j = (if j = i then q else blk d j)"
  shows "placed d' n (cap(i := m)) (insert i L)"
proof -
  have b: "blk d' j = blk d j" if "j \<in> L - {i}" for j using d'(3) [of j] L(1) that by auto
  have q: "q \<noteq> blk d j" if "j \<in> L - {i}" for j
    using apart [OF I, of q m "blk d j" "cap j"] that fresh i(1) L(2) by (force simp: recs_def)
  have bi: "blk d' i = q" using i(2,3) d'(3) by simp
  have "inj_on (blk d') (L - {i})" using L(3) b by (simp add: inj_on_def)
  moreover have "blk d' i \<notin> blk d' ` (L - {i} - {i})" using b q bi by auto
  ultimately have inj: "inj_on (blk d') (insert i L)" using inj_on_insert [of "blk d'" i "L - {i}"] by simp
  have "recs d' (cap(i := m)) (L - {i}) = recs d cap (L - {i})"
    unfolding recs_def using b by (intro image_cong) auto
  then have "recs d' (cap(i := m)) (insert i L) = insert (q, m) (recs d cap (L - {i}))"
    using bi unfolding recs_def by (metis (no_types, lifting) fun_upd_same image_insert insert_Diff_single)
  then have "I (dr_heap d') (recs d' (cap(i := m)) (insert i L))" using I d'(2) by simp
  moreover have "insert i L \<subseteq> {0..<n}" using L(1) i by auto
  moreover have "\<forall>j \<in> insert i L. 0 < (cap(i := m)) j" using L(2) i(1) by auto
  ultimately show ?thesis using inj d'(1) unfolding placed_def by blast
qed

lemma placed_malloc:
  assumes p: "placed d n cap L" and i: "0 \<le> i" "i < n" "i \<notin> L" and z: "0 < z" "z < 2 ^ 31 - 32"
    and room: "mem_brk (dr_heap d) + z + 4096 \<le> MAX_HEAP"
  obtains q m h where "pk_malloc P (u64 z) (dr_heap d) = Some (Some q, h)" "z \<le> m"
    "mem_brk (dr_heap d) \<le> mem_brk h" "mem_brk h \<le> mem_brk (dr_heap d) + z + 4096"
    "\<And>d'. length (tr_blocks (dr_trace d')) = nat n \<Longrightarrow> dr_heap d' = h \<Longrightarrow>
      (\<And>j. 0 \<le> j \<Longrightarrow> j < n \<Longrightarrow> blk d' j = (if j = i then q else blk d j)) \<Longrightarrow> placed d' n (cap(i := m)) (insert i L)"
proof -
  have I: "I (dr_heap d) (recs d cap L)" using p by (simp add: placed_def)
  obtain q m h where m: "pk_malloc P z (dr_heap d) = Some (Some q, h)" "I h (insert (q, m) (recs d cap L))"
      "(q, m) \<notin> recs d cap L" "z \<le> m" "mem_brk h \<le> mem_brk (dr_heap d) + z + 4096"
    using malloc_ok [OF I z room] by blast
  have L: "L - {i} = L" "L \<subseteq> {0..<n}" "\<forall>j \<in> L. 0 < cap j" "inj_on (blk d) L" using p i(3) by (auto simp: placed_def)
  have m0: "0 < m" using m(4) z(1) by simp
  have "u64 z = z" using z by (simp add: u64_def)
  then show thesis
    using that [of q h m] m(1,4,5) malloc_grows [OF m(1)]
      placed_fresh [of L i n cap d, unfolded L(1), OF L(2-4) m(2,3) m0 i(1,2)] by simp
qed

lemma placed_realloc:
  assumes p: "placed d n cap L" and i: "i \<in> L" and z: "0 < z" "z < 2 ^ 31 - 32"
    and room: "mem_brk (dr_heap d) + z + 4096 \<le> MAX_HEAP"
  obtains q m h where "pk_realloc P (Some (blk d i)) (u64 z) (dr_heap d) = Some (Some q, h)" "z \<le> m"
    "mem_brk (dr_heap d) \<le> mem_brk h" "mem_brk h \<le> mem_brk (dr_heap d) + z + 4096"
    "\<And>d'. length (tr_blocks (dr_trace d')) = nat n \<Longrightarrow> dr_heap d' = h \<Longrightarrow>
      (\<And>j. 0 \<le> j \<Longrightarrow> j < n \<Longrightarrow> blk d' j = (if j = i then q else blk d j)) \<Longrightarrow> placed d' n (cap(i := m)) (insert i L)"
proof -
  have I: "I (dr_heap d) (recs d cap L)" using p by (simp add: placed_def)
  have pk: "(blk d i, cap i) \<in> recs d cap L" using i by (auto simp: recs_def)
  obtain q m h where m: "pk_realloc P (Some (blk d i)) z (dr_heap d) = Some (Some q, h)"
      "I h (insert (q, m) (recs d cap L - {(blk d i, cap i)}))" "(q, m) \<notin> recs d cap L - {(blk d i, cap i)}" "z \<le> m"
      "mem_brk h \<le> mem_brk (dr_heap d) + z + 4096"
    using realloc_ok [OF I pk z room] by blast
  have rr: "recs d cap L - {(blk d i, cap i)} = recs d cap (L - {i})"
    using p i unfolding recs_def placed_def inj_on_def by auto
  have new: "placed d' n (cap(i := m)) (insert i L)"
    if "length (tr_blocks (dr_trace d')) = nat n" "dr_heap d' = h"
      "\<And>j. 0 \<le> j \<Longrightarrow> j < n \<Longrightarrow> blk d' j = (if j = i then q else blk d j)" for d'
  proof -
    have b: "L - {i} \<subseteq> {0..<n}" "\<forall>j \<in> L - {i}. 0 < cap j" "0 \<le> i" "i < n" "0 < m" using p i z(1) m(4) by (auto simp: placed_def)
    have inj: "inj_on (blk d) (L - {i})" using p unfolding placed_def by (blast intro: inj_on_diff)
    show ?thesis using placed_fresh [OF b(1,2) inj m(2,3) [unfolded rr] b(5,3,4) that] by simp
  qed
  have "u64 z = z" using z by (simp add: u64_def)
  then show thesis using that [of q h m] m(1,4,5) realloc_grows [OF m(1)] new by simp
qed

lemma placed_free:
  assumes p: "placed d n cap L" and i: "i \<in> L"
  obtains h where "pk_free P (blk d i) (dr_heap d) = Some h" "mem_brk h = mem_brk (dr_heap d)"
    "placed (d\<lparr>dr_heap := h\<rparr>) n cap (L - {i})"
proof -
  have I: "I (dr_heap d) (recs d cap L)" using p by (simp add: placed_def)
  have pk: "(blk d i, cap i) \<in> recs d cap L" using i by (auto simp: recs_def)
  obtain h where h: "pk_free P (blk d i) (dr_heap d) = Some h" "I h (recs d cap L - {(blk d i, cap i)})"
      "mem_brk h = mem_brk (dr_heap d)"
    using free_ok [OF I pk] by blast
  have "recs d cap L - {(blk d i, cap i)} = recs d cap (L - {i})"
    using p i unfolding recs_def placed_def inj_on_def by auto
  moreover have "blk (d\<lparr>dr_heap := h\<rparr>) = blk d" by (simp add: blk_def fun_eq_iff)
  ultimately have "placed (d\<lparr>dr_heap := h\<rparr>) n cap (L - {i})"
    using p h(2) by (auto simp: placed_def intro: inj_on_diff)
  then show thesis using that h(1,3) by blast
qed

text \<open>Before each request: \<open>pre\<close> are the requests behind.\<close>

definition metered :: "mm drv \<times> counters \<Rightarrow> int \<Rightarrow> int set \<Rightarrow> traceop_t list \<Rightarrow> bool" where
  "metered dc n L pre \<longleftrightarrow> (case dc of (d, c) \<Rightarrow> \<exists>cap. placed d n cap L \<and> length (block_sizes (dr_trace d)) = nat n \<and>
     (\<forall>i \<in> L. bsz d i = live pre i \<and> 0 < live pre i \<and> live pre i \<le> cap i \<and> live pre i < 2 ^ 31) \<and>
     (\<forall>i. i \<notin> L \<longrightarrow> live pre i = 0) \<and> total c = payload n pre \<and> max_total c = peak n pre \<and>
     0 < mem_brk (dr_heap d) \<and> mem_brk (dr_heap d) \<le> MAX_HEAP \<and> peak n pre \<le> mem_brk (dr_heap d))"

lemma payload_le:
  assumes "placed d n cap L" and "\<forall>i \<in> L. 0 < live ops i \<and> live ops i \<le> cap i" and "\<forall>i. i \<notin> L \<longrightarrow> live ops i = 0"
    and "0 < mem_brk (dr_heap d)"
  shows "0 \<le> payload n ops \<and> payload n ops \<le> mem_brk (dr_heap d)"
proof -
  have "payload n ops = sum (live ops) L"
    unfolding payload_def using assms(1,3) by (intro sum.mono_neutral_right) (auto simp: placed_def)
  moreover have "0 \<le> sum (live ops) L" using assms(2) by (intro sum_nonneg) (auto simp: less_imp_le)
  moreover have "sum (live ops) L \<le> mem_brk (dr_heap d)"
    using assms(2,4) by (intro placed_sum [OF assms(1)]) (auto simp: less_imp_le)
  ultimately show ?thesis by simp
qed

text \<open>The state after a request: its counters are those of the longer prefix.\<close>

lemma metered_step:
  assumes pre: "metered (d0, c) n L0 pre" and i: "0 \<le> tp_index op" "tp_index op < n"
    and p: "placed d n cap L" "length (block_sizes (dr_trace d)) = nat n"
    and sz: "\<forall>i \<in> L. bsz d i = live (pre @ [op]) i \<and> 0 < live (pre @ [op]) i \<and> live (pre @ [op]) i \<le> cap i \<and> live (pre @ [op]) i < 2 ^ 31"
      "\<forall>i. i \<notin> L \<longrightarrow> live (pre @ [op]) i = 0"
    and brk: "mem_brk (dr_heap d0) \<le> mem_brk (dr_heap d)" "mem_brk (dr_heap d) \<le> MAX_HEAP"
    and t: "t = total c + ((if tp_type op = FREE then 0 else tp_size op) - live pre (tp_index op))"
  shows "int_ok t" "metered (d, c\<lparr>total := t, max_total := max (max_total c) t\<rparr>) n L (pre @ [op])"
proof -
  have c: "total c = payload n pre" "max_total c = peak n pre" "0 < mem_brk (dr_heap d0)" "peak n pre \<le> mem_brk (dr_heap d0)"
    using pre by (auto simp: metered_def)
  have t': "t = payload n (pre @ [op])" using t c(1) payload_snoc [OF i] by simp
  have le: "0 \<le> t" "t \<le> mem_brk (dr_heap d)"
    unfolding t' using payload_le [OF p(1), of "pre @ [op]"] sz brk c(3) by auto
  show "int_ok t" using le brk by (simp add: int_ok_def MAX_HEAP_def)
  have "max (max_total c) t = peak n (pre @ [op])" unfolding peak_snoc c(2) t' ..
  then show "metered (d, c\<lparr>total := t, max_total := max (max_total c) t\<rparr>) n L (pre @ [op])"
    unfolding metered_def using p sz t' brk c le by auto
qed

text \<open>The common tail of an allocation and a reallocation.\<close>

lemma util_new:
  assumes m: "metered (d, c) n L pre" and op: "0 \<le> tp_index op" "tp_index op < n" "tp_type op \<noteq> FREE"
    and z: "0 < tp_size op" "tp_size op \<le> k" "tp_size op < 2 ^ 31 - 32"
    and brk: "mem_brk (dr_heap d) \<le> mem_brk h" "mem_brk h \<le> MAX_HEAP"
    and cap: "\<forall>i \<in> L. bsz d i = live pre i \<and> 0 < live pre i \<and> live pre i \<le> cap i \<and> live pre i < 2 ^ 31"
    and new: "\<And>d'. length (tr_blocks (dr_trace d')) = nat n \<Longrightarrow> dr_heap d' = h \<Longrightarrow>
      (\<And>j. 0 \<le> j \<Longrightarrow> j < n \<Longrightarrow> blk d' j = (if j = tp_index op then q else blk d j)) \<Longrightarrow>
      placed d' n (cap(tp_index op := k)) (insert (tp_index op) L)"
    and t: "t = total c + (tp_size op - live pre (tp_index op))"
  obtains d' where "set_block (tp_index op) q (tp_size op) (d\<lparr>dr_heap := h\<rparr>) = Some d'" "dr_heap d' = h"
    "int_ok (tp_size op - live pre (tp_index op))" "int_ok t"
    "metered (d', c\<lparr>total := t, max_total := max (max_total c) t\<rparr>) n (insert (tp_index op) L) (pre @ [op])"
proof -
  let ?i = "tp_index op" and ?z = "tp_size op" and ?d = "d\<lparr>dr_heap := h\<rparr>" and ?l = "live (pre @ [op])"
  have len: "length (tr_blocks (dr_trace ?d)) = nat n" "length (block_sizes (dr_trace ?d)) = nat n" and Ln: "L \<subseteq> {0..<n}"
      and out: "\<forall>i. i \<notin> L \<longrightarrow> live pre i = 0"
    using m by (auto simp: metered_def placed_def)
  have e: "blk ?d = blk d" "bsz ?d = bsz d" by (simp_all add: blk_def bsz_def fun_eq_iff)
  have z31: "?z < 2 ^ 31" using z(3) by simp
  obtain d' where d': "set_block ?i q ?z ?d = Some d'" "length (tr_blocks (dr_trace d')) = nat n"
      "length (block_sizes (dr_trace d')) = nat n" "dr_heap d' = dr_heap ?d"
      "\<And>j. 0 \<le> j \<Longrightarrow> j < n \<Longrightarrow> blk d' j = (if j = ?i then q else blk ?d j)"
      "\<And>j. 0 \<le> j \<Longrightarrow> j < n \<Longrightarrow> bsz d' j = (if j = ?i then ?z else bsz ?d j)"
    using set_block_at [OF op(1,2) len z(1) z31, of q] by blast
  have h: "dr_heap d' = h" using d'(4) by simp
  have after: "?l j = (if j = ?i then ?z else live pre j)" for j using op(3) by (simp add: live_def live_step_def)
  have sz: "\<forall>j \<in> insert ?i L. bsz d' j = ?l j \<and> 0 < ?l j \<and> ?l j \<le> (cap(?i := k)) j \<and> ?l j < 2 ^ 31"
  proof
    fix j assume j: "j \<in> insert ?i L"
    show "bsz d' j = ?l j \<and> 0 < ?l j \<and> ?l j \<le> (cap(?i := k)) j \<and> ?l j < 2 ^ 31"
    proof (cases "j = ?i")
      case True
      then show ?thesis using d'(6) [of j] op(1,2) z(1,2) z31 after by simp
    next
      case False
      then have "j \<in> L" "0 \<le> j" "j < n" using j Ln by auto
      then show ?thesis using d'(6) [of j] False cap after e(2) by simp
    qed
  qed
  have out': "\<forall>j. j \<notin> insert ?i L \<longrightarrow> ?l j = 0" using out after by auto
  have p: "placed d' n (cap(?i := k)) (insert ?i L)" using new [OF d'(2) h] d'(5) e(1) by simp
  have brk': "mem_brk (dr_heap d) \<le> mem_brk (dr_heap d')" "mem_brk (dr_heap d') \<le> MAX_HEAP" using brk h by simp_all
  have t': "t = total c + ((if tp_type op = FREE then 0 else ?z) - live pre ?i)" using t op(3) by simp
  have "0 \<le> live pre ?i \<and> live pre ?i < 2 ^ 31" using cap out by (cases "?i \<in> L") (auto simp: less_imp_le)
  then have "int_ok (?z - live pre ?i)" using z by (simp add: int_ok_def)
  then show thesis using that d'(1) h metered_step [OF m op(1,2) p d'(3) sz out' brk' t'] by blast
qed

lemma util_op_ok:
  assumes m: "metered (d, c) n L pre" and w: "wf_ops n L (op # ops)" and room: "mem_brk (dr_heap d) + cost_ops [op] \<le> MAX_HEAP"
  shows "\<exists>d' c' L'. util_op P op (d, c) = Some (Done (d', c')) \<and> metered (d', c') n L' (pre @ [op]) \<and> wf_ops n L' ops \<and>
    mem_brk (dr_heap d') \<le> mem_brk (dr_heap d) + cost_ops [op]"
proof -
  let ?i = "tp_index op" and ?z = "tp_size op"
  obtain cap where p: "placed d n cap L" and len: "length (block_sizes (dr_trace d)) = nat n"
      and sz: "\<forall>i \<in> L. bsz d i = live pre i \<and> 0 < live pre i \<and> live pre i \<le> cap i \<and> live pre i < 2 ^ 31"
      and out: "\<forall>i. i \<notin> L \<longrightarrow> live pre i = 0"
    using m unfolding metered_def by auto
  have i: "0 \<le> ?i" "?i < n" using w by simp_all
  have old: "arr_get (tr_blocks (dr_trace d)) ?i = Some (blk d ?i)" "arr_get (block_sizes (dr_trace d)) ?i = Some (live pre ?i)"
      "to_int (live pre ?i) = live pre ?i" if "?i \<in> L"
  proof -
    have s: "bsz d ?i = live pre ?i" "0 < live pre ?i" "live pre ?i < 2 ^ 31" using sz that by auto
    show "arr_get (tr_blocks (dr_trace d)) ?i = Some (blk d ?i)" by (rule placed_get [OF p that])
    show "arr_get (block_sizes (dr_trace d)) ?i = Some (live pre ?i)" using i len s(1) by (simp add: bsz_def)
    show "to_int (live pre ?i) = live pre ?i" using s(2,3) by (simp add: int_ok_def)
  qed
  have new: ?thesis if "tp_type op \<noteq> FREE" "util_op P op (d, c) = Some (Done (d', c\<lparr>total := t, max_total := max (max_total c) t\<rparr>))"
      "metered (d', c\<lparr>total := t, max_total := max (max_total c) t\<rparr>) n (insert ?i L) (pre @ [op])"
      "mem_brk (dr_heap d') \<le> mem_brk (dr_heap d) + ?z + 4096" "wf_ops n (insert ?i L) ops" for t d'
    using that by force
  show ?thesis
  proof (cases "tp_type op")
    case ALLOC
    then have z: "?i \<notin> L" "0 < ?z" "?z < 2 ^ 31 - 32" "wf_ops n (insert ?i L) ops" using w by simp_all
    have r: "mem_brk (dr_heap d) + ?z + 4096 \<le> MAX_HEAP" and nf: "tp_type op \<noteq> FREE" using room ALLOC by simp_all
    note q = placed_malloc [OF p i z(1-3) r]
    show ?thesis
    proof (rule q, goal_cases)
      case (1 q k h)
      have h: "mem_brk h \<le> MAX_HEAP" using 1(4) r by simp
      obtain d' where "set_block ?i q ?z (d\<lparr>dr_heap := h\<rparr>) = Some d'" "dr_heap d' = h"
          "int_ok (?z - live pre ?i)" "int_ok (total c + (?z - live pre ?i))"
          "metered (d', c\<lparr>total := total c + (?z - live pre ?i), max_total := max (max_total c) (total c + (?z - live pre ?i))\<rparr>) n
            (insert ?i L) (pre @ [op])"
        using util_new [OF m i nf z(2) 1(2) z(3) 1(3) h sz 1(5) refl] by blast
      moreover have "live pre ?i = 0" using out z(1) by simp
      ultimately show ?case
        using new [of d' "total c + ?z"] 1(1,4) z(4) ALLOC by (simp add: util_op_def add_total_def Let_def max_def)
    qed
  next
    case REALLOC
    then have z: "?i \<in> L" "0 < ?z" "?z < 2 ^ 31 - 32" "wf_ops n (insert ?i L) ops" using w by (simp_all add: insert_absorb)
    have r: "mem_brk (dr_heap d) + ?z + 4096 \<le> MAX_HEAP" and nf: "tp_type op \<noteq> FREE" using room REALLOC by simp_all
    note q = placed_realloc [OF p z(1-3) r]
    show ?thesis
    proof (rule q, goal_cases)
      case (1 q k h)
      have h: "mem_brk h \<le> MAX_HEAP" using 1(4) r by simp
      obtain d' where "set_block ?i q ?z (d\<lparr>dr_heap := h\<rparr>) = Some d'" "dr_heap d' = h"
          "int_ok (?z - live pre ?i)" "int_ok (total c + (?z - live pre ?i))"
          "metered (d', c\<lparr>total := total c + (?z - live pre ?i), max_total := max (max_total c) (total c + (?z - live pre ?i))\<rparr>) n
            (insert ?i L) (pre @ [op])"
        using util_new [OF m i nf z(2) 1(2) z(3) 1(3) h sz 1(5) refl] by blast
      then show ?case
        using new [of d' "total c + (?z - live pre ?i)"] 1(1,4) z(4) REALLOC old [OF z(1)]
        by (simp add: util_op_def add_total_def Let_def max_def)
    qed
  next
    case FREE
    then have z: "?i \<in> L" "wf_ops n (L - {?i}) ops" using w by simp_all
    obtain h where h: "pk_free P (blk d ?i) (dr_heap d) = Some h" "mem_brk h = mem_brk (dr_heap d)"
        "placed (d\<lparr>dr_heap := h\<rparr>) n cap (L - {?i})"
      using placed_free [OF p z(1)] by blast
    let ?d = "d\<lparr>dr_heap := h\<rparr>" and ?t = "total c - live pre ?i"
    have after: "live (pre @ [op]) j = (if j = ?i then 0 else live pre j)" for j using FREE by (simp add: live_def live_step_def)
    have "bsz ?d = bsz d" by (simp add: bsz_def fun_eq_iff)
    then have s': "\<forall>j \<in> L - {?i}. bsz ?d j = live (pre @ [op]) j \<and> 0 < live (pre @ [op]) j \<and> live (pre @ [op]) j \<le> cap j \<and>
        live (pre @ [op]) j < 2 ^ 31" "\<forall>j. j \<notin> L - {?i} \<longrightarrow> live (pre @ [op]) j = 0"
      using sz out after by auto
    have ts: "?t = total c + ((if tp_type op = FREE then 0 else ?z) - live pre ?i)" using FREE by simp
    have b: "mem_brk (dr_heap d) \<le> mem_brk (dr_heap ?d)" "mem_brk (dr_heap ?d) \<le> MAX_HEAP" and le: "total c \<le> max_total c"
      using h(2) m peak_ge [of n pre] by (auto simp: metered_def)
    have ls: "length (block_sizes (dr_trace ?d)) = nat n" using len by simp
    note st = metered_step [OF m i h(3) ls s' b ts]
    have "0 < live pre ?i" using sz z(1) by simp
    then have "c\<lparr>total := ?t, max_total := max (max_total c) ?t\<rparr> = c\<lparr>total := ?t\<rparr>" using le by simp
    moreover have "util_op P op (d, c) = Some (Done (?d, c\<lparr>total := ?t\<rparr>))"
      using FREE h(1) st(1) old [OF z(1)] by (simp add: util_op_def)
    ultimately show ?thesis using st(2) z(2) h(2) FREE by force
  qed
qed

lemma util_ops_ok:
  assumes "metered (d, c) n L pre" and "wf_ops n L ops" and "mem_brk (dr_heap d) + cost_ops ops \<le> MAX_HEAP"
  shows "\<exists>d' c' L'. util_ops P ops (d, c) = Some (Done (d', c')) \<and> metered (d', c') n L' (pre @ ops)"
  using assms
proof (induction ops arbitrary: d c L pre)
  case (Cons op ops)
  have cost: "0 \<le> cost_ops ops" "cost_ops (op # ops) = cost_ops [op] + cost_ops ops"
    using wf_cost Cons.prems(2) by (auto split: optype.splits)
  have r: "mem_brk (dr_heap d) + cost_ops [op] \<le> MAX_HEAP" using Cons.prems(3) cost by simp
  obtain d1 c1 L1 where o: "util_op P op (d, c) = Some (Done (d1, c1))" "metered (d1, c1) n L1 (pre @ [op])" "wf_ops n L1 ops"
      "mem_brk (dr_heap d1) \<le> mem_brk (dr_heap d) + cost_ops [op]"
    using util_op_ok [OF Cons.prems(1,2) r] by blast
  have "mem_brk (dr_heap d1) + cost_ops ops \<le> MAX_HEAP" using o(4) Cons.prems(3) cost(2) by linarith
  then show ?case using Cons.IH [OF o(2,3)] o(1) by auto
qed auto

lemma eval_util_ok:
  assumes "wf_ops (num_ids (dr_trace d)) {} (tr_ops (dr_trace d))" and "num_ops (dr_trace d) = int (length (tr_ops (dr_trace d)))"
    and "length (tr_blocks (dr_trace d)) = nat (num_ids (dr_trace d))" and "length (block_sizes (dr_trace d)) = nat (num_ids (dr_trace d))"
    and "4112 + cost_ops (tr_ops (dr_trace d)) \<le> MAX_HEAP"
  shows "\<exists>h d'. eval_mm_util P d = Some (Done (peak (num_ids (dr_trace d)) (tr_ops (dr_trace d)), h, d')) \<and> 0 < h \<and>
    peak (num_ids (dr_trace d)) (tr_ops (dr_trace d)) \<le> h \<and> h \<le> MAX_HEAP"
proof -
  let ?n = "num_ids (dr_trace d)" and ?ops = "tr_ops (dr_trace d)"
  have z: "mem_brk (mem_reset_brk (dr_heap d)) = 0" by (simp add: mem_reset_brk_def)
  obtain s' where s': "pk_init P (mem_reset_brk (dr_heap d)) = Some (0, s')" "I s' {}" "mem_brk s' \<le> 4112"
    using init_ok [OF z] by auto
  let ?d = "d\<lparr>dr_heap := s'\<rparr>" and ?c = "\<lparr>max_total = 0, total = 0\<rparr>"
  have "placed ?d ?n (\<lambda>_. 0) {}" using s'(2) assms(3) by (simp add: placed_def recs_def)
  then have m: "metered (?d, ?c) ?n {} []"
    using s'(3) init_takes [OF z s'(1)] assms(4)
    by (auto simp: metered_def peak_Nil payload_Nil MAX_HEAP_def live_def intro!: exI [of _ "\<lambda>_. 0 :: int"])
  have r: "mem_brk (dr_heap ?d) + cost_ops ?ops \<le> MAX_HEAP" using s'(3) assms(5) by simp
  obtain d' c' L' where e: "util_ops P ?ops (?d, ?c) = Some (Done (d', c'))" "metered (d', c') ?n L' ([] @ ?ops)"
    using util_ops_ok [OF m assms(1) r] by blast
  then have "max_total c' = peak ?n ?ops" "0 < mem_brk (dr_heap d')" "peak ?n ?ops \<le> mem_brk (dr_heap d')" "mem_brk (dr_heap d') \<le> MAX_HEAP"
    by (auto simp: metered_def)
  then show ?thesis using s'(1) e(1) assms(2) by (simp add: eval_mm_util_def mem_heapsize_def)
qed

text \<open>The replay for timing.\<close>

lemma speed_ops_ok:
  assumes "placed d n cap L" and "wf_ops n L ops" and "mem_brk (dr_heap d) + cost_ops ops \<le> MAX_HEAP"
  shows "\<exists>d'. speed_ops P ops d = Some (Done d')"
  using assms
proof (induction ops arbitrary: d cap L)
  case (Cons op ops)
  let ?i = "tp_index op" and ?z = "tp_size op"
  have cost: "0 \<le> cost_ops ops" using wf_cost Cons.prems(2) by (auto split: optype.splits)
  have i: "0 \<le> ?i" "?i < n" using Cons.prems(2) by simp_all
  note p = Cons.prems(1)
  have lt: "length (tr_blocks (dr_trace (d\<lparr>dr_heap := h\<rparr>))) = nat n" for h using p by (simp add: placed_def)
  have e: "blk (d\<lparr>dr_heap := h\<rparr>) = blk d" for h by (simp add: blk_def fun_eq_iff)
  show ?case
  proof (cases "tp_type op")
    case ALLOC
    then have z: "?i \<notin> L" "0 < ?z" "?z < 2 ^ 31 - 32" "wf_ops n (insert ?i L) ops" using Cons.prems(2) by simp_all
    have r: "mem_brk (dr_heap d) + ?z + 4096 \<le> MAX_HEAP" using Cons.prems(3) ALLOC cost by simp
    show ?thesis
    proof (rule placed_malloc [OF p i z(1-3) r], goal_cases)
      case (1 q k h)
      obtain d' where d': "put_block ?i q (d\<lparr>dr_heap := h\<rparr>) = Some d'" "placed d' n (cap(?i := k)) (insert ?i L)" "dr_heap d' = h"
        using put_block_at [OF i lt, of q] 1(5) unfolding e by (metis drv.select_convs(1) drv.surjective drv.update_convs(1))
      have "mem_brk (dr_heap d') + cost_ops ops \<le> MAX_HEAP" using 1(4) d'(3) Cons.prems(3) ALLOC by simp
      then show ?case using Cons.IH [OF d'(2) z(4)] 1(1) d'(1) ALLOC by (simp add: speed_op_def)
    qed
  next
    case REALLOC
    then have z: "?i \<in> L" "0 < ?z" "?z < 2 ^ 31 - 32" "wf_ops n (insert ?i L) ops" using Cons.prems(2) by (simp_all add: insert_absorb)
    have r: "mem_brk (dr_heap d) + ?z + 4096 \<le> MAX_HEAP" using Cons.prems(3) REALLOC cost by simp
    show ?thesis
    proof (rule placed_realloc [OF p z(1-3) r], goal_cases)
      case (1 q k h)
      obtain d' where d': "put_block ?i q (d\<lparr>dr_heap := h\<rparr>) = Some d'" "placed d' n (cap(?i := k)) (insert ?i L)" "dr_heap d' = h"
        using put_block_at [OF i lt, of q] 1(5) unfolding e by (metis drv.select_convs(1) drv.surjective drv.update_convs(1))
      have "mem_brk (dr_heap d') + cost_ops ops \<le> MAX_HEAP" using 1(4) d'(3) Cons.prems(3) REALLOC by simp
      then show ?case using Cons.IH [OF d'(2) z(4)] 1(1) d'(1) REALLOC placed_get [OF p z(1)] by (simp add: speed_op_def)
    qed
  next
    case FREE
    then have z: "?i \<in> L" "wf_ops n (L - {?i}) ops" using Cons.prems(2) by simp_all
    obtain h where h: "pk_free P (blk d ?i) (dr_heap d) = Some h" "mem_brk h = mem_brk (dr_heap d)"
        "placed (d\<lparr>dr_heap := h\<rparr>) n cap (L - {?i})"
      using placed_free [OF p z(1)] by blast
    then show ?thesis using Cons.IH [OF h(3) z(2)] Cons.prems(3) FREE placed_get [OF p z(1)] by (simp add: speed_op_def)
  qed
qed simp

lemma eval_speed_ok:
  assumes "wf_ops (num_ids (dr_trace d)) {} (tr_ops (dr_trace d))" and "num_ops (dr_trace d) = int (length (tr_ops (dr_trace d)))"
    and "length (tr_blocks (dr_trace d)) = nat (num_ids (dr_trace d))" and "4112 + cost_ops (tr_ops (dr_trace d)) \<le> MAX_HEAP"
  shows "\<exists>d'. eval_mm_speed P d = Some (Done d')"
proof -
  obtain s' where s': "pk_init P (mem_reset_brk (dr_heap d)) = Some (0, s')" "I s' {}" "mem_brk s' \<le> 4112"
    using init_ok [of "mem_reset_brk (dr_heap d)"] by (auto simp: mem_reset_brk_def)
  let ?d = "d\<lparr>dr_heap := s'\<rparr>"
  have p: "placed ?d (num_ids (dr_trace d)) (\<lambda>_. 0) {}" using s'(2) assms(3) by (simp add: placed_def recs_def)
  have r: "mem_brk (dr_heap ?d) + cost_ops (tr_ops (dr_trace d)) \<le> MAX_HEAP" using s'(3) assms(4) by simp
  show ?thesis using speed_ops_ok [OF p assms(1) r] s'(1) assms(2) by (auto simp: eval_mm_speed_def)
qed

end

section \<open>What the runs leave alone\<close>

definition shape :: "'h drv \<Rightarrow> int \<times> int \<times> int \<times> int \<times> traceop_t list \<times> nat \<times> nat" where
  "shape d = (let t = dr_trace d in (sugg_heapsize t, num_ids t, num_ops t, weight t, tr_ops t, length (tr_blocks t), length (block_sizes t)))"

definition same_shape :: "'h drv \<Rightarrow> 'h drv \<Rightarrow> bool" where
  "same_shape d d' \<longleftrightarrow> shape d' = shape d"

named_theorems framed \<open>steps that keep all of a trace but its blocks\<close>

lemma shape_cong [simp]: "shape (d\<lparr>dr_heap := h\<rparr>) = shape d" "shape (d\<lparr>dr_ranges := r\<rparr>) = shape d"
    "shape (malloc_error t i m d) = shape d" "shape (remove_range p d) = shape d" "shape (clear_ranges d) = shape d"
  by (simp_all add: shape_def malloc_error_def remove_range_def clear_ranges_def)

lemma frame_trans: "same_shape d d' \<Longrightarrow> same_shape d' d'' \<Longrightarrow> same_shape d d''"
  by (simp add: same_shape_def)

lemma frame_same [simp]: "same_shape (d\<lparr>dr_heap := h\<rparr>) d' = same_shape d d'" "same_shape (clear_ranges d) d' = same_shape d d'"
    "same_shape (remove_range p d) d' = same_shape d d'" "same_shape d (malloc_error t i m d') = same_shape d d'" "same_shape d (d'\<lparr>dr_heap := h\<rparr>) = same_shape d d'"
    "same_shape d (d'\<lparr>dr_ranges := r\<rparr>) = same_shape d d'" "same_shape d (remove_range p d') = same_shape d d'" "same_shape d (clear_ranges d') = same_shape d d'" "same_shape d d"
  by (simp_all add: same_shape_def)

lemma frameD:
  "same_shape d d' \<Longrightarrow> tr_ops (dr_trace d') = tr_ops (dr_trace d) \<and> num_ops (dr_trace d') = num_ops (dr_trace d) \<and>
     num_ids (dr_trace d') = num_ids (dr_trace d) \<and> length (tr_blocks (dr_trace d')) = length (tr_blocks (dr_trace d)) \<and>
     length (block_sizes (dr_trace d')) = length (block_sizes (dr_trace d))"
  by (simp add: same_shape_def shape_def Let_def)

lemma andthen_Done: "andthen x f = Some (Done y) \<longleftrightarrow> (\<exists>a. x = Some (Done a) \<and> f a = Some (Done y))"
  by (cases "(x, f)" rule: andthen.cases) auto

lemma put_block_frame [framed]: "put_block i p d = Some d' \<Longrightarrow> same_shape d d' \<and> dr_errors d' = dr_errors d"
  by (auto simp: put_block_def bind_eq_Some_conv arr_set_length same_shape_def shape_def Let_def)

lemma set_block_frame [framed]: "set_block i p z d = Some d' \<Longrightarrow> same_shape d d' \<and> dr_errors d' = dr_errors d"
  by (auto simp: set_block_def bind_eq_Some_conv arr_set_length same_shape_def shape_def Let_def)

lemma add_range_frame [framed]: "add_range lo n t i d = Done (ok, d') \<Longrightarrow> same_shape d d'"
  by (auto simp: add_range_def Let_def split: if_splits option.splits)

lemma speed_op_frame [framed]: "speed_op P op d = Some (Done d') \<Longrightarrow> same_shape d d' \<and> dr_errors d' = dr_errors d"
  by (auto simp: speed_op_def bind_eq_Some_conv dest!: framed split: optype.splits option.splits)

lemma speed_ops_frame [framed]: "speed_ops P ops d = Some (Done d') \<Longrightarrow> same_shape d d' \<and> dr_errors d' = dr_errors d"
  by (induction ops arbitrary: d) (auto simp: andthen_Done intro: frame_trans dest!: speed_op_frame)

lemma util_op_frame [framed]: "util_op P op (d, c) = Some (Done (d', c')) \<Longrightarrow> same_shape d d' \<and> dr_errors d' = dr_errors d"
  by (auto simp: util_op_def bind_eq_Some_conv dest!: framed split: optype.splits option.splits if_splits)

lemma util_ops_frame [framed]: "util_ops P ops (d, c) = Some (Done (d', c')) \<Longrightarrow> same_shape d d' \<and> dr_errors d' = dr_errors d"
  by (induction ops arbitrary: d c) (auto simp: andthen_Done intro: frame_trans dest!: util_op_frame)

lemma valid_alloc_frame [framed]: "valid_alloc P t i idx n d = Some (Done (ok, d')) \<Longrightarrow> same_shape d d'"
  by (auto simp: same_shape_def valid_alloc_def Let_def andthen_Done bind_eq_Some_conv dest!: framed
      split: option.splits if_splits)

lemma valid_realloc_frame [framed]: "valid_realloc P t i idx n d = Some (Done (ok, d')) \<Longrightarrow> same_shape d d'"
  by (auto simp: same_shape_def valid_realloc_def Let_def andthen_Done bind_eq_Some_conv dest!: framed
      split: option.splits if_splits)

lemma valid_free_frame [framed]: "valid_free P idx d = Some (Done (ok, d')) \<Longrightarrow> same_shape d d'"
  by (auto simp: valid_free_def Let_def bind_eq_Some_conv)

lemma valid_ops_frame [framed]: "valid_ops P t i ops d = Some (Done (ok, d')) \<Longrightarrow> same_shape d d'"
  by (induction ops arbitrary: i d)
    (auto simp: valid_op_def andthen_Done dest!: framed intro: frame_trans split: optype.splits if_splits)

lemma eval_valid_frame: "eval_mm_valid P t d = Some (Done (ok, d')) \<Longrightarrow> same_shape d d'"
  by (auto simp: eval_mm_valid_def Let_def bind_eq_Some_conv dest!: valid_ops_frame split: if_splits)

lemma eval_util_frame: "eval_mm_util P d = Some (Done (m, h, d')) \<Longrightarrow> same_shape d d' \<and> dr_errors d' = dr_errors d"
  by (auto simp: eval_mm_util_def andthen_Done bind_eq_Some_conv dest!: util_ops_frame split: if_splits)

lemma eval_speed_frame: "eval_mm_speed P d = Some (Done d') \<Longrightarrow> same_shape d d' \<and> dr_errors d' = dr_errors d"
  by (auto simp: eval_mm_speed_def bind_eq_Some_conv dest!: speed_ops_frame split: if_splits)

section \<open>\<^verbatim>\<open>mm.c\<close>\<close>

lemma init_brk: "mem_brk s = 0 \<Longrightarrow> mm_init s = Some (r, s') \<Longrightarrow> 0 < mem_brk s'"
  using mm_init_prologue [of s] extend_evolves [of 1024 "prologue s"]
  by (auto simp: bind_eq_Some_conv prologue_def evolves_def)

interpretation mmg: mm_growing mm_package mm_in
proof
  show "0 < mem_brk s'" if "mem_brk s = 0" "pk_init mm_package s = Some (r, s')" for s r s'
    using init_brk that by (simp add: mm_package_def)
  show "mem_brk s \<le> mem_brk s'" if "pk_malloc mm_package n s = Some (x, s')" for n s x s'
    using malloc_evolves [of n s x s'] that by (simp add: mm_package_def evolves_def)
  show "mem_brk s \<le> mem_brk s'" if "pk_realloc mm_package p n s = Some (x, s')" for p n s x s'
    using realloc_evolves [of p n s x s'] that by (simp add: mm_package_def evolves_def)
qed



end
