(* ===== verification/Timers.thy ===== *)
theory Timers
  imports Mdriver Complex_Main
begin

text \<open>
  Numbers of type \<^verbatim>\<open>double\<close> with exact arithmetic, and the timers of \<^verbatim>\<open>lab7/ftimer.c\<close> and \<^verbatim>\<open>lab7/fsecs.c\<close>, over what
  the system's clocks show.
\<close>

section \<open>Doubles\<close>

text \<open>A finite \<^verbatim>\<open>double\<close> is a rational number, never rounded; a zero is positive, as no program here makes a negative one.\<close>

datatype dbl = Num rat | PosInf | NegInf | NaN

definition inf_of :: "rat \<Rightarrow> dbl" where
  "inf_of x = (if x > 0 then PosInf else if x < 0 then NegInf else NaN)"

fun sign_of :: "dbl \<Rightarrow> rat" where
  "sign_of (Num x) = sgn x"
| "sign_of PosInf = 1"
| "sign_of NegInf = - 1"
| "sign_of NaN = 0"

definition dadd :: "dbl \<Rightarrow> dbl \<Rightarrow> dbl" where
  "dadd x y = (case (x, y) of
       (Num a, Num b) \<Rightarrow> Num (a + b)
     | (NaN, _) \<Rightarrow> NaN
     | (_, NaN) \<Rightarrow> NaN
     | (Num a, _) \<Rightarrow> y
     | (_, Num b) \<Rightarrow> x
     | _ \<Rightarrow> if x = y then x else NaN)"

definition dmul :: "dbl \<Rightarrow> dbl \<Rightarrow> dbl" where
  "dmul x y = (case (x, y) of
       (Num a, Num b) \<Rightarrow> Num (a * b)
     | (NaN, _) \<Rightarrow> NaN
     | (_, NaN) \<Rightarrow> NaN
     | _ \<Rightarrow> inf_of (sign_of x * sign_of y))"

definition ddiv :: "dbl \<Rightarrow> dbl \<Rightarrow> dbl" where
  "ddiv x y = (case (x, y) of
       (NaN, _) \<Rightarrow> NaN
     | (_, NaN) \<Rightarrow> NaN
     | (Num a, Num b) \<Rightarrow> if b = 0 then inf_of a else Num (a / b)
     | (Num a, _) \<Rightarrow> Num 0
     | (_, Num b) \<Rightarrow> inf_of (sign_of x * (if b = 0 then 1 else sgn b))
     | _ \<Rightarrow> NaN)"

definition dless :: "dbl \<Rightarrow> dbl \<Rightarrow> bool" where
  "dless x y = (case (x, y) of
       (NaN, _) \<Rightarrow> False
     | (_, NaN) \<Rightarrow> False
     | (Num a, Num b) \<Rightarrow> a < b
     | (Num a, _) \<Rightarrow> y = PosInf
     | (_, Num b) \<Rightarrow> x = NegInf
     | _ \<Rightarrow> x = NegInf \<and> y = PosInf)"

lemma dbl_finite [simp]:
  "dadd (Num a) (Num b) = Num (a + b)" "dmul (Num a) (Num b) = Num (a * b)" "dless (Num a) (Num b) = (a < b)"
  "ddiv (Num a) (Num b) = (if b = 0 then inf_of a else Num (a / b))"
  by (simp_all add: dadd_def dmul_def ddiv_def dless_def)

lemma dless_inf [simp]: "dless (Num a) PosInf"
  by (simp add: dless_def)

definition of_i :: "int \<Rightarrow> dbl" where "of_i n = Num (of_int n)"

section \<open>Timers\<close>

text \<open>Seconds and microseconds.\<close>

type_synonym timeval = "int \<times> int"

fun repeat_run :: "('s \<Rightarrow> 's outcome ub) \<Rightarrow> nat \<Rightarrow> 's \<Rightarrow> 's outcome ub" where
  "repeat_run f 0 s = Some (Done s)"
| "repeat_run f (Suc n) s = andthen (f s) (repeat_run f n)"

definition ftimer_gettod :: "('s \<Rightarrow> 's outcome ub) \<Rightarrow> nat \<Rightarrow> timeval \<times> timeval \<Rightarrow> 's \<Rightarrow> (dbl \<times> 's) outcome ub" where
  "ftimer_gettod f n clock s =
     (case clock of ((ssec, susec), (esec, eusec)) \<Rightarrow>
        andthen (repeat_run f n s) (\<lambda>s.
          let diff = dadd (dmul (Num 1000) (of_i (esec - ssec))) (dmul (Num (1 / 1000)) (of_i (eusec - susec)));
              diff = ddiv diff (of_i (int n))
          in Some (Done (dmul (Num (1 / 1000)) diff, s))))"

text \<open>The interval timers count down from \<^verbatim>\<open>MAX_ETIME\<close> seconds.\<close>

definition MAX_ETIME :: int where "MAX_ETIME = 86400"

definition init_etime :: timeval where "init_etime = (MAX_ETIME, 0)"

definition get_etime :: "timeval \<Rightarrow> timeval \<Rightarrow> dbl" where
  "get_etime first cur = dadd (of_i (fst first - fst cur)) (dmul (of_i (snd first - snd cur)) (Num (1 / 1000000)))"

definition dsub :: "dbl \<Rightarrow> dbl \<Rightarrow> dbl" where "dsub x y = dadd x (dmul (Num (- 1)) y)"

definition ftimer_itimer :: "('s \<Rightarrow> 's outcome ub) \<Rightarrow> nat \<Rightarrow> timeval \<times> timeval \<Rightarrow> 's \<Rightarrow> (dbl \<times> 's) outcome ub" where
  "ftimer_itimer f n clock s =
     (let start = get_etime init_etime (fst clock)
      in andthen (repeat_run f n s) (\<lambda>s.
           let tmeas = dsub (get_etime init_etime (snd clock)) start
           in Some (Done (ddiv tmeas (of_i (int n)), s))))"

text \<open>As configured, \<^verbatim>\<open>fsecs\<close> asks \<^verbatim>\<open>gettimeofday\<close> before and after ten runs.\<close>

definition fsecs :: "('s \<Rightarrow> 's outcome ub) \<Rightarrow> timeval \<times> timeval \<Rightarrow> 's \<Rightarrow> (dbl \<times> 's) outcome ub" where
  "fsecs f clock s = ftimer_gettod f 10 clock s"

section \<open>What they measure\<close>

definition micros :: "timeval \<Rightarrow> int" where "micros t = 1000000 * fst t + snd t"

definition elapsed :: "timeval \<times> timeval \<Rightarrow> rat" where
  "elapsed clock = of_int (micros (snd clock) - micros (fst clock)) / 1000000"

lemma gettod_average:
  assumes "0 < n" and "repeat_run f n s = Some (Done s')"
  shows "ftimer_gettod f n clock s = Some (Done (Num (elapsed clock / of_nat n), s'))"
  using assms by (cases clock) (auto simp: ftimer_gettod_def elapsed_def micros_def of_i_def Let_def field_simps)

lemma itimer_average:
  assumes "0 < n" and "repeat_run f n s = Some (Done s')"
  shows "ftimer_itimer f n (start, stop) s = Some (Done (Num (elapsed (stop, start) / of_nat n), s'))"
  using assms by (auto simp: ftimer_itimer_def get_etime_def init_etime_def dsub_def elapsed_def micros_def of_i_def Let_def field_simps)

lemma fsecs_average:
  "repeat_run f 10 s = Some (Done s') \<Longrightarrow> fsecs f clock s = Some (Done (Num (elapsed clock / 10), s'))"
  using gettod_average [of 10 f s s' clock] by (simp add: fsecs_def)

end
