(* ===== verification/Mdriver_Main.thy ===== *)
theory Mdriver_Main
  imports Mdriver_Trace Mdriver_Util Timers
begin

text \<open>
  \<^verbatim>\<open>main\<close> of \<^verbatim>\<open>lab7/mdriver.c\<close>: options, the runs over the trace files, the tables of \<^verbatim>\<open>printresults\<close> and the
  performance index.  Options come as \<^verbatim>\<open>getopt\<close> yields them.  Messages about errors are the driver's \<open>dr_errors\<close>; the
  other output is a list of items, with numbers where \<^verbatim>\<open>printf\<close> would format them.
\<close>

section \<open>Data\<close>

record stats_t =
  st_ops :: dbl
  st_valid :: bool
  st_secs :: dbl
  st_util :: dbl

datatype item =
  Says string
| Row int dbl dbl dbl dbl | NoRow int | Total dbl dbl dbl dbl | NoTotal
| PerfIndex dbl dbl dbl | Terminated int | Correct int | PerfIdx dbl

record opts =
  tracedir :: string
  tracefiles :: "string list option"
  run_libc :: bool
  autograder :: bool
  verbose :: int

text \<open>What surrounds the program: the files, the C library's allocator, the clock around each timed replay, and
  what fresh storage holds.\<close>

record 'l world =
  files :: "string \<Rightarrow> string option"
  libc :: "'l package"
  libc_heap :: 'l
  libc_clock :: "int \<Rightarrow> timeval \<times> timeval"
  mm_clock :: "int \<Rightarrow> timeval \<times> timeval"
  junk_op :: traceop_t
  junk :: int

definition MAXLINE_md :: nat where "MAXLINE_md = 1024"

definition TRACEDIR :: string where "TRACEDIR = ''./traces/''"

definition DEFAULT_TRACEFILES :: "string list" where
  "DEFAULT_TRACEFILES = [''amptjp-bal.rep'', ''cccp-bal.rep'', ''cp-decl-bal.rep'', ''expr-bal.rep'', ''coalescing-bal.rep'',
     ''random-bal.rep'', ''random2-bal.rep'', ''binary-bal.rep'', ''binary2-bal.rep'', ''realloc-bal.rep'', ''realloc2-bal.rep'']"

definition AVG_LIBC_THRUPUT :: dbl where "AVG_LIBC_THRUPUT = Num 600000"

definition UTIL_WEIGHT :: dbl where "UTIL_WEIGHT = Num (60 / 100)"

section \<open>Options\<close>

definition opts0 :: opts where
  "opts0 = \<lparr>tracedir = TRACEDIR, tracefiles = None, run_libc = False, autograder = False, verbose = 0\<rparr>"

text \<open>Every copy to \<^verbatim>\<open>tracedir\<close> must fit its \<^verbatim>\<open>MAXLINE\<close> bytes; \<^verbatim>\<open>-t ""\<close> reads the byte before it.\<close>

definition main_opt :: "char \<times> string \<Rightarrow> opts \<Rightarrow> opts outcome ub" where
  "main_opt co o' = (case co of (c, optarg) \<Rightarrow>
     if c = CHR ''g'' then Some (Done (o'\<lparr>autograder := True\<rparr>))
     else if c = CHR ''f'' then Some (Done (o'\<lparr>tracedir := ''./'', tracefiles := Some [optarg]\<rparr>))
     else if c = CHR ''t'' then
       (if tracefiles o' \<noteq> None then Some (Done o')
        else if length optarg \<ge> MAXLINE_md \<or> optarg = [] then None
        else if last optarg \<noteq> CHR ''/'' then
          (if length optarg + 1 \<ge> MAXLINE_md then None else Some (Done (o'\<lparr>tracedir := optarg @ ''/''\<rparr>)))
        else Some (Done (o'\<lparr>tracedir := optarg\<rparr>)))
     else if c = CHR ''l'' then Some (Done (o'\<lparr>run_libc := True\<rparr>))
     else if c = CHR ''v'' then Some (Done (o'\<lparr>verbose := 1\<rparr>))
     else if c = CHR ''V'' then Some (Done (o'\<lparr>verbose := 2\<rparr>))
     else Some Exit)"

fun main_opts :: "(char \<times> string) list \<Rightarrow> opts \<Rightarrow> opts outcome ub" where
  "main_opts [] o' = Some (Done o')"
| "main_opts (c # cs) o' = andthen (main_opt c o') (main_opts cs)"

section \<open>One trace\<close>

text \<open>A file that does not open is named in a message of \<^verbatim>\<open>MAXLINE\<close> bytes before the exit.\<close>

definition open_trace :: "'l world \<Rightarrow> opts \<Rightarrow> string \<Rightarrow> trace_t outcome ub" where
  "open_trace W o' filename =
     (let path = tracedir o' @ filename
      in if length path \<ge> MAXLINE_md then None
         else (case files W path of
             None \<Rightarrow> if length (''Could not open '' @ path @ '' in read_trace'') \<ge> MAXLINE_md then None else Some Exit
           | Some file \<Rightarrow> read_trace (junk_op W) (junk W) file))"

definition chat :: "opts \<Rightarrow> string list \<Rightarrow> item list" where
  "chat o' ss = (if verbose o' > 1 then map Says ss else [])"

definition libc_file :: "'l world \<Rightarrow> opts \<Rightarrow> int \<Rightarrow> string \<Rightarrow> 'l drv \<Rightarrow> (stats_t \<times> item list \<times> 'l drv) outcome ub" where
  "libc_file W o' i filename d =
     andthen (open_trace W o' filename) (\<lambda>tr.
     andthen (eval_libc_valid (libc W) (d\<lparr>dr_trace := tr\<rparr>)) (\<lambda>(ok, d).
       let st = \<lparr>st_ops = of_i (num_ops tr), st_valid = ok, st_secs = Num 0, st_util = Num 0\<rparr>;
           said = [''Reading tracefile: '' @ filename, ''Checking libc malloc for correctness, '']
       in if ok then andthen (fsecs (eval_libc_speed (libc W)) (libc_clock W i) d) (\<lambda>(secs, d).
            Some (Done (st\<lparr>st_secs := secs\<rparr>, chat o' (said @ [''and performance.'']), d)))
          else Some (Done (st, chat o' said, d))))"

definition mm_file :: "'l world \<Rightarrow> mm package \<Rightarrow> opts \<Rightarrow> int \<Rightarrow> string \<Rightarrow> mm drv \<Rightarrow> (stats_t \<times> item list \<times> mm drv) outcome ub" where
  "mm_file W P o' i filename d =
     andthen (open_trace W o' filename) (\<lambda>tr.
     andthen (eval_mm_valid P i (d\<lparr>dr_trace := tr\<rparr>)) (\<lambda>(ok, d).
       let st = \<lparr>st_ops = of_i (num_ops tr), st_valid = ok, st_secs = Num 0, st_util = Num 0\<rparr>;
           said = [''Reading tracefile: '' @ filename, ''Checking mm_malloc for correctness, '']
       in if ok then
            andthen (eval_mm_util P d) (\<lambda>(top, h, d).
            andthen (fsecs (eval_mm_speed P) (mm_clock W i) d) (\<lambda>(secs, d).
              Some (Done (st\<lparr>st_util := ddiv (of_i top) (of_i h), st_secs := secs\<rparr>,
                chat o' (said @ [''efficiency, '', ''and performance.'']), d))))
          else Some (Done (st, chat o' said, d))))"

fun run_files :: "(int \<Rightarrow> string \<Rightarrow> 's \<Rightarrow> (stats_t \<times> item list \<times> 's) outcome ub) \<Rightarrow> int \<Rightarrow> string list \<Rightarrow> 's \<Rightarrow>
    (stats_t list \<times> item list \<times> 's) outcome ub" where
  "run_files f i [] s = Some (Done ([], [], s))"
| "run_files f i (n # ns) s =
     andthen (f i n s) (\<lambda>(st, out, s).
     andthen (run_files f (i + 1) ns s) (\<lambda>(sts, outs, s). Some (Done (st # sts, out @ outs, s))))"

section \<open>Results\<close>

record totals =
  sum_secs :: dbl
  sum_ops :: dbl
  sum_util :: dbl

definition totals0 :: totals where "totals0 = \<lparr>sum_secs = Num 0, sum_ops = Num 0, sum_util = Num 0\<rparr>"

definition add_stats :: "stats_t \<Rightarrow> totals \<Rightarrow> totals" where
  "add_stats st s = \<lparr>sum_secs = dadd (sum_secs s) (st_secs st), sum_ops = dadd (sum_ops s) (st_ops st),
     sum_util = dadd (sum_util s) (st_util st)\<rparr>"

definition kops :: "dbl \<Rightarrow> dbl \<Rightarrow> dbl" where "kops ops secs = ddiv (ddiv ops (Num 1000)) secs"

fun result_rows :: "int \<Rightarrow> stats_t list \<Rightarrow> totals \<Rightarrow> item list \<times> totals" where
  "result_rows i [] s = ([], s)"
| "result_rows i (st # sts) s =
     (let row = (if st_valid st then Row i (dmul (st_util st) (Num 100)) (st_ops st) (st_secs st) (kops (st_ops st) (st_secs st)) else NoRow i);
          (rows, s) = result_rows (i + 1) sts (if st_valid st then add_stats st s else s)
      in (row # rows, s))"

definition printresults :: "int \<Rightarrow> stats_t list \<Rightarrow> item list" where
  "printresults errors sts =
     (let (rows, s) = result_rows 0 sts totals0
      in Says ''trace valid util ops secs Kops'' # rows @
         [if errors = 0 then Total (dmul (ddiv (sum_util s) (of_i (int (length sts)))) (Num 100)) (sum_ops s) (sum_secs s)
            (kops (sum_ops s) (sum_secs s)) else NoTotal])"

definition summary :: "opts \<Rightarrow> int \<Rightarrow> stats_t list \<Rightarrow> item list" where
  "summary o' errors sts =
     (let s = fold add_stats sts totals0;
          numcorrect = int (length (filter st_valid sts));
          avg_mm_util = ddiv (sum_util s) (of_i (int (length sts)));
          avg_mm_throughput = ddiv (sum_ops s) (sum_secs s);
          p1 = dmul UTIL_WEIGHT avg_mm_util;
          p2 = (if dless AVG_LIBC_THRUPUT avg_mm_throughput then dsub (Num 1) UTIL_WEIGHT
                else dmul (dsub (Num 1) UTIL_WEIGHT) (ddiv avg_mm_throughput AVG_LIBC_THRUPUT));
          perfindex = (if errors = 0 then dmul (dadd p1 p2) (Num 100) else Num 0)
      in (if errors = 0 then [PerfIndex (dmul p1 (Num 100)) (dmul p2 (Num 100)) perfindex] else [Terminated errors]) @
         (if autograder o' then [Correct numcorrect, PerfIdx perfindex] else []))"

section \<open>\<^verbatim>\<open>main\<close>\<close>

definition no_trace :: trace_t where
  "no_trace = \<lparr>sugg_heapsize = 0, num_ids = 0, num_ops = 0, weight = 0, tr_ops = [], tr_blocks = [], block_sizes = []\<rparr>"

definition new_drv :: "'h \<Rightarrow> 'h drv" where
  "new_drv h = \<lparr>dr_heap = h, dr_ranges = [], dr_errors = [], dr_trace = no_trace\<rparr>"

definition test_libc :: "'l world \<Rightarrow> opts \<Rightarrow> string list \<Rightarrow> item list outcome ub" where
  "test_libc W o' names =
     (if run_libc o' then andthen (run_files (libc_file W o') 0 names (new_drv (libc_heap W))) (\<lambda>(sts, out, d).
        Some (Done (chat o' [''Testing libc malloc''] @ out @
          (if verbose o' \<noteq> 0 then Says ''Results for libc malloc:'' # printresults 0 sts else []))))
      else Some (Done []))"

definition test_mm :: "'l world \<Rightarrow> mm package \<Rightarrow> mm \<Rightarrow> opts \<Rightarrow> string list \<Rightarrow> (item list \<times> mm drv) outcome ub" where
  "test_mm W P h o' names =
     andthen (run_files (mm_file W P o') 0 names (new_drv (mem_reset_brk h))) (\<lambda>(sts, out, d).
       let errors = int (length (dr_errors d))
       in Some (Done (chat o' [''Testing mm malloc''] @ out @
            (if verbose o' \<noteq> 0 then Says ''Results for mm malloc:'' # printresults errors sts else []) @ summary o' errors sts, d)))"

definition mdriver_main :: "'l world \<Rightarrow> mm package \<Rightarrow> mm \<Rightarrow> (char \<times> string) list \<Rightarrow> (item list \<times> mm drv) outcome ub" where
  "mdriver_main W P h args =
     andthen (main_opts args opts0) (\<lambda>o'.
       let names = (case tracefiles o' of None \<Rightarrow> DEFAULT_TRACEFILES | Some ns \<Rightarrow> ns);
           first = (if tracefiles o' = None then [Says (''Using default tracefiles in '' @ tracedir o')] else []) @
             (if verbose o' \<noteq> 0 then [Says ''Measuring performance with gettimeofday().''] else [])
       in andthen (test_libc W o' names) (\<lambda>out.
          andthen (test_mm W P h o' names) (\<lambda>(out', d). Some (Done (first @ out @ out', d)))))"

section \<open>The whole run on \<^verbatim>\<open>mm.c\<close>\<close>

text \<open>A trace with its header, and the file it is in.\<close>

type_synonym trace_src = "int \<times> int \<times> int \<times> traceop_t list"

fun trace_text :: "trace_src \<Rightarrow> string" where
  "trace_text (h, ids, w, ops) = print_trace h ids w ops"

fun trace_ok :: "traceop_t \<Rightarrow> trace_src \<Rightarrow> bool" where
  "trace_ok j (h, ids, w, ops) \<longleftrightarrow> int_nat h \<and> int_nat ids \<and> int_nat (int (length ops)) \<and> int_nat w \<and> list_all (printable j) ops \<and>
     max_index 0 ops = ids - 1 \<and> wf_ops ids {} ops \<and> 4112 + cost_ops ops \<le> MAX_HEAP"

definition stored :: "'l world \<Rightarrow> opts \<Rightarrow> string list \<Rightarrow> trace_src list \<Rightarrow> bool" where
  "stored W o' names srcs \<longleftrightarrow> list_all2 (\<lambda>n t. length (tracedir o' @ n) < MAXLINE_md \<and> files W (tracedir o' @ n) = Some (trace_text t) \<and>
     trace_ok (junk_op W) t) names srcs"

definition stats_of :: "'l world \<Rightarrow> int \<Rightarrow> trace_src \<Rightarrow> stats_t \<Rightarrow> bool" where
  "stats_of W i t st \<longleftrightarrow> (case t of (_, ids, _, ops) \<Rightarrow> \<exists>h. 0 < h \<and> peak ids ops \<le> h \<and>
     st = \<lparr>st_ops = of_i (int (length ops)), st_valid = True, st_secs = Num (elapsed (mm_clock W i) / 10),
       st_util = Num (of_int (peak ids ops) / of_int h)\<rparr>)"

lemma repeat_speed:
  assumes "wf_ops (num_ids (dr_trace d)) {} (tr_ops (dr_trace d))" and "num_ops (dr_trace d) = int (length (tr_ops (dr_trace d)))"
    and "length (tr_blocks (dr_trace d)) = nat (num_ids (dr_trace d))" and "4112 + cost_ops (tr_ops (dr_trace d)) \<le> MAX_HEAP"
  shows "\<exists>d'. repeat_run (eval_mm_speed mm_package) n d = Some (Done d') \<and> dr_errors d' = dr_errors d"
  using assms
proof (induction n arbitrary: d)
  case (Suc n)
  obtain d1 where d1: "eval_mm_speed mm_package d = Some (Done d1)" using mmg.eval_speed_ok [OF Suc.prems] by blast
  then have f: "same_shape d d1" "dr_errors d1 = dr_errors d" using eval_speed_frame by blast+
  show ?case using Suc.IH [of d1] Suc.prems frameD [OF f(1)] f(2) d1 by auto
qed simp

lemma mm_file_ok:
  assumes "length (tracedir o' @ n) < MAXLINE_md" and "files W (tracedir o' @ n) = Some (trace_text t)" and "trace_ok (junk_op W) t"
  shows "\<exists>st d'. mm_file W mm_package o' i n d = Some (Done (st, chat o' [''Reading tracefile: '' @ n,
      ''Checking mm_malloc for correctness, '', ''efficiency, '', ''and performance.''], d')) \<and> stats_of W i t st \<and> dr_errors d' = dr_errors d"
proof -
  obtain h ids w ops where t: "t = (h, ids, w, ops)" by (cases t) auto
  note ok = assms(3) [unfolded t, simplified]
  let ?tr = "\<lparr>sugg_heapsize = h, num_ids = ids, num_ops = int (length ops), weight = w, tr_ops = ops,
      tr_blocks = replicate (nat ids) (junk W), block_sizes = replicate (nat ids) (junk W)\<rparr>"
  have o: "open_trace W o' n = Some (Done ?tr)"
    using assms(1,2) ok read_trace_ok [of h ids ops w "junk_op W" "junk W"] by (simp add: open_trace_def Let_def t)
  let ?d = "d\<lparr>dr_trace := ?tr\<rparr>"
  obtain d1 where v: "eval_mm_valid mm_package i ?d = Some (Done (True, d1))" "dr_errors d1 = dr_errors ?d"
    using mmc.eval_ok [of ?d i] ok by auto
  have f1: "tr_ops (dr_trace d1) = ops" "num_ops (dr_trace d1) = int (length ops)" "num_ids (dr_trace d1) = ids"
      "length (tr_blocks (dr_trace d1)) = nat ids" "length (block_sizes (dr_trace d1)) = nat ids"
    using frameD [OF eval_valid_frame [OF v(1)]] by simp_all
  obtain b d2 where u: "eval_mm_util mm_package d1 = Some (Done (peak ids ops, b, d2))" "0 < b" "peak ids ops \<le> b"
    using mmg.eval_util_ok [of d1] f1 ok by auto
  have f2: "same_shape d1 d2" "dr_errors d2 = dr_errors d1" using eval_util_frame [OF u(1)] by simp_all
  obtain d3 where s: "repeat_run (eval_mm_speed mm_package) 10 d2 = Some (Done d3)" "dr_errors d3 = dr_errors d2"
    using repeat_speed [of d2 10] frameD [OF f2(1)] f1 ok by auto
  let ?st = "\<lparr>st_ops = of_i (int (length ops)), st_valid = True, st_secs = Num (elapsed (mm_clock W i) / 10),
      st_util = Num (of_int (peak ids ops) / of_int b)\<rparr>"
  have "mm_file W mm_package o' i n d = Some (Done (?st, chat o' [''Reading tracefile: '' @ n,
      ''Checking mm_malloc for correctness, '', ''efficiency, '', ''and performance.''], d3))"
    using o v(1) u fsecs_average [OF s(1)] by (simp add: mm_file_def Let_def of_i_def)
  moreover have "stats_of W i t ?st" using u(2,3) by (auto simp: stats_of_def t)
  ultimately show ?thesis using v(2) f2(2) s(2) by auto
qed

lemma run_files_ok:
  assumes "stored W o' names srcs"
  shows "\<exists>sts out d'. run_files (mm_file W mm_package o') i names d = Some (Done (sts, out, d')) \<and> length sts = length srcs \<and>
    (\<forall>k < length srcs. stats_of W (i + int k) (srcs ! k) (sts ! k)) \<and> dr_errors d' = dr_errors d"
  using assms
proof (induction names arbitrary: srcs i d)
  case (Cons n names)
  obtain t ts where t: "srcs = t # ts" "length (tracedir o' @ n) < MAXLINE_md" "files W (tracedir o' @ n) = Some (trace_text t)"
      "trace_ok (junk_op W) t" "stored W o' names ts"
    using Cons.prems by (auto simp: stored_def list_all2_Cons1)
  obtain st out d1 where f: "mm_file W mm_package o' i n d = Some (Done (st, out, d1))" "stats_of W i t st" "dr_errors d1 = dr_errors d"
    using mm_file_ok [OF t(2-4)] by blast
  obtain sts outs d' where r: "run_files (mm_file W mm_package o') (i + 1) names d1 = Some (Done (sts, outs, d'))" "length sts = length ts"
      "\<forall>k < length ts. stats_of W (i + 1 + int k) (ts ! k) (sts ! k)" "dr_errors d' = dr_errors d1"
    using Cons.IH [OF t(5)] by blast
  have "stats_of W (i + int k) (srcs ! k) ((st # sts) ! k)" if "k < length srcs" for k
    using that f(2) r(3) t(1) by (cases k) (auto simp: algebra_simps)
  then show ?case using f(1,3) r(1,2,4) t(1) by auto
qed (simp add: stored_def)

text \<open>The statistics of trace \<open>k\<close> when its heap ended with \<open>h\<close> bytes.\<close>

definition util_of :: "trace_src \<Rightarrow> int \<Rightarrow> rat" where
  "util_of t h = (case t of (_, ids, _, ops) \<Rightarrow> of_int (peak ids ops) / of_int h)"

definition ops_of :: "trace_src \<Rightarrow> rat" where
  "ops_of t = (case t of (_, _, _, ops) \<Rightarrow> of_nat (length ops))"

definition heap_of :: "trace_src \<Rightarrow> int \<Rightarrow> bool" where
  "heap_of t h \<longleftrightarrow> (case t of (_, ids, _, ops) \<Rightarrow> 0 < h \<and> peak ids ops \<le> h)"

lemma ops_of_nonneg [simp]: "0 \<le> ops_of t"
  by (cases t) (simp add: ops_of_def)

lemma stats_of_heap: "stats_of W i t st \<longleftrightarrow> (\<exists>h. heap_of t h \<and>
    st = \<lparr>st_ops = Num (ops_of t), st_valid = True, st_secs = Num (elapsed (mm_clock W i) / 10), st_util = Num (util_of t h)\<rparr>)"
  by (cases t) (auto simp: stats_of_def heap_of_def util_of_def ops_of_def of_i_def)

lemma util_of_bounds: "heap_of t h \<Longrightarrow> 0 \<le> util_of t h \<and> util_of t h \<le> 1"
  by (cases t) (auto simp: heap_of_def util_of_def peak_nonneg)

lemma fold_add_stats:
  "fold add_stats (map (\<lambda>k. \<lparr>st_ops = Num (f k), st_valid = v k, st_secs = Num (g k), st_util = Num (u k)\<rparr>) ks)
     \<lparr>sum_secs = Num a, sum_ops = Num b, sum_util = Num c\<rparr> =
   \<lparr>sum_secs = Num (a + sum_list (map g ks)), sum_ops = Num (b + sum_list (map f ks)), sum_util = Num (c + sum_list (map u ks))\<rparr>"
  by (induction ks arbitrary: a b c) (simp_all add: add_stats_def algebra_simps)

text \<open>The part of the index for throughput: \<open>n\<close> requests in \<open>t\<close> seconds.\<close>

definition thru :: "rat \<Rightarrow> rat \<Rightarrow> rat" where
  "thru n t = (if t = 0 then 40 else 40 * min 1 (n / t / 600000))"

lemma thru_bounds: "0 \<le> n \<Longrightarrow> 0 \<le> t \<Longrightarrow> 0 \<le> thru n t \<and> thru n t \<le> 40"
  by (auto simp: thru_def)

lemma summary_grades:
  assumes sts: "sts = map (\<lambda>k. \<lparr>st_ops = Num (f k), st_valid = True, st_secs = Num (g k), st_util = Num (u k)\<rparr>) [0..<n]"
    and "0 < sum_list (map f [0..<n])" and "0 < n" and "0 \<le> sum_list (map g [0..<n])"
  defines "p \<equiv> 60 * (sum_list (map u [0..<n]) / of_nat n)" and "q \<equiv> thru (sum_list (map f [0..<n])) (sum_list (map g [0..<n]))"
  shows "summary o' 0 sts = PerfIndex (Num p) (Num q) (Num (p + q)) #
    (if autograder o' then [Correct (int n), PerfIdx (Num (p + q))] else [])"
proof -
  have t: "fold add_stats sts totals0 = \<lparr>sum_secs = Num (sum_list (map g [0..<n])), sum_ops = Num (sum_list (map f [0..<n])),
      sum_util = Num (sum_list (map u [0..<n]))\<rparr>"
    unfolding sts totals0_def fold_add_stats by simp
  have len: "length (filter st_valid sts) = n" "length sts = n" unfolding sts by (simp_all add: filter_map o_def)
  show ?thesis
    using assms(2-4) unfolding summary_def t len p_def q_def thru_def
    by (auto simp: Let_def of_i_def UTIL_WEIGHT_def AVG_LIBC_THRUPUT_def dsub_def inf_of_def min_def dless_def field_simps)
qed

lemma test_mm_ok:
  assumes st: "stored W o' names srcs" and "srcs \<noteq> []" and el: "\<forall>i. 0 \<le> elapsed (mm_clock W i)" and "\<exists>t \<in> set srcs. 0 < ops_of t"
  shows "\<exists>hs before d p q. test_mm W mm_package h o' names = Some (Done (before @ PerfIndex (Num p) (Num q) (Num (p + q)) #
      (if autograder o' then [Correct (int (length srcs)), PerfIdx (Num (p + q))] else []), d)) \<and> dr_errors d = [] \<and>
    (\<forall>k < length srcs. heap_of (srcs ! k) (hs k)) \<and>
    p = 60 * ((\<Sum>k\<leftarrow>[0..<length srcs]. util_of (srcs ! k) (hs k)) / of_nat (length srcs)) \<and>
    q = thru (\<Sum>k\<leftarrow>[0..<length srcs]. ops_of (srcs ! k)) (\<Sum>k\<leftarrow>[0..<length srcs]. elapsed (mm_clock W (int k)) / 10)"
proof -
  let ?n = "length srcs" and ?d = "new_drv (mem_reset_brk h)"
  obtain sts out d where r: "run_files (mm_file W mm_package o') 0 names ?d = Some (Done (sts, out, d))" "length sts = ?n"
      "\<forall>k < ?n. stats_of W (int k) (srcs ! k) (sts ! k)" "dr_errors d = []"
    using run_files_ok [OF st, of 0 ?d] by (auto simp: new_drv_def)
  obtain hs where hs: "\<forall>k < ?n. heap_of (srcs ! k) (hs k) \<and> sts ! k = \<lparr>st_ops = Num (ops_of (srcs ! k)), st_valid = True,
      st_secs = Num (elapsed (mm_clock W (int k)) / 10), st_util = Num (util_of (srcs ! k) (hs k))\<rparr>"
    using r(3) unfolding stats_of_heap by metis
  have sts: "sts = map (\<lambda>k. \<lparr>st_ops = Num (ops_of (srcs ! k)), st_valid = True, st_secs = Num (elapsed (mm_clock W (int k)) / 10),
      st_util = Num (util_of (srcs ! k) (hs k))\<rparr>) [0..<?n]"
    by (rule nth_equalityI) (use r(2) hs in simp_all)
  have "(\<Sum>k\<leftarrow>[0..<?n]. ops_of (srcs ! k)) = (\<Sum>t\<leftarrow>srcs. ops_of t)"
    using map_nth [of srcs] by (metis (no_types, lifting) map_map comp_apply map_eq_conv)
  moreover have "0 < (\<Sum>t\<leftarrow>srcs. ops_of t)"
  proof -
    obtain t where t: "t \<in> set srcs" "0 < ops_of t" using assms(4) by blast
    have "ops_of t \<le> (\<Sum>t\<leftarrow>srcs. ops_of t)" using t(1) by (intro member_le_sum_list) auto
    then show ?thesis using t(2) by simp
  qed
  ultimately have ops: "0 < (\<Sum>k\<leftarrow>[0..<?n]. ops_of (srcs ! k))" by simp
  have n: "0 < ?n" using assms(2) by simp
  have secs: "0 \<le> (\<Sum>k\<leftarrow>[0..<?n]. elapsed (mm_clock W (int k)) / 10)" using el by (intro sum_list_nonneg) auto
  note g = summary_grades [OF sts ops n secs, of o']
  define p where "p = 60 * ((\<Sum>k\<leftarrow>[0..<?n]. util_of (srcs ! k) (hs k)) / of_nat ?n)"
  define q where "q = thru (\<Sum>k\<leftarrow>[0..<?n]. ops_of (srcs ! k)) (\<Sum>k\<leftarrow>[0..<?n]. elapsed (mm_clock W (int k)) / 10)"
  have "test_mm W mm_package h o' names = Some (Done ((chat o' [''Testing mm malloc''] @ out @
      (if verbose o' \<noteq> 0 then Says ''Results for mm malloc:'' # printresults 0 sts else [])) @ PerfIndex (Num p) (Num q) (Num (p + q)) #
      (if autograder o' then [Correct (int ?n), PerfIdx (Num (p + q))] else []), d))"
    unfolding test_mm_def r(1) using r(4) g by (simp add: Let_def p_def q_def)
  then show ?thesis using r(4) hs p_def q_def by blast
qed


text \<open>A system with one trace file and a clock on which ten replays take 100 microseconds; the C library is not asked.\<close>

definition no_libc :: "unit package" where
  "no_libc = \<lparr>pk_init = (\<lambda>h. Some (0, h)), pk_malloc = (\<lambda>n h. Some (None, h)), pk_realloc = (\<lambda>p n h. Some (None, h)),
     pk_free = (\<lambda>p h. Some h)\<rparr>"

definition a_world :: "unit world" where
  "a_world = \<lparr>files = (\<lambda>_. Some (print_trace 0 2 1 sample_ops)), libc = no_libc, libc_heap = (),
     libc_clock = (\<lambda>i. ((0, 0), (0, 0))), mm_clock = (\<lambda>i. ((7, 999990), (8, 90))),
     junk_op = \<lparr>tp_type = ALLOC, tp_index = 0, tp_size = 0\<rparr>, junk = 0\<rparr>"


end
