(* ===== verification/Fcyc.thy ===== *)
theory Fcyc
  imports Prelude "HOL-Library.Multiset"
begin

text \<open>
  The K-best measurement of \<^verbatim>\<open>lab7/fcyc.c\<close>: repeat a measurement until the \<open>k\<close> smallest results agree or a number
  of samples is reached.  A measurement is a number of a linear order (a \<^verbatim>\<open>double\<close> that is not a NaN), and
  \<open>near x y\<close> stands for the test \<^verbatim>\<open>(1 + epsilon) * x >= y\<close>; the parameters are those the setters set.
\<close>

record 'a sampler =
  fc_values :: "'a list"
  samplecount :: int
  kbest :: int
  maxsamples :: int

definition init_sampler :: "int \<Rightarrow> int \<Rightarrow> ('a::zero) sampler" where
  "init_sampler k maxs = \<lparr>fc_values = replicate (nat k) 0, samplecount = 0, kbest = k, maxsamples = maxs\<rparr>"

text \<open>The insertion sort at the end of \<^verbatim>\<open>add_sample\<close>.\<close>

fun sink_down :: "nat \<Rightarrow> ('a::linorder) list \<Rightarrow> 'a list" where
  "sink_down 0 vs = vs"
| "sink_down (Suc pos) vs =
     (if vs ! pos > vs ! Suc pos then sink_down pos (vs[pos := vs ! Suc pos, Suc pos := vs ! pos]) else vs)"

definition add_sample :: "('a::linorder) \<Rightarrow> 'a sampler \<Rightarrow> 'a sampler ub" where
  "add_sample val s = do {
     (pos, vs) \<leftarrow>
       (if samplecount s < kbest s then do { vs \<leftarrow> arr_set (fc_values s) (samplecount s) val; Some (samplecount s, vs) }
        else do {
          last \<leftarrow> arr_get (fc_values s) (kbest s - 1);
          (if val < last then do { vs \<leftarrow> arr_set (fc_values s) (kbest s - 1) val; Some (kbest s - 1, vs) }
           else Some (0, fc_values s))
        });
     Some (s\<lparr>fc_values := sink_down (nat pos) vs, samplecount := samplecount s + 1\<rparr>)
   }"

definition has_converged :: "('a \<Rightarrow> 'a \<Rightarrow> bool) \<Rightarrow> 'a sampler \<Rightarrow> bool ub" where
  "has_converged near s =
     (if samplecount s \<ge> kbest s then do {
        x \<leftarrow> arr_get (fc_values s) 0;
        y \<leftarrow> arr_get (fc_values s) (kbest s - 1);
        Some (near x y)
      } else Some False)"

text \<open>The loop of \<^verbatim>\<open>fcyc\<close>, the same with either counter; \<open>cyc i\<close> is what run \<open>i\<close> of the function measures.\<close>

lemma add_sample_count: "add_sample v s = Some s' \<Longrightarrow> samplecount s' = samplecount s + 1 \<and> maxsamples s' = maxsamples s"
  by (auto simp: add_sample_def bind_eq_Some_conv split: if_splits)

function fcyc_loop :: "(('a::linorder) \<Rightarrow> 'a \<Rightarrow> bool) \<Rightarrow> (nat \<Rightarrow> 'a) \<Rightarrow> 'a sampler \<Rightarrow> 'a sampler ub" where
  "fcyc_loop near cyc s = do {
     s' \<leftarrow> add_sample (cyc (nat (samplecount s))) s;
     converged \<leftarrow> has_converged near s';
     (if \<not> converged \<and> samplecount s' < maxsamples s' then fcyc_loop near cyc s' else Some s')
   }"
  by pat_completeness auto

termination
  by (relation "measure (\<lambda>(near, cyc, s). nat (maxsamples s - samplecount s))") (auto dest!: add_sample_count)

declare fcyc_loop.simps [simp del]

definition fcyc :: "(('a::{linorder,zero}) \<Rightarrow> 'a \<Rightarrow> bool) \<Rightarrow> (nat \<Rightarrow> 'a) \<Rightarrow> int \<Rightarrow> int \<Rightarrow> 'a ub" where
  "fcyc near cyc k maxs = do { s \<leftarrow> fcyc_loop near cyc (init_sampler k maxs); arr_get (fc_values s) 0 }"

section \<open>The samples kept\<close>

text \<open>After some runs the array holds the smallest results in order.\<close>

definition smallest :: "nat \<Rightarrow> ('a::linorder) list \<Rightarrow> 'a list" where
  "smallest k xs = take k (sort xs)"

definition sampler_holds :: "('a::linorder) list \<Rightarrow> 'a sampler \<Rightarrow> bool" where
  "sampler_holds xs s \<longleftrightarrow> samplecount s = int (length xs) \<and> length (fc_values s) = nat (kbest s) \<and>
     take (length xs) (fc_values s) = smallest (nat (kbest s)) xs"

text \<open>A value behind a sorted part sinks to its place.\<close>

lemma insort_snoc: "x < y \<Longrightarrow> insort x (ys @ [y]) = insort x ys @ [y]"
  by (induction ys) auto

lemma insort_last: "sorted ys \<Longrightarrow> \<forall>y \<in> set ys. y \<le> x \<Longrightarrow> insort x ys = ys @ [x]"
proof (induction ys)
  case (Cons y ys)
  then show ?case using insort_is_Cons [of ys "\<lambda>x. x" x] by (cases "x \<le> y") auto
qed simp

lemma sink_down_insort:
  "pos < length vs \<Longrightarrow> sorted (take pos vs) \<Longrightarrow>
   sink_down pos vs = insort (vs ! pos) (take pos vs) @ drop (Suc pos) vs"
proof (induction pos arbitrary: vs)
  case 0
  then show ?case using Cons_nth_drop_Suc [of 0 vs] by simp
next
  case (Suc pos)
  let ?x = "vs ! Suc pos"
  have snoc: "take (Suc pos) vs = take pos vs @ [vs ! pos]" using Suc.prems(1) by (simp add: take_Suc_conv_app_nth)
  then have sorted: "sorted (take pos vs)" "\<forall>y \<in> set (take pos vs). y \<le> vs ! pos"
    using Suc.prems(2) by (simp_all add: sorted_append)
  show ?case
  proof (cases "vs ! pos > ?x")
    case True
    let ?vs = "vs[pos := ?x, Suc pos := vs ! pos]"
    have "sink_down pos ?vs = insort ?x (take pos vs) @ drop (Suc pos) ?vs"
      using Suc.IH [of ?vs] Suc.prems(1) sorted(1) by simp
    moreover have "drop (Suc pos) ?vs = vs ! pos # drop (Suc (Suc pos)) vs"
      using Suc.prems(1) Cons_nth_drop_Suc [of "Suc pos" ?vs] by simp
    ultimately show ?thesis using True insort_snoc [OF True, of "take pos vs"] by (simp add: snoc)
  next
    case False
    then have "insort ?x (take (Suc pos) vs) = take (Suc pos) vs @ [?x]"
      using sorted Suc.prems(2) by (intro insort_last) (auto simp: snoc)
    then show ?thesis using False Suc.prems(1) by (simp add: Cons_nth_drop_Suc)
  qed
qed

text \<open>The first \<open>k\<close> of a sorted list after an insertion.\<close>

lemma take_equal:
  "sorted ys \<Longrightarrow> \<forall>y \<in> set ys. x \<le> y \<Longrightarrow> k \<le> length ys \<Longrightarrow> (0 < k \<Longrightarrow> ys ! (k - 1) \<le> x) \<Longrightarrow> take k ys = replicate k x"
proof (rule nth_equalityI)
  fix i assume a: "sorted ys" "\<forall>y \<in> set ys. x \<le> y" "k \<le> length ys" "0 < k \<Longrightarrow> ys ! (k - 1) \<le> x" "i < length (take k ys)"
  then have "ys ! i \<le> ys ! (k - 1)" by (intro sorted_nth_mono) auto
  moreover have "x \<le> ys ! i" "ys ! (k - 1) \<le> x" using a by auto
  ultimately have "ys ! i = x" by order
  then show "take k ys ! i = replicate k x ! i" using a by auto
qed simp

lemma take_insort:
  assumes "sorted xs" and "0 < k" and "k \<le> length xs"
  shows "take k (insort x xs) = (if x < xs ! (k - 1) then insort x (take (k - 1) xs) else take k xs)"
  using assms
proof (induction xs arbitrary: k)
  case (Cons y ys)
  then obtain j where k: "k = Suc j" by (cases k) auto
  show ?case
  proof (cases "x \<le> y")
    case le: True
    show ?thesis
    proof (cases "x < (y # ys) ! j")
      case True
      then show ?thesis using le k by (cases j) auto
    next
      case False
      moreover have "y \<le> (y # ys) ! j" using Cons.prems k by (cases j) auto
      ultimately have "y \<le> x" by order
      then have "x = y" using le by simp
      moreover have "take (Suc j) (y # ys) = replicate (Suc j) y"
        using Cons.prems k False \<open>y \<le> x\<close> \<open>x = y\<close> by (intro take_equal) auto
      moreover have "take j (y # ys) = replicate j y"
      proof -
        have "take j (y # ys) = take j (take (Suc j) (y # ys))" unfolding take_take by simp
        then show ?thesis unfolding calculation(2) take_replicate by simp
      qed
      ultimately show ?thesis using False k by simp
    qed
  next
    case False
    then show ?thesis using Cons k by (cases j) auto
  qed
qed simp

section \<open>One more sample\<close>

lemma sort_snoc: "sort (xs @ [x]) = insort x (sort xs)" for x :: "'a::linorder"
  by (rule properties_for_sort [symmetric, THEN sym]) (auto simp: sorted_insort)

lemma sort_first: "xs \<noteq> [] \<Longrightarrow> sort xs ! 0 = Min (set xs)" for xs :: "'a::linorder list"
proof -
  assume "xs \<noteq> []"
  then obtain y ys where y: "sort xs = y # ys" by (cases "sort xs") (auto dest: arg_cong [where f = length])
  then have "set xs = insert y (set ys)" "\<forall>z \<in> set ys. y \<le> z"
    using sorted_sort [of xs] set_sort [of "\<lambda>x. x" xs] by auto
  then show ?thesis using y by (auto intro!: Min_eqI [symmetric])
qed

lemma sampler_add:
  assumes "sampler_holds xs s" and "0 < kbest s"
  obtains s' where "add_sample x s = Some s'" and "sampler_holds (xs @ [x]) s'" and "kbest s' = kbest s" and
    "maxsamples s' = maxsamples s"
proof -
  define k where "k = nat (kbest s)"
  have k: "kbest s = int k" "0 < k" using assms(2) by (auto simp: k_def)
  note h = assms(1) [unfolded sampler_holds_def smallest_def]
  show thesis
  proof (cases "length xs < k")
    case True
    let ?vs = "(fc_values s)[length xs := x]"
    have prefix: "take (length xs) ?vs = sort xs" using h True k by simp
    have "sink_down (length xs) ?vs = insort x (sort xs) @ drop (Suc (length xs)) ?vs"
      using sink_down_insort [of "length xs" ?vs] prefix h True k by simp
    then show thesis using h True k
      by (intro that [of "s\<lparr>fc_values := sink_down (length xs) ?vs, samplecount := samplecount s + 1\<rparr>"])
        (auto simp: add_sample_def sampler_holds_def smallest_def sort_snoc)
  next
    case False
    have vals: "fc_values s = take k (sort xs)" using h False k by auto
    have last: "fc_values s ! (k - 1) = sort xs ! (k - 1)" "length (fc_values s) = k" using vals k(2) False by simp_all
    show thesis
    proof (cases "x < sort xs ! (k - 1)")
      case True
      let ?vs = "(fc_values s)[k - 1 := x]"
      have "take (k - 1) ?vs = take (k - 1) (sort xs)" by (simp add: vals min_def)
      then have "sink_down (k - 1) ?vs = insort x (take (k - 1) (sort xs))"
        using sink_down_insort [of "k - 1" ?vs] last(2) k(2) by simp
      moreover have "take k (insort x (sort xs)) = insort x (take (k - 1) (sort xs))"
        using take_insort [of "sort xs" k x] True False k(2) by simp
      ultimately show thesis using h True False k last
        by (intro that [of "s\<lparr>fc_values := sink_down (k - 1) ?vs, samplecount := samplecount s + 1\<rparr>"])
          (auto simp: add_sample_def sampler_holds_def smallest_def sort_snoc nat_diff_distrib)
    next
      case ge: False
      have "take k (insort x (sort xs)) = take k (sort xs)"
        using take_insort [of "sort xs" k x] ge False k(2) by simp
      then show thesis using h ge False k last vals
        by (intro that [of "s\<lparr>samplecount := samplecount s + 1\<rparr>"])
          (auto simp: add_sample_def sampler_holds_def smallest_def sort_snoc nat_diff_distrib)
    qed
  qed
qed

section \<open>The loop\<close>

text \<open>The \<open>k\<close> smallest of some samples agree.\<close>

definition agree :: "(('a::linorder) \<Rightarrow> 'a \<Rightarrow> bool) \<Rightarrow> nat \<Rightarrow> 'a list \<Rightarrow> bool" where
  "agree near k xs \<longleftrightarrow> k \<le> length xs \<and> near (sort xs ! 0) (sort xs ! (k - 1))"

lemma has_converged_agree:
  assumes "sampler_holds xs s" and "0 < kbest s"
  shows "has_converged near s = Some (agree near (nat (kbest s)) xs)"
proof (cases "nat (kbest s) \<le> length xs")
  case True
  then have "fc_values s = take (nat (kbest s)) (sort xs)"
    using assms by (auto simp: sampler_holds_def smallest_def)
  then show ?thesis using True assms
    by (auto simp: has_converged_def agree_def sampler_holds_def smallest_def nat_diff_distrib)
next
  case False
  then show ?thesis using assms by (auto simp: has_converged_def agree_def sampler_holds_def)
qed

lemma fcyc_loop_runs:
  assumes "sampler_holds (map cyc [0..<m]) s" and "0 < kbest s"
  shows "\<exists>n s'. m < n \<and> int n \<le> max (int m + 1) (maxsamples s) \<and> fcyc_loop near cyc s = Some s' \<and>
    sampler_holds (map cyc [0..<n]) s' \<and> kbest s' = kbest s \<and>
    (int n < maxsamples s \<longrightarrow> agree near (nat (kbest s)) (map cyc [0..<n])) \<and>
    (\<forall>j. m < j \<and> j < n \<longrightarrow> \<not> agree near (nat (kbest s)) (map cyc [0..<j]))"
  using assms
proof (induction "nat (maxsamples s - int m)" arbitrary: m s rule: less_induct)
  case less
  let ?k = "nat (kbest s)"
  have count: "nat (samplecount s) = m" using less.prems(1) by (simp add: sampler_holds_def)
  obtain s1 where s1: "add_sample (cyc m) s = Some s1" "sampler_holds (map cyc [0..<Suc m]) s1" "kbest s1 = kbest s"
      "maxsamples s1 = maxsamples s"
    using sampler_add [OF less.prems, of "cyc m"] by auto
  have c: "has_converged near s1 = Some (agree near ?k (map cyc [0..<Suc m]))" "samplecount s1 = int m + 1"
    using has_converged_agree [OF s1(2)] s1(2,3) less.prems(2) by (auto simp: sampler_holds_def)
  show ?case
  proof (cases "agree near ?k (map cyc [0..<Suc m]) \<or> \<not> int m + 1 < maxsamples s")
    case True
    then have "fcyc_loop near cyc s = Some s1"
      using s1 c by (auto simp: fcyc_loop.simps [of near cyc s] count)
    then show ?thesis using s1 True by (intro exI [of _ "Suc m"] exI [of _ s1]) auto
  next
    case False
    then have e: "fcyc_loop near cyc s = fcyc_loop near cyc s1"
      using s1 c by (auto simp: fcyc_loop.simps [of near cyc s] count)
    have dec: "nat (maxsamples s1 - int (Suc m)) < nat (maxsamples s - int m)" using False s1(4) by auto
    obtain n s' where n: "Suc m < n" "int n \<le> max (int (Suc m) + 1) (maxsamples s)" "fcyc_loop near cyc s1 = Some s'"
        "sampler_holds (map cyc [0..<n]) s'" "kbest s' = kbest s"
        "int n < maxsamples s \<longrightarrow> agree near ?k (map cyc [0..<n])"
        "\<forall>j. Suc m < j \<and> j < n \<longrightarrow> \<not> agree near ?k (map cyc [0..<j])"
      using less.hyps [OF dec s1(2)] s1(3,4) less.prems(2) by auto
    have "\<not> agree near ?k (map cyc [0..<j])" if "m < j" "j < n" for j
      using that n(7) False by (cases "j = Suc m") auto
    then show ?thesis using n e False by (intro exI [of _ n] exI [of _ s']) auto
  qed
qed

text \<open>C31: Started with a positive \<open>k\<close>, \<^verbatim>\<open>fcyc\<close> returns: the smallest of the first \<open>n\<close> measurements, where \<open>n\<close> is the
  first number of measurements whose \<open>k\<close> smallest agree, or the limit when none below it does.\<close>

theorem fcyc_k_best:
  assumes "0 < k"
  shows "\<exists>n. 0 < n \<and> int n \<le> max 1 maxs \<and> fcyc near cyc k maxs = Some (Min (cyc ` {..<n})) \<and>
    (int n < maxs \<longrightarrow> agree near (nat k) (map cyc [0..<n])) \<and>
    (\<forall>j. 0 < j \<and> j < n \<longrightarrow> \<not> agree near (nat k) (map cyc [0..<j]))"
proof -
  let ?s = "init_sampler k maxs :: 'a sampler"
  have "sampler_holds (map cyc [0..<0]) ?s" "kbest ?s = k" "maxsamples ?s = maxs"
    by (auto simp: sampler_holds_def init_sampler_def smallest_def)
  then obtain n s' where n: "0 < n" "int n \<le> max 1 maxs" "fcyc_loop near cyc ?s = Some s'"
      "sampler_holds (map cyc [0..<n]) s'" "kbest s' = k" "int n < maxs \<longrightarrow> agree near (nat k) (map cyc [0..<n])"
      "\<forall>j. 0 < j \<and> j < n \<longrightarrow> \<not> agree near (nat k) (map cyc [0..<j])"
    using fcyc_loop_runs [of cyc 0 ?s near] assms by fastforce
  have "take n (fc_values s') = take (nat k) (sort (map cyc [0..<n]))" "length (fc_values s') = nat k"
    using n(4,5) by (simp_all add: sampler_holds_def smallest_def)
  then have "fc_values s' ! 0 = sort (map cyc [0..<n]) ! 0" using n(1) assms by (metis nth_take zero_less_nat_eq)
  moreover have "sort (map cyc [0..<n]) ! 0 = Min (cyc ` {..<n})"
    using sort_first [of "map cyc [0..<n]"] n(1) by (simp add: atLeast0LessThan)
  ultimately have "fcyc near cyc k maxs = Some (Min (cyc ` {..<n}))"
    using n(3) assms \<open>length (fc_values s') = nat k\<close> by (simp add: fcyc_def)
  then show ?thesis using n by blast
qed

theorem fcyc_k_best_witness:
  "(0::int) < 2 \<and> fcyc (\<lambda>x y. y \<le> x + 1) (nth [9, 5, 7, 6, 1 :: int]) 2 5 = Some (5::int) \<and>
   (\<exists>n. 0 < n \<and> int n \<le> max 1 5 \<and> fcyc (\<lambda>x y. y \<le> x + 1) (nth [9, 5, 7, 6, 1 :: int]) 2 5 = Some (Min (nth [9, 5, 7, 6, 1 :: int] ` {..<n})) \<and>
     (int n < 5 \<longrightarrow> agree (\<lambda>x y. y \<le> x + 1) (nat 2) (map (nth [9, 5, 7, 6, 1 :: int]) [0..<n])) \<and>
     (\<forall>j. 0 < j \<and> j < n \<longrightarrow> \<not> agree (\<lambda>x y. y \<le> x + 1) (nat 2) (map (nth [9, 5, 7, 6, 1 :: int]) [0..<j])))"
proof -
  have "fcyc (\<lambda>x y. y \<le> x + 1) (nth [9, 5, 7, 6, 1 :: int]) 2 5 = Some (5::int)" by code_simp
  then show ?thesis using fcyc_k_best [of 2 5 "\<lambda>x y. y \<le> x + 1" "nth [9, 5, 7, 6, 1 :: int]"] by simp
qed

end
