(* ===== verification/Clock.thy ===== *)
theory Clock
  imports Timers "HOL-Library.Word"
begin

text \<open>
  The cycle counters of \<^verbatim>\<open>lab7/clock.c\<close> on x86: differences of the 64-bit time stamp counter, computed in two 32-bit
  halves, the clock rate, and the counter that leaves out timer interrupts.  What \<^verbatim>\<open>rdtsc\<close> and \<^verbatim>\<open>times\<close> deliver on their
  successive uses are parameters.
\<close>

section \<open>State\<close>

record machine =
  tsc :: "nat \<Rightarrow> 64 word"
  utime :: "nat \<Rightarrow> int"

record clk =
  cyc_hi :: "32 word"
  cyc_lo :: "32 word"
  cyc_per_tick :: dbl
  start_tick :: int
  tsc_reads :: nat
  times_calls :: nat

section \<open>The counter\<close>

definition access_counter :: "machine \<Rightarrow> clk \<Rightarrow> (32 word \<times> 32 word) \<times> clk" where
  "access_counter m c = (let t = tsc m (tsc_reads c) in ((ucast (drop_bit 32 t), ucast t), c\<lparr>tsc_reads := tsc_reads c + 1\<rparr>))"

definition start_counter :: "machine \<Rightarrow> clk \<Rightarrow> clk" where
  "start_counter m c = (let ((hi, lo), c) = access_counter m c in c\<lparr>cyc_hi := hi, cyc_lo := lo\<rparr>)"

text \<open>A negative result would print a message; there is none.\<close>

definition get_counter :: "machine \<Rightarrow> clk \<Rightarrow> dbl \<times> clk" where
  "get_counter m c =
     (let ((ncyc_hi, ncyc_lo), c) = access_counter m c;
          lo = ncyc_lo - cyc_lo c;
          borrow = (if lo > ncyc_lo then 1 else 0);
          hi = ncyc_hi - cyc_hi c - borrow
      in (dadd (dmul (dmul (of_i (uint hi)) (of_i (2 ^ 30))) (of_i 4)) (of_i (uint lo)), c))"

definition ovhd :: "machine \<Rightarrow> clk \<Rightarrow> dbl \<times> clk" where
  "ovhd m c = (let (_, c) = get_counter m (start_counter m c) in get_counter m (start_counter m c))"

definition mhz_full :: "int \<Rightarrow> machine \<Rightarrow> clk \<Rightarrow> dbl \<times> clk" where
  "mhz_full sleeptime m c =
     (let (result, c) = get_counter m (start_counter m c) in (ddiv result (dmul (of_i 1000000) (of_i sleeptime)), c))"

definition mhz :: "machine \<Rightarrow> clk \<Rightarrow> dbl \<times> clk" where
  "mhz m c = mhz_full 2 m c"

section \<open>Compensating for timer interrupts\<close>

definition NEVENT :: nat where "NEVENT = 100"
definition THRESHOLD :: dbl where "THRESHOLD = Num 1000"
definition RECORDTHRESH :: dbl where "RECORDTHRESH = Num 3000"

definition times_utime :: "machine \<Rightarrow> clk \<Rightarrow> int \<times> clk" where
  "times_utime m c = (utime m (times_calls c), c\<lparr>times_calls := times_calls c + 1\<rparr>)"

definition record_event :: "dbl \<Rightarrow> clk \<Rightarrow> clk" where
  "record_event cpt c =
     (if (cyc_per_tick c = Num 0 \<or> dless cpt (cyc_per_tick c)) \<and> dless RECORDTHRESH cpt then c\<lparr>cyc_per_tick := cpt\<rparr> else c)"

text \<open>The loop ends when enough ticks have been seen, which the machine need not provide.\<close>

partial_function (option) callibrate_loop :: "machine \<Rightarrow> nat \<Rightarrow> dbl \<Rightarrow> int \<Rightarrow> clk \<Rightarrow> clk option" where
  "callibrate_loop m e oldt oldc c =
     (if \<not> e < NEVENT then Some c
      else let (newt, c) = get_counter m c
        in if \<not> dless (dsub newt oldt) THRESHOLD
           then let (newc, c) = times_utime m c
             in if newc > oldc
                then callibrate_loop m (e + 1) newt newc (record_event (ddiv (dsub newt oldt) (of_i (newc - oldc))) c)
                else callibrate_loop m e newt oldc c
           else callibrate_loop m e oldt oldc c)"

definition callibrate :: "machine \<Rightarrow> clk \<Rightarrow> clk option" where
  "callibrate m c =
     (let (oldc, c) = times_utime m c;
          (oldt, c) = get_counter m (start_counter m c)
      in callibrate_loop m 0 oldt oldc c)"

definition start_comp_counter :: "machine \<Rightarrow> clk \<Rightarrow> clk option" where
  "start_comp_counter m c = do {
     c \<leftarrow> (if cyc_per_tick c = Num 0 then callibrate m c else Some c);
     let (t, c) = times_utime m c;
     Some (start_counter m (c\<lparr>start_tick := t\<rparr>))
   }"

definition get_comp_counter :: "machine \<Rightarrow> clk \<Rightarrow> dbl \<times> clk" where
  "get_comp_counter m c =
     (let (time, c) = get_counter m c;
          (t, c) = times_utime m c;
          ticks = t - start_tick c
      in (dsub time (dmul (of_i ticks) (cyc_per_tick c)), c))"

section \<open>The subtraction in halves\<close>

lemma mod_borrow:
  fixes b q :: int
  assumes "0 \<le> b" "b < M" "0 \<le> q" "q < M"
  shows "(b - q) mod M = b - q + (if b < q then M else 0)"
proof (cases "b < q")
  case True
  have "(b - q + M) mod M = b - q + M" using assms True by (intro mod_pos_pos_trivial) auto
  then show ?thesis using True by simp
next
  case False
  then show ?thesis using assms by simp
qed

lemma halves:
  fixes x y :: "64 word" and a b :: "32 word"
  defines "a \<equiv> ucast (drop_bit 32 x)" and "b \<equiv> ucast x" and "p \<equiv> (ucast (drop_bit 32 y) :: 32 word)" and "q \<equiv> (ucast y :: 32 word)"
  shows "uint (a - p - (if b - q > b then 1 else 0)) * 2 ^ 32 + uint (b - q) = uint (x - y)"
proof -
  have split: "uint z = uint (ucast (drop_bit 32 z) :: 32 word) * 2 ^ 32 + uint (ucast z :: 32 word)" for z :: "64 word"
  proof -
    have "uint z < 2 ^ 64" "0 \<le> uint z" using uint_bounded [of z] by simp_all
    then have "0 \<le> uint z div 2 ^ 32" "uint z div 2 ^ 32 < 2 ^ 32" by (simp_all add: pos_imp_zdiv_nonneg_iff)
    then have "uint z div 2 ^ 32 mod 2 ^ 32 = uint z div 2 ^ 32" by (rule mod_pos_pos_trivial)
    then have "uint (ucast (drop_bit 32 z) :: 32 word) = uint z div 2 ^ 32" "uint (ucast z :: 32 word) = uint z mod 2 ^ 32"
      by (simp_all add: unsigned_ucast_eq take_bit_eq_mod unsigned_drop_bit_eq drop_bit_eq_div uint_div)
    then show ?thesis by simp
  qed
  have bounds: "0 \<le> uint z \<and> uint z < 2 ^ 32" for z :: "32 word" using uint_bounded [of z] by simp
  have lo: "uint (b - q) = (uint b - uint q) mod 2 ^ 32" by (simp add: uint_word_ariths)
  have br: "b - q > b \<longleftrightarrow> uint b < uint q"
    using bounds [of b] bounds [of q] mod_borrow [of "uint b" "2 ^ 32" "uint q"] unfolding word_less_def lo by auto
  let ?k = "if uint b < uint q then 1 else 0 :: int"
  have hi: "uint (a - p - (if b - q > b then 1 else 0)) = (uint a - uint p - ?k) mod 2 ^ 32"
    unfolding br by (simp add: uint_word_ariths mod_diff_left_eq)
  have "uint (x - y) = (uint x - uint y) mod 2 ^ 64" by (simp add: uint_word_ariths)
  also have "uint x - uint y = (uint a - uint p - ?k) * 2 ^ 32 + (uint b - uint q) mod 2 ^ 32"
    using split [of x] split [of y] bounds [of b] bounds [of q] mod_borrow [of "uint b" "2 ^ 32" "uint q"] unfolding a_def [symmetric] b_def [symmetric] p_def [symmetric] q_def [symmetric]
    by (cases "uint b < uint q") (simp_all add: algebra_simps)
  also have "\<dots> mod 2 ^ 64 = (uint a - uint p - ?k) mod 2 ^ 32 * 2 ^ 32 + (uint b - uint q) mod 2 ^ 32"
  proof -
    have join: "(h * 2 ^ 32 + l) mod 2 ^ 64 = h mod 2 ^ 32 * 2 ^ 32 + l" if "0 \<le> l" "l < 2 ^ 32" for h l :: int
      using that zmod_zmult2_eq [of "2 ^ 32" "h * 2 ^ 32 + l" "2 ^ 32"] by simp
    show ?thesis by (rule join) simp_all
  qed
  finally show ?thesis using lo hi by simp
qed

section \<open>What the counter shows\<close>

definition cycles :: "machine \<Rightarrow> nat \<Rightarrow> nat \<Rightarrow> int" where
  "cycles m i j = uint (tsc m j - tsc m i)"

lemma start_get:
  "get_counter m (start_counter m c) =
     (of_i (cycles m (tsc_reads c) (tsc_reads c + 1)),
      c\<lparr>cyc_hi := ucast (drop_bit 32 (tsc m (tsc_reads c))), cyc_lo := ucast (tsc m (tsc_reads c)), tsc_reads := tsc_reads c + 2\<rparr>)"
proof -
  let ?x = "tsc m (tsc_reads c + 1)" and ?y = "tsc m (tsc_reads c)"
  have exact: "dadd (dmul (dmul (of_i h) (of_i (2 ^ 30))) (of_i 4)) (of_i l) = of_i (h * 2 ^ 32 + l)" for h l
    by (simp add: of_i_def)
  show ?thesis
    unfolding start_counter_def get_counter_def access_counter_def Let_def cycles_def halves [of ?x ?y, symmetric]
    by (simp add: exact [simplified])
qed

lemma start_fields [simp]:
  "cyc_per_tick (start_counter m c) = cyc_per_tick c" "times_calls (start_counter m c) = times_calls c"
  "start_tick (start_counter m c) = start_tick c" "tsc_reads (start_counter m c) = tsc_reads c + 1"
  by (simp_all add: start_counter_def access_counter_def Let_def)

text \<open>The stamp counts true cycles modulo \<open>2^64\<close>.\<close>

definition true_cycles :: "machine \<Rightarrow> (nat \<Rightarrow> int) \<Rightarrow> bool" where
  "true_cycles m T \<longleftrightarrow> (\<forall>i. tsc m i = word_of_int (T i))"

lemma cycles_true:
  assumes "true_cycles m T" and "T i \<le> T j" and "T j < T i + 2 ^ 64"
  shows "cycles m i j = T j - T i"
proof -
  have "cycles m i j = uint (word_of_int (T j - T i) :: 64 word)" using assms(1) by (simp add: true_cycles_def cycles_def)
  also have "\<dots> = (T j - T i) mod 2 ^ 64" by (subst uint_word_of_int) simp
  also have "\<dots> = T j - T i" using assms(2,3) by (intro mod_pos_pos_trivial) simp_all
  finally show ?thesis .
qed

lemma ovhd_true:
  assumes "true_cycles m T" and "T (tsc_reads c + 2) \<le> T (tsc_reads c + 3)" and "T (tsc_reads c + 3) < T (tsc_reads c + 2) + 2 ^ 64"
  shows "fst (ovhd m c) = of_i (T (tsc_reads c + 3) - T (tsc_reads c + 2))"
  using cycles_true [OF assms] by (simp add: ovhd_def start_get Let_def numeral_3_eq_3)



lemma comp_counter_corrects:
  assumes "cyc_per_tick c = Num cpt" and "cpt \<noteq> 0" and "true_cycles m T"
    and "T (tsc_reads c) \<le> T (tsc_reads c + 1)" and "T (tsc_reads c + 1) < T (tsc_reads c) + 2 ^ 64"
  shows "\<exists>c'. start_comp_counter m c = Some c' \<and> fst (get_comp_counter m c') =
    Num (of_int (T (tsc_reads c + 1) - T (tsc_reads c)) - of_int (utime m (times_calls c + 1) - utime m (times_calls c)) * cpt)"
  using cycles_true [OF assms(3-5)] assms(1,2)
  by (simp add: start_comp_counter_def get_comp_counter_def times_utime_def Let_def start_get of_i_def dsub_def)

section \<open>The calibration\<close>

text \<open>It only ever lowers the cycles per tick, once set, and never sets them to the threshold or below.\<close>

definition calibrated :: "dbl \<Rightarrow> dbl \<Rightarrow> bool" where
  "calibrated old new \<longleftrightarrow> new = old \<or> dless RECORDTHRESH new \<and> (old = Num 0 \<or> dless new old)"

lemma dless_trans: "dless x y \<Longrightarrow> dless y z \<Longrightarrow> dless x z"
  by (auto simp: dless_def split: dbl.splits)

lemma calibrated_trans: "calibrated x y \<Longrightarrow> calibrated y z \<Longrightarrow> calibrated x z"
  unfolding calibrated_def RECORDTHRESH_def by (auto intro: dless_trans)

lemma record_event_calibrated: "calibrated (cyc_per_tick c) (cyc_per_tick (record_event cpt c))"
  by (auto simp: record_event_def calibrated_def)

lemma get_counter_cpt [simp]: "cyc_per_tick (snd (get_counter m c)) = cyc_per_tick c"
  by (simp add: get_counter_def access_counter_def Let_def)

lemma callibrate_loop_calibrated:
  assumes "callibrate_loop m e oldt oldc c = Some c'"
  shows "calibrated (cyc_per_tick c) (cyc_per_tick c')"
proof (rule callibrate_loop.raw_induct [OF _ assms, where P = "\<lambda>m e oldt oldc c c'. calibrated (cyc_per_tick c) (cyc_per_tick c')"],
    goal_cases)
  case (1 f m e oldt oldc c c')
  obtain newt c1 where g: "get_counter m c = (newt, c1)" by fastforce
  then have c1: "cyc_per_tick c1 = cyc_per_tick c" using get_counter_cpt [of m c] by simp
  show ?case
  proof (cases "e < NEVENT \<and> \<not> dless (dsub newt oldt) THRESHOLD \<and> utime m (times_calls c1) > oldc")
    case True
    let ?c = "record_event (ddiv (dsub newt oldt) (of_i (utime m (times_calls c1) - oldc))) (c1\<lparr>times_calls := times_calls c1 + 1\<rparr>)"
    have "f m (e + 1) newt (utime m (times_calls c1)) ?c = Some c'"
      using 1(2) True g by (simp add: times_utime_def Let_def)
    then have "calibrated (cyc_per_tick ?c) (cyc_per_tick c')" by (rule 1(1))
    moreover have "calibrated (cyc_per_tick c) (cyc_per_tick ?c)"
      using record_event_calibrated [of "c1\<lparr>times_calls := times_calls c1 + 1\<rparr>"] c1 by simp
    ultimately show ?thesis by (rule calibrated_trans [rotated])
  next
    case False
    then show ?thesis
      using 1(2) g c1 by (auto simp: times_utime_def Let_def split: if_splits dest!: 1(1)) (simp_all add: calibrated_def)
  qed
qed

end
