(* ===== verification/Rio.thy ===== *)
theory Rio
  imports CStdio
begin

text \<open>
  The robust I/O package of \<^verbatim>\<open>lab10/csapp.c\<close> and its signal-safe number output.  What the kernel does on a
  descriptor is a list of events: the chunks it delivers or takes, interruptions, and failures.
\<close>

section \<open>Descriptors\<close>

text \<open>\<^verbatim>\<open>read\<close> delivers at most the bytes asked for; after the last event it reports the end of file.\<close>

datatype arrival = Bytes string | Intr | Fail

datatype read_result = Got string | Interrupted | Failed

fun sys_read :: "nat \<Rightarrow> arrival list \<Rightarrow> read_result \<times> arrival list" where
  "sys_read n [] = (Got [], [])"
| "sys_read n (Intr # es) = (Interrupted, es)"
| "sys_read n (Fail # es) = (Failed, es)"
| "sys_read n (Bytes bs # es) = (Got (take n bs), if length bs \<le> n then es else Bytes (drop n bs) # es)"

text \<open>\<^verbatim>\<open>write\<close> of some bytes takes at least one of them unless it fails; after the last event it takes all.\<close>

datatype departure = Takes nat | WIntr | WFail

record sink =
  sk_events :: "departure list"
  sk_out :: string

datatype write_result = Put nat | WInterrupted | WFailed

fun sys_write :: "string \<Rightarrow> sink \<Rightarrow> write_result \<times> sink" where
  "sys_write bs k = (case sk_events k of
     [] \<Rightarrow> (Put (length bs), k\<lparr>sk_out := sk_out k @ bs\<rparr>)
   | WIntr # es \<Rightarrow> (WInterrupted, k\<lparr>sk_events := es\<rparr>)
   | WFail # es \<Rightarrow> (WFailed, k\<lparr>sk_events := es\<rparr>)
   | Takes m # es \<Rightarrow> (Put (min (Suc m) (length bs)), k\<lparr>sk_events := es, sk_out := sk_out k @ take (Suc m) bs\<rparr>))"

section \<open>Unbuffered input and output\<close>

text \<open>What is left to arrive, and what is left to send, shrink with every turn of a loop.\<close>

fun arrivals_size :: "arrival list \<Rightarrow> nat" where
  "arrivals_size [] = 0"
| "arrivals_size (Bytes bs # es) = Suc (length bs) + arrivals_size es"
| "arrivals_size (e # es) = Suc (arrivals_size es)"

lemma sys_read_shrinks:
  "(r, src') = sys_read n src \<Longrightarrow> 0 < n \<Longrightarrow> r \<noteq> Got [] \<Longrightarrow> arrivals_size src' < arrivals_size src"
  by (cases "(n, src)" rule: sys_read.cases) (auto split: if_splits)

lemma sys_write_interrupted: "(WInterrupted, k') = sys_write bs k \<Longrightarrow> length (sk_events k') < length (sk_events k)"
  by (auto split: list.splits departure.splits)

lemma sys_write_put: "(Put m, k') = sys_write bs k \<Longrightarrow> bs \<noteq> [] \<Longrightarrow>
   length (sk_events k') + (length bs - m) < length (sk_events k) + length bs"
  by (auto split: list.splits departure.splits)

declare sys_write.simps [simp del]

text \<open>The result of a reading function: what it returns, and what it stored.\<close>

function rio_readn_loop :: "nat \<Rightarrow> string \<Rightarrow> arrival list \<Rightarrow> (int \<times> string) \<times> arrival list" where
  "rio_readn_loop nleft acc src =
     (if nleft > 0 then
        (case sys_read nleft src of
           (Failed, src) \<Rightarrow> ((- 1, acc), src)
         | (Interrupted, src) \<Rightarrow> rio_readn_loop nleft acc src
         | (Got bs, src) \<Rightarrow>
             if bs = [] then ((int (length acc), acc), src)
             else rio_readn_loop (nleft - length bs) (acc @ bs) src)
      else ((int (length acc), acc), src))"
  by pat_completeness auto

termination
  by (relation "measure (\<lambda>(n, acc, src). arrivals_size src)") (auto dest: sys_read_shrinks)

declare rio_readn_loop.simps [simp del]

definition rio_readn :: "nat \<Rightarrow> arrival list \<Rightarrow> (int \<times> string) \<times> arrival list" where
  "rio_readn n src = rio_readn_loop n [] src"

function rio_writen_loop :: "string \<Rightarrow> sink \<Rightarrow> bool \<times> sink" where
  "rio_writen_loop bs k =
     (if length bs > 0 then
        (case sys_write bs k of
           (WInterrupted, k) \<Rightarrow> rio_writen_loop bs k
         | (WFailed, k) \<Rightarrow> (False, k)
         | (Put m, k) \<Rightarrow> rio_writen_loop (drop m bs) k)
      else (True, k))"
  by pat_completeness auto

termination
  by (relation "measure (\<lambda>(bs, k). length (sk_events k) + length bs)")
    (auto dest!: sys_write_interrupted sys_write_put)

declare rio_writen_loop.simps [simp del]

definition rio_writen :: "string \<Rightarrow> sink \<Rightarrow> int \<times> sink" where
  "rio_writen bs k = (case rio_writen_loop bs k of (ok, k) \<Rightarrow> (if ok then int (length bs) else - 1, k))"

section \<open>Buffered input\<close>

definition RIO_BUFSIZE :: nat where "RIO_BUFSIZE = 8192"

text \<open>\<^verbatim>\<open>rio_bufptr\<close> is an index into \<^verbatim>\<open>rio_buf\<close>; the descriptor is the source it reads from.\<close>

record rio_t =
  rio_fd :: "arrival list"
  rio_cnt :: int
  rio_bufptr :: nat
  rio_buf :: string

definition rio_readinitb :: "arrival list \<Rightarrow> string \<Rightarrow> rio_t" where
  "rio_readinitb src junk = \<lparr>rio_fd = src, rio_cnt = 0, rio_bufptr = 0, rio_buf = junk\<rparr>"

text \<open>The refill loop of \<^verbatim>\<open>rio_read\<close>: 1 when there are unread bytes, 0 at the end of file, -1 on failure.\<close>

function rio_refill :: "rio_t \<Rightarrow> int \<times> rio_t" where
  "rio_refill rp =
     (if rio_cnt rp \<le> 0 then
        (case sys_read RIO_BUFSIZE (rio_fd rp) of
           (Interrupted, src) \<Rightarrow> rio_refill (rp\<lparr>rio_fd := src, rio_cnt := - 1\<rparr>)
         | (Failed, src) \<Rightarrow> (- 1, rp\<lparr>rio_fd := src, rio_cnt := - 1\<rparr>)
         | (Got bs, src) \<Rightarrow>
             if bs = [] then (0, rp\<lparr>rio_fd := src, rio_cnt := 0\<rparr>)
             else (1, rp\<lparr>rio_fd := src, rio_cnt := int (length bs), rio_bufptr := 0, rio_buf := splice_at 0 bs (rio_buf rp)\<rparr>))
      else (1, rp))"
  by pat_completeness auto

termination
  by (relation "measure (\<lambda>rp. arrivals_size (rio_fd rp))") (auto simp: RIO_BUFSIZE_def dest: sys_read_shrinks)

declare rio_refill.simps [simp del]

definition rio_read :: "rio_t \<Rightarrow> nat \<Rightarrow> (int \<times> string) \<times> rio_t" where
  "rio_read rp n = (case rio_refill rp of (rc, rp) \<Rightarrow>
     if rc \<noteq> 1 then ((rc, []), rp)
     else let cnt = (if rio_cnt rp < int n then nat (rio_cnt rp) else n)
          in ((int cnt, take cnt (drop (rio_bufptr rp) (rio_buf rp))),
              rp\<lparr>rio_cnt := rio_cnt rp - int cnt, rio_bufptr := rio_bufptr rp + cnt\<rparr>))"

function rio_readnb_loop :: "rio_t \<Rightarrow> nat \<Rightarrow> string \<Rightarrow> (int \<times> string) \<times> rio_t" where
  "rio_readnb_loop rp nleft acc =
     (if nleft > 0 then
        (case rio_read rp nleft of ((nread, bs), rp) \<Rightarrow>
           if nread < 0 then ((- 1, acc), rp)
           else if nread = 0 then ((int (length acc), acc), rp)
           else rio_readnb_loop rp (nleft - nat nread) (acc @ bs))
      else ((int (length acc), acc), rp))"
  by pat_completeness auto

termination by (relation "measure (\<lambda>(rp, n, acc). n)") auto

declare rio_readnb_loop.simps [simp del]

definition rio_readnb :: "rio_t \<Rightarrow> nat \<Rightarrow> (int \<times> string) \<times> rio_t" where
  "rio_readnb rp n = rio_readnb_loop rp n []"

text \<open>The loop from \<^verbatim>\<open>n\<close> up to \<^verbatim>\<open>maxlen\<close>, of which \<open>left\<close> turns remain; what is stored includes the final
  zero, when it is stored.\<close>

fun rio_line_loop :: "nat \<Rightarrow> string \<Rightarrow> rio_t \<Rightarrow> (int \<times> string) \<times> rio_t" where
  "rio_line_loop 0 acc rp = ((int (length acc), acc @ [CHR 0x00]), rp)"
| "rio_line_loop (Suc left) acc rp =
     (case rio_read rp 1 of ((rc, bs), rp) \<Rightarrow>
        if rc = 1 then
          (let acc = acc @ bs
           in if bs = [NL] then ((int (length acc), acc @ [CHR 0x00]), rp) else rio_line_loop left acc rp)
        else if rc = 0 then
          (if acc = [] then ((0, []), rp) else ((int (length acc), acc @ [CHR 0x00]), rp))
        else ((- 1, acc), rp))"

definition rio_readlineb :: "rio_t \<Rightarrow> nat \<Rightarrow> (int \<times> string) \<times> rio_t" where
  "rio_readlineb rp maxlen = rio_line_loop (maxlen - 1) [] rp"

text \<open>What a reader has buffered and what is still to arrive shrink with every line that is read.\<close>

definition rio_size :: "rio_t \<Rightarrow> nat" where
  "rio_size rp = nat (rio_cnt rp) + arrivals_size (rio_fd rp)"

lemma sys_read_got:
  "sys_read n src = (Got bs, src') \<Longrightarrow> bs \<noteq> [] \<Longrightarrow> length bs + arrivals_size src' \<le> arrivals_size src"
  by (cases "(n, src)" rule: sys_read.cases) (auto split: if_splits)

lemma sys_read_size: "sys_read n src = (r, src') \<Longrightarrow> arrivals_size src' \<le> arrivals_size src"
  by (cases "(n, src)" rule: sys_read.cases) (auto split: if_splits)

lemma rio_refill_size: "rio_refill rp = (rc, rp') \<Longrightarrow> rio_size rp' \<le> rio_size rp \<and> rc \<le> 1 \<and> (rc = 1 \<longrightarrow> 0 < rio_cnt rp')"
proof (induction rp arbitrary: rc rp' rule: rio_refill.induct)
  case (1 rp)
  obtain r src where e: "sys_read RIO_BUFSIZE (rio_fd rp) = (r, src)" by fastforce
  note run = 1(2) [unfolded rio_refill.simps [of rp] e] and size = sys_read_size [OF e]
  show ?case
  proof (cases "rio_cnt rp \<le> 0")
    case True
    then show ?thesis using run size 1(1) [OF True e [symmetric]] sys_read_got [of RIO_BUFSIZE "rio_fd rp" _ src] e
      by (cases r) (fastforce simp: rio_size_def split: if_splits)+
  next
    case False
    then show ?thesis using run by simp
  qed
qed

lemma rio_read_size: "rio_read rp n = ((k, bs), rp') \<Longrightarrow> rio_size rp' \<le> rio_size rp \<and> (0 < k \<longrightarrow> rio_size rp' < rio_size rp)"
  using rio_refill_size [of rp]
  by (auto simp: rio_read_def rio_size_def Let_def split: prod.splits if_splits)

lemma rio_line_loop_size:
  "rio_line_loop left acc rp = ((k, st), rp') \<Longrightarrow>
   rio_size rp' \<le> rio_size rp \<and> (int (length acc) < k \<longrightarrow> rio_size rp' < rio_size rp)"
proof (induction left acc rp arbitrary: k st rp' rule: rio_line_loop.induct)
  case (2 left acc rp)
  obtain rc bs q where r: "rio_read rp 1 = ((rc, bs), q)" by (metis prod.exhaust)
  then show ?case using 2 rio_read_size [OF r] by (fastforce simp: Let_def split: if_splits)
qed auto

lemma rio_readlineb_shrinks: "((k, st), rp') = rio_readlineb rp n \<Longrightarrow> 0 < k \<Longrightarrow> rio_size rp' < rio_size rp"
  using rio_line_loop_size [of "n - 1" "[]" rp k st rp'] by (simp add: rio_readlineb_def)

section \<open>Signal-safe output of numbers\<close>

text \<open>The swapping loop of \<^verbatim>\<open>sio_reverse\<close>.\<close>

function rev_loop :: "nat \<Rightarrow> nat \<Rightarrow> string \<Rightarrow> string" where
  "rev_loop i j s = (if i < j then rev_loop (i + 1) (j - 1) (s[i := s ! j, j := s ! i]) else s)"
  by pat_completeness auto

termination by (relation "measure (\<lambda>(i, j, s). j - i)") auto

declare rev_loop.simps [simp del]

definition sio_reverse :: "string \<Rightarrow> string" where
  "sio_reverse s = (if s = [] then s else rev_loop 0 (length s - 1) s)"

text \<open>The digits, lowest first.\<close>

function ltoa_loop :: "int \<Rightarrow> int \<Rightarrow> string \<Rightarrow> string" where
  "ltoa_loop v b s =
     (let c = v mod \<bar>b\<bar>;
          s = s @ [char_of (if c < 10 then c + 48 else c - 10 + 97)]
      in if 2 \<le> b \<and> v div b > 0 then ltoa_loop (v div b) b s else s)"
  by pat_completeness auto

termination
proof (relation "measure (\<lambda>(v, b, s). nat v)")
  fix v b c :: int and s t :: string
  assume "2 \<le> b \<and> v div b > 0"
  moreover from this have "0 < v" using pos_imp_zdiv_pos_iff [of b v] by linarith
  ultimately show "((v div b, b, t), (v, b, s)) \<in> measure (\<lambda>(v, b, s). nat v)"
    by (simp add: int_div_less_self)
qed simp

declare ltoa_loop.simps [simp del]

text \<open>Negating the smallest \<^verbatim>\<open>long\<close> overflows; base 0 divides by zero and base 1 never ends.\<close>

definition sio_ltoa :: "int \<Rightarrow> int \<Rightarrow> string ub" where
  "sio_ltoa v b =
     (if v = - (2 ^ 63) \<or> b = 0 \<or> b = 1 \<and> v \<noteq> 0 then None
      else let s = ltoa_loop \<bar>v\<bar> b [] in Some (sio_reverse (if v < 0 then s @ ''-'' else s)))"

fun sio_strlen :: "string \<Rightarrow> nat ub" where
  "sio_strlen [] = None"
| "sio_strlen (c # s) = (if c \<noteq> CHR 0x00 then do { n \<leftarrow> sio_strlen s; Some (Suc n) } else Some 0)"

definition sio_puts :: "string \<Rightarrow> sink \<Rightarrow> (write_result \<times> sink) ub" where
  "sio_puts s k = do { n \<leftarrow> sio_strlen s; Some (sys_write (take n s) k) }"

definition sio_putl :: "int \<Rightarrow> sink \<Rightarrow> (write_result \<times> sink) ub" where
  "sio_putl v k = do { s \<leftarrow> sio_ltoa v 10; sio_puts (s @ [CHR 0x00]) k }"

end
