(* ===== verification/Proxy.thy ===== *)
theory Proxy
  imports Rio
begin

text \<open>
  The web proxy of \<^verbatim>\<open>lab10/proxy.c\<close>.  The name service and the network are the function from host and port to the
  attempts \<open>open_clientfd\<close> makes; a connection is what arrives on it and a sink.  The fixed buffers keep their old
  contents, so that what the code reads behind a short line or sends twice is in the model.
\<close>

section \<open>Library functions\<close>

definition MAXLINE_csapp :: nat where "MAXLINE_csapp = 8192"

definition tolower :: "char \<Rightarrow> char" where
  "tolower c = (if char_between CHR ''A'' CHR ''Z'' c then char_of (of_char c + (32 :: nat)) else c)"

text \<open>\<^verbatim>\<open>!strncasecmp(s, t, n)\<close> for a \<open>t\<close> of at least \<open>n\<close> characters.\<close>

definition strncaseeq :: "string \<Rightarrow> string \<Rightarrow> nat \<Rightarrow> bool" where
  "strncaseeq s t n \<longleftrightarrow> map tolower (take n s) = map tolower (take n t)"

text \<open>The string at an index of a buffer.\<close>

definition str_at :: "string \<Rightarrow> nat \<Rightarrow> string ub" where
  "str_at buf i = (if CHR 0x00 \<in> set (drop i buf) then Some (c_str (drop i buf)) else None)"

definition int_add :: "int \<Rightarrow> int \<Rightarrow> int ub" where
  "int_add x y = (if int_ok (x + y) then Some (x + y) else None)"

text \<open>\<^verbatim>\<open>sprintf\<close> into a buffer of \<^verbatim>\<open>MAXLINE\<close> bytes.\<close>

definition sprintf :: "string \<Rightarrow> string ub" where
  "sprintf s = (if length s < MAXLINE_csapp then Some s else None)"

text \<open>A conversion \<^verbatim>\<open>%s\<close> of \<^verbatim>\<open>sscanf\<close>: the word, empty when there is none, and the rest.\<close>

definition scan_word :: "string \<Rightarrow> string \<times> string" where
  "scan_word s = (let t = dropWhile isspace s in (takeWhile (\<lambda>c. \<not> isspace c) t, dropWhile (\<lambda>c. \<not> isspace c) t))"

definition scan_words3 :: "string \<Rightarrow> (string \<times> string \<times> string) option" where
  "scan_words3 s =
     (let (x, s) = scan_word s; (y, s) = scan_word s; (z, s) = scan_word s
      in if z = [] then None else Some (x, y, z))"

section \<open>Requests\<close>

definition parse_uri :: "string \<Rightarrow> (string \<times> string \<times> string) option" where
  "parse_uri uri =
     (if \<not> strncaseeq uri ''http://'' 7 then None
      else let hostbegin = drop 7 uri;
               hostname = takeWhile (\<lambda>c. c \<notin> set '' :/'' \<union> {CR, NL}) hostbegin;
               hostend = drop (length hostname) hostbegin
           in if hostend = [] then None
              else let port = (if hd hostend = CHR '':'' then takeWhile dec_char (tl hostend) else ''80'');
                       pathbegin = dropWhile (\<lambda>c. c \<noteq> CHR ''/'') hostbegin;
                       pathname = (if pathbegin = [] then [] else tl pathbegin)
                   in Some (hostname, pathname, port))"

text \<open>The decimal bytes of an address in network byte order, held in a little-endian word.\<close>

definition ntohl :: "i32 \<Rightarrow> i32" where
  "ntohl x = push_bit 24 (x AND 0xFF) OR push_bit 8 (x AND 0xFF00) OR drop_bit 8 x AND 0xFF00 OR drop_bit 24 x"

definition format_log_entry :: "string \<Rightarrow> i32 \<Rightarrow> string \<Rightarrow> i64 \<Rightarrow> string ub" where
  "format_log_entry time_str s_addr uri n =
     (let host = ntohl s_addr;
          a = drop_bit 24 host; b = drop_bit 16 host AND 0xFF; c = drop_bit 8 host AND 0xFF; d = host AND 0xFF
      in sprintf (time_str @ '': '' @ show_nat (unat a) @ ''.'' @ show_nat (unat b) @ ''.'' @ show_nat (unat c) @ ''.'' @
           show_nat (unat d) @ '' '' @ uri @ '' '' @ show_nat (unat n)))"

section \<open>Connections\<close>

text \<open>An address is tried with \<^verbatim>\<open>socket\<close> and \<^verbatim>\<open>connect\<close> (or \<^verbatim>\<open>bind\<close>); of a refused one \<^verbatim>\<open>close\<close> may fail.\<close>

datatype 'c attempt = No_socket | Refused bool | Connected 'c

fun try_addresses :: "'c attempt list \<Rightarrow> int + 'c" where
  "try_addresses [] = Inl (- 1)"
| "try_addresses (No_socket # as) = try_addresses as"
| "try_addresses (Refused closed # as) = (if closed then try_addresses as else Inl (- 1))"
| "try_addresses (Connected c # as) = Inr c"

definition open_clientfd :: "'c attempt list option \<Rightarrow> int + 'c" where
  "open_clientfd addresses = (case addresses of None \<Rightarrow> Inl (- 2) | Some as \<Rightarrow> try_addresses as)"

definition open_listenfd :: "'c attempt list option \<Rightarrow> bool \<Rightarrow> int + 'c" where
  "open_listenfd addresses listens =
     (case addresses of
        None \<Rightarrow> Inl (- 2)
      | Some as \<Rightarrow> (case try_addresses as of Inl e \<Rightarrow> Inl e | Inr c \<Rightarrow> if listens then Inr c else Inl (- 1)))"

record connection =
  conn_fd :: int
  conn_in :: "arrival list"
  conn_out :: sink

section \<open>The relay\<close>

text \<open>The header of the request is collected, that of the response forwarded line by line.\<close>

definition content_length :: "string \<Rightarrow> int \<Rightarrow> int ub" where
  "content_length buf old =
     (if strncaseeq (c_str buf) ''Content-Length'' 14 then do { s \<leftarrow> str_at buf 15; atoi s } else Some old)"

function request_headers :: "rio_t \<Rightarrow> string \<Rightarrow> string \<Rightarrow> int \<Rightarrow> (rio_t \<times> string \<times> string \<times> int) ub" where
  "request_headers rp buf request bodysize =
     (case rio_readlineb rp MAXLINE_csapp of ((n, st), rp) \<Rightarrow>
        let buf = splice_at 0 st buf
        in if n > 0 then do {
             bodysize \<leftarrow> content_length buf bodysize;
             request \<leftarrow> sprintf (request @ c_str buf);
             (if c_str buf = [CR, NL] then Some (rp, buf, request, bodysize) else request_headers rp buf request bodysize)
           }
           else Some (rp, buf, request, bodysize))"
  by pat_completeness auto

termination
  by (relation "measure (\<lambda>(rp, _). rio_size rp)") (auto dest: rio_readlineb_shrinks)

declare request_headers.simps [simp del]

text \<open>Byte by byte; at the end of the input only the last turn looks at the result of the read, and every other
  one sends what the buffer holds.\<close>

fun request_body :: "nat \<Rightarrow> rio_t \<Rightarrow> string \<Rightarrow> sink \<Rightarrow> bool \<times> sink" where
  "request_body 0 rp buf k = (True, k)"
| "request_body (Suc left) rp buf k =
     (case rio_readnb rp 1 of ((n, st), rp) \<Rightarrow>
        let buf = splice_at 0 st buf
        in if n < 1 \<and> left = 0 then (False, k)
           else (case rio_writen (take 1 buf) k of (w, k) \<Rightarrow>
             if w \<noteq> 1 then (False, k) else request_body left rp buf k))"

function response_headers ::
  "rio_t \<Rightarrow> string \<Rightarrow> sink \<Rightarrow> int \<Rightarrow> int \<Rightarrow> (bool \<times> rio_t \<times> string \<times> sink \<times> int \<times> int) ub" where
  "response_headers rp buf k bodysize headsize =
     (case rio_readlineb rp MAXLINE_csapp of ((n, st), rp) \<Rightarrow>
        let buf = splice_at 0 st buf
        in if n > 0 then do {
             bodysize \<leftarrow> content_length buf bodysize;
             headsize \<leftarrow> int_add headsize n;
             (case rio_writen (c_str buf) k of (w, k) \<Rightarrow>
                if w \<noteq> int (length (c_str buf)) then Some (False, rp, buf, k, bodysize, headsize)
                else if c_str buf = [CR, NL] then Some (True, rp, buf, k, bodysize, headsize)
                else response_headers rp buf k bodysize headsize)
           }
           else Some (False, rp, buf, k, bodysize, headsize))"
  by pat_completeness auto

termination
  by (relation "measure (\<lambda>(rp, _). rio_size rp)") (auto dest: rio_readlineb_shrinks)

declare response_headers.simps [simp del]

text \<open>Here every turn but the last gives up at the end of the input.\<close>

fun response_body :: "nat \<Rightarrow> rio_t \<Rightarrow> string \<Rightarrow> sink \<Rightarrow> bool \<times> sink" where
  "response_body 0 rp buf k = (True, k)"
| "response_body (Suc left) rp buf k =
     (case rio_readnb rp 1 of ((n, st), rp) \<Rightarrow>
        let buf = splice_at 0 st buf
        in if n \<le> 0 \<and> left \<noteq> 0 then (False, k)
           else (case rio_writen (take 1 buf) k of (w, k) \<Rightarrow>
             if w \<noteq> 1 then (False, k) else response_body left rp buf k))"

text \<open>The uninitialised arrays of a call, and what a call does.\<close>

record frame =
  fr_client_buf :: string
  fr_server_buf :: string
  fr_client_rio :: string
  fr_server_rio :: string

record exchange =
  to_client :: sink
  to_server :: "sink option"
  server_closed :: bool
  logged :: "string option"

text \<open>\<^verbatim>\<open>doit\<close> from the moment it has a connection to the server.\<close>

definition relay ::
  "string \<Rightarrow> i32 \<Rightarrow> frame \<Rightarrow> string \<Rightarrow> string \<Rightarrow> int \<Rightarrow> rio_t \<Rightarrow> string \<Rightarrow> sink \<Rightarrow> connection \<Rightarrow> exchange ub" where
  "relay time_str s_addr fr uri request req_bodysize clientio client_buf cout conn =
     (let serverio = rio_readinitb (conn_in conn) (fr_server_rio fr);
          closed = (\<lambda>cout sout log. Some \<lparr>to_client = cout, to_server = Some sout, server_closed = True, logged = log\<rparr>);
          (w, sout) = rio_writen request (conn_out conn)
      in if w \<noteq> int (length request) then closed cout sout None
         else
           let (ok, sout) = (if req_bodysize \<noteq> 0 then request_body (nat req_bodysize) clientio client_buf sout else (True, sout))
           in if \<not> ok then closed cout sout None
              else do {
                (ok, serverio, server_buf, cout, res_bodysize, res_headsize) \<leftarrow>
                  response_headers serverio (fr_server_buf fr) cout 0 0;
                (if \<not> ok then closed cout sout None
                 else
                   let (ok, cout) = response_body (nat res_bodysize) serverio server_buf cout
                   in if \<not> ok then closed cout sout None
                      else do {
                        total \<leftarrow> int_add res_bodysize res_headsize;
                        entry \<leftarrow> format_log_entry time_str s_addr uri (word_of_int total);
                        closed cout sout (Some entry)
                      })
              })"

definition doit ::
  "(string \<Rightarrow> string \<Rightarrow> connection attempt list option) \<Rightarrow> string \<Rightarrow> i32 \<Rightarrow> frame \<Rightarrow> arrival list \<Rightarrow> sink \<Rightarrow> exchange ub" where
  "doit net time_str s_addr fr cin cout =
     (let quit = \<lparr>to_client = cout, to_server = None, server_closed = False, logged = None\<rparr>;
          ((n, st), clientio) = rio_readlineb (rio_readinitb cin (fr_client_rio fr)) MAXLINE_csapp;
          client_buf = splice_at 0 st (fr_client_buf fr)
      in if n \<le> 0 then Some quit
         else (case scan_words3 (c_str client_buf) of
           None \<Rightarrow> Some quit
         | Some (method, uri, version) \<Rightarrow>
             (case parse_uri uri of
                None \<Rightarrow> Some quit
              | Some (hostname, pathname, port) \<Rightarrow> do {
                  request \<leftarrow> sprintf (method @ '' /'' @ pathname @ '' '' @ version @ [CR, NL]);
                  (clientio, client_buf, request, req_bodysize) \<leftarrow> request_headers clientio client_buf request 0;
                  (case open_clientfd (net hostname port) of
                     Inl _ \<Rightarrow> Some quit
                   | Inr conn \<Rightarrow>
                       if conn_fd conn \<le> 0 then Some (quit\<lparr>to_server := Some (conn_out conn)\<rparr>)
                       else relay time_str s_addr fr uri request req_bodysize clientio client_buf cout conn)
                })))"

end
