(* ===== verification/Rio_Props.thy ===== *)
theory Rio_Props
  imports Rio
begin

text \<open>
  What the robust I/O package promises: whatever the chunks and interruptions by which bytes arrive, its readers
  see one stream of bytes, and its writers put out all they are given.
\<close>

section \<open>The stream behind a buffered reader\<close>

fun arrivals_bytes :: "arrival list \<Rightarrow> string" where
  "arrivals_bytes [] = []"
| "arrivals_bytes (Bytes bs # es) = bs @ arrivals_bytes es"
| "arrivals_bytes (e # es) = arrivals_bytes es"

text \<open>No failure, and no chunk that would look like the end of file.\<close>

definition arrivals_ok :: "arrival list \<Rightarrow> bool" where
  "arrivals_ok src \<longleftrightarrow> Fail \<notin> set src \<and> Bytes [] \<notin> set src"

definition rio_ok :: "rio_t \<Rightarrow> bool" where
  "rio_ok rp \<longleftrightarrow> arrivals_ok (rio_fd rp) \<and> length (rio_buf rp) = RIO_BUFSIZE \<and>
     rio_bufptr rp + nat (rio_cnt rp) \<le> RIO_BUFSIZE"

definition rio_pending :: "rio_t \<Rightarrow> string" where
  "rio_pending rp = take (nat (rio_cnt rp)) (drop (rio_bufptr rp) (rio_buf rp)) @ arrivals_bytes (rio_fd rp)"

lemma sys_read_ok:
  assumes "arrivals_ok src" and "0 < n" and "sys_read n src = (r, src')"
  shows "arrivals_ok src'"
    and "r = Interrupted \<and> arrivals_bytes src' = arrivals_bytes src \<or>
      (\<exists>bs. r = Got bs \<and> length bs \<le> n \<and> arrivals_bytes src = bs @ arrivals_bytes src' \<and> (bs = [] \<longleftrightarrow> src = []))"
  using assms by (cases "(n, src)" rule: sys_read.cases; auto simp: arrivals_ok_def split: if_splits)+

lemma rio_refill_ok:
  assumes "rio_ok rp"
  obtains rp' where "rio_ok rp'" and "rio_pending rp' = rio_pending rp" and
    "rio_refill rp = (if rio_pending rp = [] then 0 else 1, rp')" and "rio_pending rp \<noteq> [] \<Longrightarrow> 0 < rio_cnt rp'"
  using assms
proof (induction rp arbitrary: thesis rule: rio_refill.induct)
  case (1 rp)
  show ?case
  proof (cases "rio_cnt rp \<le> 0")
    case True
    obtain r src where e: "sys_read RIO_BUFSIZE (rio_fd rp) = (r, src)" by fastforce
    have "0 < RIO_BUFSIZE" by (simp add: RIO_BUFSIZE_def)
    moreover have "arrivals_ok (rio_fd rp)" using 1 by (simp add: rio_ok_def)
    ultimately consider
      (intr) "r = Interrupted" "arrivals_bytes src = arrivals_bytes (rio_fd rp)" "arrivals_ok src"
      | (got) bs where "r = Got bs" "length bs \<le> RIO_BUFSIZE" "arrivals_bytes (rio_fd rp) = bs @ arrivals_bytes src"
          "bs = [] \<longleftrightarrow> rio_fd rp = []" "arrivals_ok src"
      using sys_read_ok [of "rio_fd rp" RIO_BUFSIZE r src] e by blast
    then show ?thesis
    proof cases
      case intr
      let ?rp = "rp\<lparr>rio_fd := src, rio_cnt := - 1\<rparr>"
      have "rio_ok ?rp" "rio_pending ?rp = rio_pending rp" "rio_refill rp = rio_refill ?rp"
        using 1(3) True intr e by (auto simp: rio_ok_def rio_pending_def rio_refill.simps [of rp])
      then show ?thesis using 1(1) [OF True e [symmetric]] intr 1(2) by metis
    next
      case got
      then show ?thesis using 1(3) True e
        by (intro 1(2) [of "snd (rio_refill rp)"])
          (auto simp: rio_ok_def rio_pending_def rio_refill.simps [of rp] arrivals_ok_def splice_at_def)
    qed
  next
    case False
    then have "0 < nat (rio_cnt rp)" by simp
    then have "rio_bufptr rp < RIO_BUFSIZE" using 1(3) unfolding rio_ok_def by linarith
    then show ?thesis using 1(2) [of rp] 1(3) False
      by (auto simp: rio_refill.simps [of rp] rio_pending_def rio_ok_def)
  qed
qed

lemma rio_read_ok:
  assumes "rio_ok rp" and "0 < n"
  obtains k rp' where "rio_read rp n = ((int k, take k (rio_pending rp)), rp')" and "rio_ok rp'" and
    "rio_pending rp' = drop k (rio_pending rp)" and "k \<le> n" and "k \<le> length (rio_pending rp)" and
    "k = 0 \<longleftrightarrow> rio_pending rp = []"
proof -
  obtain q where q: "rio_ok q" "rio_pending q = rio_pending rp"
    "rio_refill rp = (if rio_pending rp = [] then 0 else 1, q)" "rio_pending rp \<noteq> [] \<Longrightarrow> 0 < rio_cnt q"
    using rio_refill_ok [OF assms(1)] by metis
  show thesis
  proof (cases "rio_pending rp = []")
    case True
    then show thesis using q by (intro that [of 0 q]) (auto simp: rio_read_def)
  next
    case False
    define c where "c = nat (rio_cnt q)"
    define k where "k = min c n"
    have c: "rio_cnt q = int c" "0 < c" using q(4) False by (auto simp: c_def)
    have buf: "rio_bufptr q + c \<le> length (rio_buf q)" using q(1) c by (simp add: rio_ok_def)
    let ?q = "q\<lparr>rio_cnt := rio_cnt q - int k, rio_bufptr := rio_bufptr q + k\<rparr>"
    have pend: "rio_pending rp = take c (drop (rio_bufptr q) (rio_buf q)) @ arrivals_bytes (rio_fd q)"
      using q(2) c by (simp add: rio_pending_def)
    have "rio_read rp n = ((int k, take k (drop (rio_bufptr q) (rio_buf q))), ?q)"
      using q(3) False c by (auto simp: rio_read_def k_def min_def Let_def)
    moreover have "take k (drop (rio_bufptr q) (rio_buf q)) = take k (rio_pending rp)"
      using buf by (simp add: pend k_def min.commute)
    moreover have "rio_pending ?q = drop k (rio_pending rp)"
      unfolding pend using buf c by (simp add: rio_pending_def k_def drop_take nat_diff_distrib add.commute)
    moreover have "rio_ok ?q" using q(1) c by (auto simp: rio_ok_def k_def min_def)
    ultimately show thesis using that [of k ?q] False assms(2) c buf pend by (auto simp: k_def)
  qed
qed

section \<open>The buffered readers\<close>

lemma rio_readnb_loop_ok:
  assumes "rio_ok rp"
  shows "\<exists>rp'. rio_readnb_loop rp n acc = ((int (length (acc @ take n (rio_pending rp))), acc @ take n (rio_pending rp)), rp') \<and>
    rio_ok rp' \<and> rio_pending rp' = drop n (rio_pending rp)"
  using assms
proof (induction n arbitrary: rp acc rule: less_induct)
  case (less n)
  show ?case
  proof (cases "n = 0")
    case True
    then show ?thesis using less.prems by (auto simp: rio_readnb_loop.simps)
  next
    case False
    then obtain k rp' where k: "rio_read rp n = ((int k, take k (rio_pending rp)), rp')" "rio_ok rp'"
      "rio_pending rp' = drop k (rio_pending rp)" "k \<le> n" "k \<le> length (rio_pending rp)" "k = 0 \<longleftrightarrow> rio_pending rp = []"
      using rio_read_ok [OF less.prems, of n] by blast
    show ?thesis
    proof (cases "k = 0")
      case True
      then show ?thesis using k False by (auto simp: rio_readnb_loop.simps [of rp])
    next
      case kpos: False
      have "take n (rio_pending rp) = take k (rio_pending rp) @ take (n - k) (rio_pending rp')"
        using k(3,4) take_add [of k "n - k" "rio_pending rp"] by simp
      then show ?thesis using less.IH [of "n - k" rp' "acc @ take k (rio_pending rp)"] k False kpos
        by (simp add: rio_readnb_loop.simps [of rp])
    qed
  qed
qed

lemma rio_readnb_ok:
  assumes "rio_ok rp"
  obtains rp' where "rio_readnb rp n = ((int (length (take n (rio_pending rp))), take n (rio_pending rp)), rp')" and
    "rio_ok rp'" and "rio_pending rp' = drop n (rio_pending rp)"
  using rio_readnb_loop_ok [OF assms, of n "[]"] by (auto simp: rio_readnb_def)

text \<open>What a turn reads, the loop for lines reads as \<^verbatim>\<open>fgets\<close> does.\<close>

lemma rio_line_loop_ok:
  assumes "rio_ok rp" and "fgets_line left (rio_pending rp) = (l, rest)"
  shows "\<exists>rp'. rio_line_loop left acc rp =
      ((int (length (acc @ l)), if acc @ l = [] \<and> 0 < left then [] else acc @ l @ [CHR 0x00]), rp') \<and>
    rio_ok rp' \<and> rio_pending rp' = rest"
  using assms
proof (induction left arbitrary: rp acc l)
  case 0
  then show ?case by auto
next
  case (Suc left)
  obtain k rp' where k: "rio_read rp 1 = ((int k, take k (rio_pending rp)), rp')" "rio_ok rp'"
    "rio_pending rp' = drop k (rio_pending rp)" "k \<le> 1" "k \<le> length (rio_pending rp)" "k = 0 \<longleftrightarrow> rio_pending rp = []"
    using rio_read_ok [OF Suc.prems(1), of 1] by auto
  show ?case
  proof (cases "rio_pending rp")
    case Nil
    then show ?thesis using k Suc.prems(2) by auto
  next
    case (Cons c cs)
    then have k1: "k = 1" using k by (simp add: le_Suc_eq)
    show ?thesis
    proof (cases "c = NL")
      case True
      then show ?thesis using k k1 Suc.prems(2) Cons by auto
    next
      case False
      obtain m r where m: "fgets_line left cs = (m, r)" by fastforce
      have "rio_pending rp' = cs" using k(3) k1 Cons by simp
      moreover have "l = c # m" "rest = r" using Suc.prems(2) m False Cons by simp_all
      ultimately show ?thesis using Suc.IH [OF k(2), of m "acc @ [c]"] m False k k1 Cons by auto
    qed
  qed
qed

lemma rio_readlineb_ok:
  assumes "rio_ok rp" and "fgets_line (n - 1) (rio_pending rp) = (l, rest)"
  obtains rp' where "rio_readlineb rp n = ((int (length l), if l = [] \<and> 1 < n then [] else l @ [CHR 0x00]), rp')" and
    "rio_ok rp'" and "rio_pending rp' = rest"
  using rio_line_loop_ok [OF assms, of "[]"] by (auto simp: rio_readlineb_def)

lemma rio_readinitb_ok:
  assumes "arrivals_ok src" and "length junk = RIO_BUFSIZE"
  shows "rio_ok (rio_readinitb src junk)" and "rio_pending (rio_readinitb src junk) = arrivals_bytes src"
  using assms by (auto simp: rio_ok_def rio_readinitb_def rio_pending_def)

section \<open>The unbuffered functions\<close>

lemma rio_readn_loop_ok:
  assumes "arrivals_ok src"
  shows "\<exists>src'. rio_readn_loop n acc src =
      ((int (length (acc @ take n (arrivals_bytes src))), acc @ take n (arrivals_bytes src)), src') \<and>
    arrivals_ok src' \<and> arrivals_bytes src' = drop n (arrivals_bytes src)"
  using assms
proof (induction n acc src rule: rio_readn_loop.induct)
  case (1 n acc src)
  show ?case
  proof (cases "n = 0")
    case True
    then show ?thesis using 1(3) by (simp add: rio_readn_loop.simps)
  next
    case False
    obtain r src' where r: "sys_read n src = (r, src')" by fastforce
    note step = sys_read_ok [OF 1(3) _ r] and IH = 1(1,2) [OF _ r [symmetric]]
    from step False consider
      (intr) "r = Interrupted" "arrivals_bytes src' = arrivals_bytes src" "arrivals_ok src'"
      | (got) bs where "r = Got bs" "length bs \<le> n" "arrivals_bytes src = bs @ arrivals_bytes src'"
          "bs = [] \<longleftrightarrow> src = []" "arrivals_ok src'"
      by blast
    then show ?thesis
    proof cases
      case intr
      then show ?thesis using IH(2) r False by (simp add: rio_readn_loop.simps [of n acc src])
    next
      case got
      then show ?thesis using IH(1) [of bs] r False
        by (cases "bs = []") (auto simp: rio_readn_loop.simps [of n acc])
    qed
  qed
qed

text \<open>All bytes go out unless the kernel reports a failure, and then some first part of them did.\<close>

lemma rio_writen_loop_out:
  "rio_writen_loop bs k = (ok, k') \<Longrightarrow>
   \<exists>m. sk_out k' = sk_out k @ take m bs \<and> (ok \<longrightarrow> take m bs = bs) \<and>
     (WFail \<notin> set (sk_events k) \<longrightarrow> ok \<and> WFail \<notin> set (sk_events k'))"
proof (induction bs k arbitrary: ok k' rule: rio_writen_loop.induct)
  case (1 bs k)
  show ?case
  proof (cases "bs = []")
    case True
    then show ?thesis using 1(3) by (simp add: rio_writen_loop.simps)
  next
    case False
    obtain r q where r: "sys_write bs k = (r, q)" by fastforce
    note w = r [unfolded sys_write.simps]
    note run = 1(3) [unfolded rio_writen_loop.simps [of bs k] r]
    show ?thesis
    proof (cases r)
      case (Put m)
      obtain j where j: "sk_out k' = sk_out q @ take j (drop m bs)" "ok \<longrightarrow> take j (drop m bs) = drop m bs"
        "WFail \<notin> set (sk_events q) \<longrightarrow> ok \<and> WFail \<notin> set (sk_events k')"
        using 1(1) [OF _ r [symmetric] Put, of ok k'] run Put False by auto
      have "sk_out q = sk_out k @ take m bs" "set (sk_events q) \<subseteq> set (sk_events k)"
        using w Put by (auto split: list.splits departure.splits simp: min_def)
      moreover have "take m bs @ take j (drop m bs) = take (m + j) bs" by (simp add: take_add)
      ultimately show ?thesis using j by (intro exI [of _ "m + j"]) (auto simp: take_add)
    next
      case WInterrupted
      then have "sk_out q = sk_out k" "set (sk_events q) \<subseteq> set (sk_events k)"
        using w by (auto split: list.splits departure.splits)
      then show ?thesis using 1(2) [OF _ r [symmetric] WInterrupted, of ok k'] run WInterrupted False by auto
    next
      case WFailed
      then show ?thesis using run w False by (auto split: list.splits departure.splits intro!: exI [of _ 0])
    qed
  qed
qed

definition sink_ok :: "sink \<Rightarrow> bool" where
  "sink_ok k \<longleftrightarrow> WFail \<notin> set (sk_events k)"

lemma rio_writen_ok:
  assumes "sink_ok k"
  obtains k' where "rio_writen bs k = (int (length bs), k')" and "sink_ok k'" and "sk_out k' = sk_out k @ bs"
proof -
  obtain ok k' where "rio_writen_loop bs k = (ok, k')" by fastforce
  then show thesis using rio_writen_loop_out [of bs k ok k'] assms that [of k']
    by (auto simp: rio_writen_def sink_ok_def)
qed

section \<open>A contract for readers of a stream\<close>

locale buffered_input =
  fixes ok :: "'r \<Rightarrow> bool"
    and pending :: "'r \<Rightarrow> string"
    and line :: "'r \<Rightarrow> nat \<Rightarrow> (int \<times> string) \<times> 'r"
    and bytes :: "'r \<Rightarrow> nat \<Rightarrow> (int \<times> string) \<times> 'r"
  assumes line_law: "ok r \<Longrightarrow> fgets_line (n - 1) (pending r) = (l, rest) \<Longrightarrow>
      \<exists>r'. line r n = ((int (length l), if l = [] \<and> 1 < n then [] else l @ [CHR 0x00]), r') \<and>
        ok r' \<and> pending r' = rest"
    and bytes_law: "ok r \<Longrightarrow>
      \<exists>r'. bytes r n = ((int (length (take n (pending r))), take n (pending r)), r') \<and>
        ok r' \<and> pending r' = drop n (pending r)"
begin

lemma line_whole:
  assumes "ok r" and "pending r = s @ NL # t" and "NL \<notin> set s" and "Suc (length s) < n"
  obtains r' where "line r n = ((int (Suc (length s)), s @ [NL, CHR 0x00]), r')" and "ok r'" and "pending r' = t"
proof -
  have "fgets_line (n - 1) (pending r) = (s @ [NL], t)" using assms fgets_whole [of s "n - 1" t] by simp
  then show thesis using line_law [OF assms(1)] that by fastforce
qed

lemma line_end:
  assumes "ok r" and "pending r = []" and "1 < n"
  obtains r' where "line r n = ((0, []), r')" and "ok r'" and "pending r' = []"
proof -
  have "fgets_line (n - 1) (pending r) = ([], [])" using assms by (cases "n - 1") auto
  then show thesis using line_law [OF assms(1)] assms(3) that by fastforce
qed

lemma byte_next:
  assumes "ok r" and "pending r = c # t"
  obtains r' where "bytes r 1 = ((1, [c]), r')" and "ok r'" and "pending r' = t"
  using bytes_law [OF assms(1), of 1] assms(2) by auto

lemma byte_end:
  assumes "ok r" and "pending r = []"
  obtains r' where "bytes r 1 = ((0, []), r')" and "ok r'" and "pending r' = []"
  using bytes_law [OF assms(1), of 1] assms(2) by auto

end

interpretation rio: buffered_input rio_ok rio_pending rio_readlineb rio_readnb
proof
  fix r n l rest
  assume "rio_ok r" and "fgets_line (n - 1) (rio_pending r) = (l, rest)"
  then show "\<exists>r'. rio_readlineb r n = ((int (length l), if l = [] \<and> 1 < n then [] else l @ [CHR 0x00]), r') \<and>
      rio_ok r' \<and> rio_pending r' = rest"
    using rio_readlineb_ok by metis
next
  fix r n
  assume "rio_ok r"
  then show "\<exists>r'. rio_readnb r n = ((int (length (take n (rio_pending r))), take n (rio_pending r)), r') \<and>
      rio_ok r' \<and> rio_pending r' = drop n (rio_pending r)"
    using rio_readnb_ok by metis
qed

section \<open>Sequences of reads\<close>

datatype read_op = Line nat | Block nat

fun rio_ops :: "read_op list \<Rightarrow> rio_t \<Rightarrow> (int \<times> string) list" where
  "rio_ops [] rp = []"
| "rio_ops (Line n # ops) rp = (case rio_readlineb rp n of (r, rp) \<Rightarrow> r # rio_ops ops rp)"
| "rio_ops (Block n # ops) rp = (case rio_readnb rp n of (r, rp) \<Rightarrow> r # rio_ops ops rp)"

text \<open>The same reads on the bytes themselves.\<close>

fun stream_ops :: "read_op list \<Rightarrow> string \<Rightarrow> (int \<times> string) list" where
  "stream_ops [] s = []"
| "stream_ops (Line n # ops) s = (case fgets_line (n - 1) s of (l, s) \<Rightarrow>
     (int (length l), if l = [] \<and> 1 < n then [] else l @ [CHR 0x00]) # stream_ops ops s)"
| "stream_ops (Block n # ops) s = (int (length (take n s)), take n s) # stream_ops ops (drop n s)"

lemma rio_ops_stream: "rio_ok rp \<Longrightarrow> rio_ops ops rp = stream_ops ops (rio_pending rp)"
proof (induction ops arbitrary: rp)
  case (Cons op ops)
  show ?case
  proof (cases op)
    case (Line n)
    obtain l s where l: "fgets_line (n - 1) (rio_pending rp) = (l, s)" by fastforce
    show ?thesis by (rule rio_readlineb_ok [OF Cons.prems l]) (simp only: Line rio_ops.simps stream_ops.simps l Cons.IH prod.case)
  next
    case (Block n)
    show ?thesis by (rule rio_readnb_ok [OF Cons.prems, of n]) (simp add: Block Cons.IH)
  qed
qed simp

text \<open>C37: Reading lines and blocks in any order through a buffered reader gives the lines (as \<^verbatim>\<open>fgets\<close> cuts them)
  and blocks of the stream of bytes that arrives: neither the chunks they arrive in, nor interruptions, nor the
  size of the internal buffer show.\<close>

theorem rio_reads_stream:
  assumes "arrivals_ok src" and "length junk = RIO_BUFSIZE"
  shows "rio_ops ops (rio_readinitb src junk) = stream_ops ops (arrivals_bytes src)"
  using rio_ops_stream rio_readinitb_ok [OF assms] by simp

theorem rio_reads_stream_witness:
  "rio_ops [Line 8, Block 3, Line 8, Line 8]
     (rio_readinitb [Bytes ''G'', Intr, Bytes (''ET'' @ [NL] @ ''ab''), Intr, Bytes ''cd''] (replicate RIO_BUFSIZE CHR ''?'')) =
   [(4, ''GET'' @ [NL, CHR 0x00]), (3, ''abc''), (1, ''d'' @ [CHR 0x00]), (0, [])]"
  by (subst rio_reads_stream) (auto simp: arrivals_ok_def eval_nat_numeral)

section \<open>Numbers\<close>

lemma rev_loop_rev:
  "i + j = n - 1 \<Longrightarrow> n = length s \<Longrightarrow> i \<le> Suc j \<Longrightarrow>
   rev_loop i j s = take i s @ rev (take (Suc j - i) (drop i s)) @ drop (Suc j) s"
proof (induction i j s rule: rev_loop.induct)
  case (1 i j s)
  show ?case
  proof (cases "i < j")
    case False
    then have "j = i \<or> Suc j = i" using 1(4) by auto
    then show ?thesis
    proof
      assume "j = i"
      moreover have "take i s @ rev (take (Suc 0) (drop i s)) @ drop (Suc i) s = s"
      proof -
        have "rev (take (Suc 0) (drop i s)) = take (Suc 0) (drop i s)" by (cases "drop i s") simp_all
        moreover have "take i s @ take (Suc 0) (drop i s) = take (Suc i) s" using take_add [of i "Suc 0" s] by simp
        ultimately show ?thesis by (metis append.assoc append_take_drop_id)
      qed
      ultimately show ?thesis using \<open>j = i\<close> by (simp add: rev_loop.simps [of i i])
    qed (simp add: rev_loop.simps [of i j])
  next
    case True
    let ?t = "s[i := s ! j, j := s ! i]"
    have j: "j < length s" using True 1(2,3) by auto
    have "rev_loop i j s = take (Suc i) ?t @ rev (take (j - Suc i) (drop (Suc i) ?t)) @ drop j ?t"
      using 1(1) [OF True] 1(2,3) True by (simp add: rev_loop.simps [of i j])
    moreover have "take (Suc i) ?t = take i s @ [s ! j]" using True j by (simp add: take_Suc_conv_app_nth)
    moreover have "drop j ?t = s ! i # drop (Suc j) s" using True j by (simp add: Cons_nth_drop_Suc [symmetric])
    moreover have "take (j - Suc i) (drop (Suc i) ?t) = take (j - Suc i) (drop (Suc i) s)"
      using True j by (simp add: drop_update_swap)
    moreover have "take (Suc j - i) (drop i s) = s ! i # take (j - Suc i) (drop (Suc i) s) @ [s ! j]"
      using True j
      by (intro nth_equalityI) (auto simp: nth_append nth_Cons intro!: arg_cong [where f = "(!) s"] split: nat.splits)
    ultimately show ?thesis by simp
  qed
qed

lemma sio_reverse_rev: "sio_reverse s = rev s"
  using rev_loop_rev [of 0 "length s - 1" "length s" s] by (cases "s = []") (simp_all add: sio_reverse_def)

text \<open>What \<^verbatim>\<open>sio_ltoa\<close> prints, \<^verbatim>\<open>strtol\<close> reads back.\<close>

lemma ltoa_loop_acc: "ltoa_loop v b (s @ t) = s @ ltoa_loop v b t"
proof (induction v b t rule: ltoa_loop.induct)
  case (1 v b t)
  show ?case using 1 [OF refl refl] by (auto simp: ltoa_loop.simps [of v b] Let_def)
qed

lemma ltoa_loop_Cons:
  "ltoa_loop v 10 [] = char_of (v mod 10 + 48) # (if v div 10 > 0 then ltoa_loop (v div 10) 10 [] else [])"
  using ltoa_loop_acc [of "v div 10" 10 "[char_of (v mod 10 + 48)]" "[]"] by (simp add: ltoa_loop.simps [of v] Let_def)

lemma ltoa_loop_digits:
  "0 \<le> v \<Longrightarrow> list_all dec_char (ltoa_loop v 10 []) \<and> digits_val 10 (rev (ltoa_loop v 10 [])) = nat v"
proof (induction "nat v" arbitrary: v rule: less_induct)
  case less
  let ?c = "char_of (v mod 10 + 48) :: char"
  have c: "dec_char ?c" "hex_val ?c = Some (nat (v mod 10))" using dec_digit [of "v mod 10"] by auto
  note e = ltoa_loop_Cons [of v]
  have v: "nat (v div 10) * 10 + nat (v mod 10) = nat v"
    using less.prems by (simp add: nat_div_distrib nat_mod_distrib)
  show ?case
  proof (cases "v div 10 > 0")
    case True
    then have "nat (v div 10) < nat v" using less.prems by linarith
    then have "list_all dec_char (ltoa_loop (v div 10) 10 []) \<and>
        digits_val 10 (rev (ltoa_loop (v div 10) 10 [])) = nat (v div 10)"
      using less.hyps True by simp
    then show ?thesis using True c e v by (simp add: digits_val_snoc)
  next
    case False
    then show ?thesis using c e v by (simp add: digits_val_def)
  qed
qed

lemma sio_ltoa_strto:
  assumes "- (2 ^ 63) < v"
  obtains s where "sio_ltoa v 10 = Some s" and "strto 10 s = v"
proof -
  let ?d = "ltoa_loop \<bar>v\<bar> 10 []"
  have d: "list_all dec_char (rev ?d)" "digits_val 10 (rev ?d) = nat \<bar>v\<bar>"
    using ltoa_loop_digits [of "\<bar>v\<bar>"] by (auto simp: list_all_iff)
  have "rev ?d \<noteq> []" using ltoa_loop_Cons [of "\<bar>v\<bar>"] by simp
  then show thesis using strto_dec [OF d(1), of "[]"] d(2) assms
    by (intro that [of "(if v < 0 then ''-'' else []) @ rev ?d"]) (auto simp: sio_ltoa_def sio_reverse_rev Let_def)
qed

end
