(* ===== verification/Proxy_Props.thy ===== *)
theory Proxy_Props
  imports Proxy Rio_Props
begin

text \<open>
  What the proxy does with a request: what reaches the server and the client when both sides keep to the protocol,
  and what is sent when a body ends early.
\<close>

section \<open>Lines in buffers\<close>

lemma c_str_append: "CHR 0x00 \<notin> set s \<Longrightarrow> c_str (s @ CHR 0x00 # t) = s"
  by (auto simp: c_str_def takeWhile_tail)

lemma c_str_splice [simp]: "CHR 0x00 \<notin> set s \<Longrightarrow> c_str (splice_at 0 (s @ [CHR 0x00]) buf) = s"
  by (simp add: splice_at_def c_str_append)

lemma str_at_splice:
  assumes "CHR 0x00 \<notin> set s" and "i \<le> length s"
  shows "str_at (splice_at 0 (s @ [CHR 0x00]) buf) i = Some (drop i s)"
proof -
  have "drop i (splice_at 0 (s @ [CHR 0x00]) buf) = drop i s @ CHR 0x00 # drop (Suc (length s)) buf"
    using assms(2) by (simp add: splice_at_def)
  moreover have "CHR 0x00 \<notin> set (drop i s)" using assms(1) by (auto dest: in_set_dropD)
  ultimately show ?thesis by (simp add: str_at_def c_str_append)
qed

text \<open>A header line, and the last length a header gives.\<close>

definition header_line :: "string \<Rightarrow> bool" where
  "header_line l \<longleftrightarrow> l \<noteq> [] \<and> last l = NL \<and> NL \<notin> set (butlast l) \<and> CHR 0x00 \<notin> set l \<and>
     length l < MAXLINE_csapp \<and> l \<noteq> [CR, NL]"

fun header_size :: "int \<Rightarrow> string list \<Rightarrow> int option" where
  "header_size n [] = Some n"
| "header_size n (l # ls) =
     (case if strncaseeq l ''Content-Length'' 14 then atoi (drop 15 l) else Some n of
        None \<Rightarrow> None | Some n \<Rightarrow> header_size n ls)"

lemma strncaseeq_length: "strncaseeq s t n \<Longrightarrow> n \<le> length t \<Longrightarrow> n \<le> length s"
  by (auto simp: strncaseeq_def dest: map_eq_imp_length_eq)

lemma last_content_length: "last (map tolower ''Content-Length'') = CHR ''h''"
  by code_simp

lemma tolower_NL: "tolower NL = NL"
  by code_simp

lemma content_length_line:
  assumes "CHR 0x00 \<notin> set l" and "l \<noteq> []" and "last l = NL"
  shows "content_length (splice_at 0 (l @ [CHR 0x00]) buf) n =
    (if strncaseeq l ''Content-Length'' 14 then atoi (drop 15 l) else Some n)"
proof (cases "strncaseeq l ''Content-Length'' 14")
  case True
  then have "14 \<le> length l" using strncaseeq_length by fastforce
  moreover have "length l \<noteq> 14"
  proof
    assume "length l = 14"
    then have "last (map tolower l) = last (map tolower ''Content-Length'')" using True by (simp add: strncaseeq_def)
    then have "tolower NL = CHR ''h''" using assms(2,3) last_content_length by (simp add: last_map)
    then show False by (simp add: tolower_NL)
  qed
  ultimately have "15 \<le> length l" by simp
  then show ?thesis using assms True by (simp add: content_length_def str_at_splice)
next
  case False
  then show ?thesis using assms by (simp add: content_length_def)
qed

lemma blank_not_length: "\<not> strncaseeq [CR, NL] ''Content-Length'' 14"
  by (auto dest: strncaseeq_length)

section \<open>Headers\<close>

lemma read_header_line:
  assumes "rio_ok rp" and "rio_pending rp = l @ t" and "l = [CR, NL] \<or> header_line l"
  obtains rp' where "rio_readlineb rp MAXLINE_csapp = ((int (length l), l @ [CHR 0x00]), rp')" and "rio_ok rp'" and
    "rio_pending rp' = t"
proof -
  have l: "l \<noteq> []" "last l = NL" "NL \<notin> set (butlast l)" "length l < MAXLINE_csapp"
    using assms(3) by (auto simp: header_line_def MAXLINE_csapp_def)
  then have e: "l = butlast l @ [NL]" by (metis append_butlast_last_id)
  have len: "Suc (length (butlast l)) = length l" using l(1) by simp
  have "rio_pending rp = butlast l @ NL # t" using assms(2) e by (metis append.assoc append_Cons append_Nil)
  then obtain rp' where "rio_readlineb rp MAXLINE_csapp = ((int (Suc (length (butlast l))), butlast l @ [NL, CHR 0x00]), rp')"
      "rio_ok rp'" "rio_pending rp' = t"
    using rio.line_whole [OF assms(1) _ l(3), of t MAXLINE_csapp] l(4) len by metis
  moreover have "butlast l @ [NL, CHR 0x00] = l @ [CHR 0x00]" using e by (metis append.assoc append_Cons append_Nil)
  ultimately show thesis using that len by simp
qed

lemma length_splice_line: "length l < MAXLINE_csapp \<Longrightarrow> length buf = MAXLINE_csapp \<Longrightarrow> length (splice_at 0 (l @ [c]) buf) = MAXLINE_csapp"
  by simp

lemma header_line_facts:
  "header_line l \<Longrightarrow> l \<noteq> [] \<and> last l = NL \<and> CHR 0x00 \<notin> set l \<and> length l < MAXLINE_csapp \<and> l \<noteq> [CR, NL]"
  by (simp add: header_line_def)

lemma request_headers_ok:
  assumes "rio_ok rp" and "rio_pending rp = concat ls @ [CR, NL] @ t" and "list_all header_line ls"
    and "length buf = MAXLINE_csapp" and "header_size n ls = Some n'" and "length (request @ concat ls @ [CR, NL]) < MAXLINE_csapp"
  shows "\<exists>rp' buf'. request_headers rp buf request n = Some (rp', buf', request @ concat ls @ [CR, NL], n') \<and>
    rio_ok rp' \<and> rio_pending rp' = t \<and> length buf' = MAXLINE_csapp"
  using assms
proof (induction ls arbitrary: rp buf request n)
  case Nil
  obtain rp' where r: "rio_readlineb rp MAXLINE_csapp = ((2, [CR, NL] @ [CHR 0x00]), rp')" "rio_ok rp'" "rio_pending rp' = t"
    using read_header_line [OF Nil.prems(1), of "[CR, NL]" t] Nil.prems(2) by auto
  have "length (splice_at 0 ([CR, NL] @ [CHR 0x00]) buf) = MAXLINE_csapp"
    using length_splice_line [of "[CR, NL]" buf] Nil.prems(4) by (simp add: MAXLINE_csapp_def)
  then show ?case using Nil.prems r content_length_line [of "[CR, NL]" buf n] blank_not_length c_str_splice [of "[CR, NL]" buf]
    by (simp add: request_headers.simps [of rp] Let_def sprintf_def)
next
  case (Cons l ls)
  note l = header_line_facts [of l]
  have hl: "header_line l" using Cons.prems(3) by simp
  obtain rp' where r: "rio_readlineb rp MAXLINE_csapp = ((int (length l), l @ [CHR 0x00]), rp')" "rio_ok rp'"
      "rio_pending rp' = concat ls @ [CR, NL] @ t"
    using read_header_line [OF Cons.prems(1), of l] Cons.prems(2) hl by auto
  obtain m where m: "(if strncaseeq l ''Content-Length'' 14 then atoi (drop 15 l) else Some n) = Some m" "header_size m ls = Some n'"
    using Cons.prems(5) by (auto split: option.splits)
  have "\<exists>rp'' buf'. request_headers rp' (splice_at 0 (l @ [CHR 0x00]) buf) (request @ l) m =
      Some (rp'', buf', (request @ l) @ concat ls @ [CR, NL], n') \<and> rio_ok rp'' \<and> rio_pending rp'' = t \<and> length buf' = MAXLINE_csapp"
    using Cons.prems l [OF hl] m(2) r(2,3) by (intro Cons.IH) auto
  then show ?case using Cons.prems(6) l [OF hl] m(1) r(1) content_length_line [of l buf n]
    by (simp add: request_headers.simps [of rp] Let_def sprintf_def)
qed

lemma response_headers_ok:
  assumes "rio_ok rp" and "rio_pending rp = concat ls @ [CR, NL] @ t" and "list_all header_line ls"
    and "length buf = MAXLINE_csapp" and "header_size n ls = Some n'" and "sink_ok k"
    and "0 \<le> h" and "h + int (length (concat ls @ [CR, NL])) < 2 ^ 31"
  shows "\<exists>rp' buf' k'. response_headers rp buf k n h = Some (True, rp', buf', k', n', h + int (length (concat ls @ [CR, NL]))) \<and>
    rio_ok rp' \<and> rio_pending rp' = t \<and> length buf' = MAXLINE_csapp \<and> sink_ok k' \<and> sk_out k' = sk_out k @ concat ls @ [CR, NL]"
  using assms
proof (induction ls arbitrary: rp buf n k h)
  case Nil
  obtain rp' where r: "rio_readlineb rp MAXLINE_csapp = ((2, [CR, NL] @ [CHR 0x00]), rp')" "rio_ok rp'" "rio_pending rp' = t"
    using read_header_line [OF Nil.prems(1), of "[CR, NL]" t] Nil.prems(2) by auto
  obtain k' where k: "rio_writen [CR, NL] k = (2, k')" "sink_ok k'" "sk_out k' = sk_out k @ [CR, NL]"
    using rio_writen_ok [OF Nil.prems(6), of "[CR, NL]"] by auto
  have "length (splice_at 0 ([CR, NL] @ [CHR 0x00]) buf) = MAXLINE_csapp"
    using length_splice_line [of "[CR, NL]" buf] Nil.prems(4) by (simp add: MAXLINE_csapp_def)
  then show ?case using Nil.prems r k content_length_line [of "[CR, NL]" buf n] blank_not_length c_str_splice [of "[CR, NL]" buf]
    by (simp add: response_headers.simps [of rp] Let_def int_add_def int_ok_def)
next
  case (Cons l ls)
  note l = header_line_facts [of l]
  have hl: "header_line l" using Cons.prems(3) by simp
  obtain rp' where r: "rio_readlineb rp MAXLINE_csapp = ((int (length l), l @ [CHR 0x00]), rp')" "rio_ok rp'"
      "rio_pending rp' = concat ls @ [CR, NL] @ t"
    using read_header_line [OF Cons.prems(1), of l] Cons.prems(2) hl by auto
  obtain q where q: "rio_writen l k = (int (length l), q)" "sink_ok q" "sk_out q = sk_out k @ l"
    using rio_writen_ok [OF Cons.prems(6), of l] by auto
  obtain m where m: "(if strncaseeq l ''Content-Length'' 14 then atoi (drop 15 l) else Some n) = Some m" "header_size m ls = Some n'"
    using Cons.prems(5) by (auto split: option.splits)
  let ?h = "h + int (length l)"
  have "\<exists>rp'' buf' k'. response_headers rp' (splice_at 0 (l @ [CHR 0x00]) buf) q m ?h =
      Some (True, rp'', buf', k', n', ?h + int (length (concat ls @ [CR, NL]))) \<and>
      rio_ok rp'' \<and> rio_pending rp'' = t \<and> length buf' = MAXLINE_csapp \<and> sink_ok k' \<and> sk_out k' = sk_out q @ concat ls @ [CR, NL]"
    using Cons.prems l [OF hl] m(2) r(2,3) q(2) by (intro Cons.IH) auto
  then show ?case using Cons.prems(7,8) l [OF hl] m(1) r(1) q content_length_line [of l buf n]
    by (simp add: response_headers.simps [of rp] Let_def int_add_def int_ok_def add_ac)
qed

section \<open>Bodies\<close>

lemma splice_byte: "take 1 (splice_at 0 [c] buf) = [c]" and length_splice_byte: "buf \<noteq> [] \<Longrightarrow> length (splice_at 0 [c] buf) = length buf"
  by (cases buf; simp add: splice_at_def)+

text \<open>One turn that reads a byte and forwards it.\<close>

lemma forward_byte:
  assumes "rio_ok rp" and "rio_pending rp = c # t" and "sink_ok k"
  obtains rp' k' where "rio_readnb rp 1 = ((1, [c]), rp')" and "rio_ok rp'" and "rio_pending rp' = t" and
    "rio_writen (take 1 (splice_at 0 [c] buf)) k = (1, k')" and "sink_ok k'" and "sk_out k' = sk_out k @ [c]"
proof -
  obtain k' where "rio_writen [c] k = (1, k')" "sink_ok k'" "sk_out k' = sk_out k @ [c]"
    using rio_writen_ok [OF assms(3), of "[c]"] by auto
  moreover obtain rp' where "rio_readnb rp 1 = ((1, [c]), rp')" "rio_ok rp'" "rio_pending rp' = t"
    using rio.byte_next [OF assms(1,2)] .
  ultimately show thesis using that splice_byte by metis
qed

lemma request_body_ok:
  assumes "rio_ok rp" and "rio_pending rp = body @ t" and "sink_ok k"
  shows "\<exists>k'. request_body (length body) rp buf k = (True, k') \<and> sink_ok k' \<and> sk_out k' = sk_out k @ body"
  using assms
proof (induction body arbitrary: rp buf k)
  case (Cons c body)
  then show ?case by (fastforce elim: forward_byte [of rp c "body @ t" k buf] simp: Let_def)
qed simp

lemma response_body_ok:
  assumes "rio_ok rp" and "rio_pending rp = body @ t" and "sink_ok k"
  shows "\<exists>k'. response_body (length body) rp buf k = (True, k') \<and> sink_ok k' \<and> sk_out k' = sk_out k @ body"
  using assms
proof (induction body arbitrary: rp buf k)
  case (Cons c body)
  then show ?case by (fastforce elim: forward_byte [of rp c "body @ t" k buf] simp: Let_def)
qed simp

text \<open>A request body that ends early is filled up with its last byte; the connection is closed at the last turn.\<close>

lemma request_body_stale:
  assumes "rio_ok rp" and "rio_pending rp = []" and "sink_ok k" and "take 1 buf = [c]"
  shows "\<exists>k'. request_body (Suc n) rp buf k = (False, k') \<and> sink_ok k' \<and> sk_out k' = sk_out k @ replicate n c"
  using assms
proof (induction n arbitrary: rp k)
  case 0
  obtain rp' where "rio_readnb rp 1 = ((0, []), rp')" using rio.byte_end [OF 0(1,2)] by metis
  then show ?case using 0 by simp
next
  case (Suc n)
  obtain rp' where r: "rio_readnb rp 1 = ((0, []), rp')" "rio_ok rp'" "rio_pending rp' = []"
    using rio.byte_end [OF Suc.prems(1,2)] by metis
  obtain q where q: "rio_writen [c] k = (1, q)" "sink_ok q" "sk_out q = sk_out k @ [c]"
    using rio_writen_ok [OF Suc.prems(3), of "[c]"] by auto
  show ?case using Suc.IH [OF r(2,3) q(2) Suc.prems(4)] r(1) q Suc.prems(4)
    by (subst request_body.simps) (simp add: Let_def)
qed

lemma request_body_truncated:
  assumes "rio_ok rp" and "rio_pending rp = body @ [c]" and "sink_ok k"
  shows "\<exists>k'. request_body (Suc (Suc (length body)) + n) rp buf k = (False, k') \<and>
    sk_out k' = sk_out k @ body @ [c] @ replicate n c"
  using assms
proof (induction body arbitrary: rp buf k)
  case Nil
  obtain rp' q where f: "rio_readnb rp 1 = ((1, [c]), rp')" "rio_ok rp'" "rio_pending rp' = []"
    "rio_writen (take 1 (splice_at 0 [c] buf)) k = (1, q)" "sink_ok q" "sk_out q = sk_out k @ [c]"
    using forward_byte [OF Nil(1) _ Nil(3), of c "[]"] Nil(2) by auto
  show ?case using request_body_stale [OF f(2,3,5) splice_byte [of c buf], of n] f by (auto simp: Let_def)
next
  case (Cons d body)
  obtain rp' q where f: "rio_readnb rp 1 = ((1, [d]), rp')" "rio_ok rp'" "rio_pending rp' = body @ [c]"
    "rio_writen (take 1 (splice_at 0 [d] buf)) k = (1, q)" "sink_ok q" "sk_out q = sk_out k @ [d]"
    using forward_byte [OF Cons.prems(1) _ Cons.prems(3), of d "body @ [c]"] Cons.prems(2) by auto
  show ?case using Cons.IH [OF f(2,3,5), of "splice_at 0 [d] buf"] f by (simp add: Let_def)
qed

text \<open>A response body that misses its last byte is filled up with the byte before; the log has the promised size.\<close>

lemma response_body_short_by_one:
  assumes "rio_ok rp" and "rio_pending rp = body @ [c]" and "sink_ok k"
  shows "\<exists>k'. response_body (Suc (Suc (length body))) rp buf k = (True, k') \<and> sk_out k' = sk_out k @ body @ [c, c]"
  using assms
proof (induction body arbitrary: rp buf k)
  case Nil
  obtain rp' q where f: "rio_readnb rp 1 = ((1, [c]), rp')" "rio_ok rp'" "rio_pending rp' = []"
    "rio_writen (take 1 (splice_at 0 [c] buf)) k = (1, q)" "sink_ok q" "sk_out q = sk_out k @ [c]"
    using forward_byte [OF Nil(1) _ Nil(3), of c "[]"] Nil(2) by auto
  obtain p where p: "rio_readnb rp' 1 = ((0, []), p)" using rio.byte_end [OF f(2,3)] by metis
  obtain q' where "rio_writen [c] q = (1, q')" "sk_out q' = sk_out q @ [c]"
    using rio_writen_ok [OF f(5), of "[c]"] by auto
  then show ?case using f p splice_byte [of c buf] by (simp add: Let_def)
next
  case (Cons d body)
  obtain rp' q where f: "rio_readnb rp 1 = ((1, [d]), rp')" "rio_ok rp'" "rio_pending rp' = body @ [c]"
    "rio_writen (take 1 (splice_at 0 [d] buf)) k = (1, q)" "sink_ok q" "sk_out q = sk_out k @ [d]"
    using forward_byte [OF Cons.prems(1) _ Cons.prems(3), of d "body @ [c]"] Cons.prems(2) by auto
  show ?case using Cons.IH [OF f(2,3,5), of "splice_at 0 [d] buf"] f by (simp add: Let_def)
qed

section \<open>Request lines\<close>

definition word_ok :: "string \<Rightarrow> bool" where
  "word_ok w \<longleftrightarrow> w \<noteq> [] \<and> (\<forall>c \<in> set w. \<not> isspace c \<and> c \<noteq> CHR 0x00)"

lemma scan_word_word: "word_ok w \<Longrightarrow> isspace c \<Longrightarrow> scan_word (w @ c # t) = (w, c # t)"
  by (cases w) (auto simp: word_ok_def scan_word_def takeWhile_tail dropWhile_append3 dropWhile_append)

lemma scan_word_space: "isspace c \<Longrightarrow> scan_word (c # s) = scan_word s"
  by (simp add: scan_word_def)

lemma isspace_ends: "isspace CHR '' ''" "isspace CR" "isspace NL"
  by (simp_all add: isspace_def less_eq_char_def)

lemma scan_request_line:
  assumes "word_ok m" and "word_ok u" and "word_ok v"
  shows "scan_words3 (m @ '' '' @ u @ '' '' @ v @ [CR, NL]) = Some (m, u, v)"
  using assms scan_word_word [OF assms(1) isspace_ends(1)] scan_word_word [OF assms(2) isspace_ends(1)]
    scan_word_word [OF assms(3) isspace_ends(2)] isspace_ends
  by (simp add: scan_words3_def scan_word_space word_ok_def)

definition uri_of :: "string \<Rightarrow> string option \<Rightarrow> string \<Rightarrow> string" where
  "uri_of host port path = ''http://'' @ host @ (case port of None \<Rightarrow> [] | Some p \<Rightarrow> '':'' @ p) @ ''/'' @ path"

definition port_of :: "string option \<Rightarrow> string" where
  "port_of port = (case port of None \<Rightarrow> ''80'' | Some p \<Rightarrow> p)"

lemma slash_not_digit: "\<not> dec_char CHR ''/''"
  by (simp add: dec_char_def less_eq_char_def)

lemma parse_uri_of:
  assumes "\<forall>c \<in> set host. c \<notin> set '' :/'' \<union> {CR, NL}" and "\<And>p. port = Some p \<Longrightarrow> list_all dec_char p"
  shows "parse_uri (uri_of host port path) = Some (host, path, port_of port)"
proof -
  define tl' where "tl' = (case port of None \<Rightarrow> [] | Some p \<Rightarrow> CHR '':'' # p) @ CHR ''/'' # path"
  have u: "uri_of host port path = ''http://'' @ host @ tl'" by (auto simp: uri_of_def tl'_def split: option.split)
  have "strncaseeq (''http://'' @ host @ tl') ''http://'' 7" by (simp add: strncaseeq_def)
  moreover have "takeWhile (\<lambda>c. c \<notin> set '' :/'' \<union> {CR, NL}) (host @ tl') = host"
    using assms(1) by (subst takeWhile_append2) (auto simp: tl'_def split: option.split)
  moreover have "dropWhile (\<lambda>c. c \<noteq> CHR ''/'') (host @ tl') = CHR ''/'' # path"
  proof -
    have "CHR ''/'' \<notin> set p" if "list_all dec_char p" for p
      using that by (auto simp: list_all_iff dec_char_def less_eq_char_def)
    then show ?thesis using assms by (auto simp: tl'_def dropWhile_append3 split: option.split)
  qed
  moreover have "tl' \<noteq> []" by (simp add: tl'_def)
  moreover have "(if hd tl' = CHR '':'' then takeWhile dec_char (tl tl') else ''80'') = port_of port"
    using assms(2) slash_not_digit by (auto simp: tl'_def port_of_def list_all_iff takeWhile_tail split: option.split)
  ultimately show ?thesis unfolding u parse_uri_def Let_def by (simp split: if_splits)
qed

text \<open>A URI that ends behind its host is refused, and a log entry can be too long for its array.\<close>

lemma parse_uri_host_only:
  assumes "\<forall>c \<in> set host. c \<notin> set '' :/'' \<union> {CR, NL}"
  shows "parse_uri (''http://'' @ host) = None"
proof -
  have tw: "takeWhile (\<lambda>c. c \<notin> set '' :/'' \<union> {CR, NL}) host = host" using assms by (subst takeWhile_eq_all_conv)
  have rest: "drop 7 (''http://'' @ host) = host" by simp
  show ?thesis unfolding parse_uri_def Let_def rest tw by simp
qed

lemma log_entry_overflows: "MAXLINE_csapp \<le> length time_str + length uri \<Longrightarrow> format_log_entry time_str s_addr uri n = None"
  by (simp add: format_log_entry_def sprintf_def Let_def)

section \<open>The relay\<close>

definition frame_ok :: "frame \<Rightarrow> bool" where
  "frame_ok fr \<longleftrightarrow> length (fr_client_buf fr) = MAXLINE_csapp \<and> length (fr_server_buf fr) = MAXLINE_csapp \<and>
     length (fr_client_rio fr) = RIO_BUFSIZE \<and> length (fr_server_rio fr) = RIO_BUFSIZE"

text \<open>A message: its header lines, the blank line, and a body of the announced length.\<close>

definition message_ok :: "string list \<Rightarrow> string \<Rightarrow> bool" where
  "message_ok ls body \<longleftrightarrow> list_all header_line ls \<and> header_size 0 ls = Some (int (length body)) \<and>
     length (concat ls @ [CR, NL] @ body) < 2 ^ 31"

lemma relay_ok:
  assumes conn: "arrivals_ok (conn_in conn)" "sink_ok (conn_out conn)"
      "arrivals_bytes (conn_in conn) = concat rs @ [CR, NL] @ rbody @ rextra" "message_ok rs rbody"
    and client: "rio_ok cio" "rio_pending cio = body @ extra" "sink_ok cout"
    and fr: "frame_ok fr"
    and entry: "format_log_entry time_str s_addr uri (word_of_int (int (length (concat rs @ [CR, NL] @ rbody)))) = Some entry"
  shows "\<exists>cout' sout. relay time_str s_addr fr uri request (int (length body)) cio cbuf cout conn =
      Some \<lparr>to_client = cout', to_server = Some sout, server_closed = True, logged = Some entry\<rparr> \<and>
    sk_out sout = sk_out (conn_out conn) @ request @ body \<and>
    sk_out cout' = sk_out cout @ concat rs @ [CR, NL] @ rbody"
proof -
  define sio where "sio = rio_readinitb (conn_in conn) (fr_server_rio fr)"
  have sio: "rio_ok sio" "rio_pending sio = concat rs @ [CR, NL] @ rbody @ rextra"
    using rio_readinitb_ok [OF conn(1)] conn(3) fr by (auto simp: sio_def frame_ok_def)
  obtain s1 where s1: "rio_writen request (conn_out conn) = (int (length request), s1)" "sink_ok s1"
      "sk_out s1 = sk_out (conn_out conn) @ request"
    using rio_writen_ok [OF conn(2)] .
  obtain s2 where s2: "request_body (length body) cio cbuf s1 = (True, s2)" "sk_out s2 = sk_out s1 @ body"
    using request_body_ok [OF client(1,2) s1(2)] by blast
  obtain q buf c1 where h: "response_headers sio (fr_server_buf fr) cout 0 0 =
      Some (True, q, buf, c1, int (length rbody), int (length (concat rs @ [CR, NL])))"
      "rio_ok q" "rio_pending q = rbody @ rextra" "sink_ok c1" "sk_out c1 = sk_out cout @ concat rs @ [CR, NL]"
    using response_headers_ok [OF sio, of "fr_server_buf fr" 0 "int (length rbody)" cout 0] conn(4) fr client(3)
    by (auto simp: message_ok_def frame_ok_def)
  obtain c2 where c2: "response_body (length rbody) q buf c1 = (True, c2)" "sk_out c2 = sk_out c1 @ rbody"
    using response_body_ok [OF h(2,3,4)] by blast
  have total: "int_add (int (length rbody)) (int (length (concat rs @ [CR, NL]))) =
      Some (int (length (concat rs @ [CR, NL] @ rbody)))"
    using conn(4) by (simp add: message_ok_def int_add_def int_ok_def)
  have body: "(if int (length body) \<noteq> 0 then request_body (nat (int (length body))) cio cbuf s1 else (True, s1)) = (True, s2)"
    using s2(1) by (cases "body = []") simp_all
  show ?thesis
    unfolding relay_def sio_def [symmetric] Let_def s1(1) prod.case body
    using s1(3) s2(2) h(1,5) c2 total entry by (simp del: length_append)
qed


text \<open>A post of two bytes to an unnamed port, with an answer of three, in chunks and with interruptions.\<close>

definition example_request :: string where
  "example_request = (''POST'' @ '' '' @ uri_of ''h'' None ''x'' @ '' '' @ ''HTTP/1.0'' @ [CR, NL]) @
     concat [''Host: h'' @ [CR, NL], ''Content-Length: 2'' @ [CR, NL]] @ [CR, NL] @ ''ab'' @ []"

definition example_response :: string where
  "example_response = concat [''HTTP/1.0 200 OK'' @ [CR, NL], ''content-length: 3'' @ [CR, NL]] @ [CR, NL] @ ''abc''"

definition example_server :: connection where
  "example_server = \<lparr>conn_fd = 5, conn_in = [Bytes (take 20 example_response), Intr, Bytes (drop 20 example_response)],
     conn_out = \<lparr>sk_events = [WIntr, Takes 3], sk_out = []\<rparr>\<rparr>"

definition example_frame :: frame where
  "example_frame = \<lparr>fr_client_buf = replicate MAXLINE_csapp CHR ''?'', fr_server_buf = replicate MAXLINE_csapp CHR ''?'',
     fr_client_rio = replicate RIO_BUFSIZE CHR ''?'', fr_server_rio = replicate RIO_BUFSIZE CHR ''?''\<rparr>"

lemma example_messages:
  "list_all header_line [''Host: h'' @ [CR, NL], ''Content-Length: 2'' @ [CR, NL]]"
  "header_size 0 [''Host: h'' @ [CR, NL], ''Content-Length: 2'' @ [CR, NL]] = Some 2"
  "list_all header_line [''HTTP/1.0 200 OK'' @ [CR, NL], ''content-length: 3'' @ [CR, NL]]"
  "header_size 0 [''HTTP/1.0 200 OK'' @ [CR, NL], ''content-length: 3'' @ [CR, NL]] = Some 3"
  by code_simp+

lemma example_words:
  "word_ok ''POST''" "word_ok (uri_of ''h'' None ''x'')" "word_ok ''HTTP/1.0''"
  by code_simp+

lemma example_log:
  "format_log_entry ''now'' 0x0100007F (uri_of ''h'' None ''x'') 41 = Some ''now: 127.0.0.1 http://h/x 41''"
  by code_simp


end
