(* ===== verification/Proxy_Threads.thy ===== *)
theory Proxy_Threads
  imports Proxy_Props
begin

text \<open>
  \<^verbatim>\<open>main\<close> and \<^verbatim>\<open>thread\<close> of \<^verbatim>\<open>lab10/proxy.c\<close>: the loop that accepts connections, a detached thread for each, the block of
  storage through which they pass the descriptor and the address, and the semaphore around the log line.  Threads
  interleave in single steps; a line of the log is written character by character.
\<close>

section \<open>State\<close>

text \<open>A client as \<^verbatim>\<open>accept\<close> delivers it; an address that is not of IPv4 is \<^term>\<open>None\<close>, as \<^verbatim>\<open>inet_pton\<close> refuses it.\<close>

record client =
  cl_fd :: int
  cl_addr :: "i32 option"
  cl_in :: "arrival list"
  cl_out :: sink

text \<open>Where a thread is: before it has read its argument, before it frees it, before \<^verbatim>\<open>doit\<close>, before \<^verbatim>\<open>P\<close>, in the
  \<^verbatim>\<open>printf\<close> with what is left to write, before \<^verbatim>\<open>close\<close>, at its end.\<close>

datatype stage =
  Started nat | Read nat int i32 | Ready int i32 | At_P int string | Printing int string | Closing int | Ended

record worker =
  wk_at :: stage
  wk_result :: "exchange option"

datatype main_stage = At_Malloc | At_Accept nat | At_Create nat

text \<open>A thread that reads or frees a block that is not allocated, or whose \<^verbatim>\<open>doit\<close> leaves defined C, is a fault.\<close>

datatype fault = Dead_block | In_doit

record proxy =
  px_main :: main_stage
  px_sem :: int
  px_blocks :: "nat \<Rightarrow> (int \<times> i32) option"
  px_clients :: "client list"
  px_workers :: "worker list"
  px_open :: "int set"
  px_out :: string
  px_exited :: bool
  px_fault :: "fault option"

text \<open>\<^verbatim>\<open>main\<close> up to its loop; the wrappers exit on an error.\<close>

definition proxy_start :: "nat \<Rightarrow> 'c attempt list option \<Rightarrow> bool \<Rightarrow> proxy option" where
  "proxy_start argc addresses listens =
     (if argc \<noteq> 2 then None
      else (case open_listenfd addresses listens of
          Inl _ \<Rightarrow> None
        | Inr _ \<Rightarrow> Some \<lparr>px_main = At_Malloc, px_sem = 1, px_blocks = (\<lambda>_. None), px_clients = [], px_workers = [], px_open = {},
            px_out = [], px_exited = False, px_fault = None\<rparr>))"

section \<open>Steps\<close>

text \<open>What happens next.  The system chooses where \<^verbatim>\<open>malloc\<close> puts a block and what it holds, which client comes, when a
  wrapped call fails, and what \<^verbatim>\<open>doit\<close> finds: the network, the time, its uninitialised arrays.\<close>

datatype action =
  Malloc_ok nat "int \<times> i32"
| Accept_ok client
| Create_ok
| Wrapper_fails
| Work nat "string \<Rightarrow> string \<Rightarrow> connection attempt list option" string frame

definition main_step :: "action \<Rightarrow> proxy \<Rightarrow> proxy option" where
  "main_step a s = (case (px_main s, a) of
       (At_Malloc, Malloc_ok b old) \<Rightarrow>
         if px_blocks s b = None then Some (s\<lparr>px_blocks := (px_blocks s)(b \<mapsto> old), px_main := At_Accept b\<rparr>) else None
     | (At_Accept b, Accept_ok c) \<Rightarrow>
         if cl_fd c \<in> px_open s then None
         else (case px_blocks s b of
             None \<Rightarrow> Some (s\<lparr>px_fault := Some Dead_block\<rparr>)
           | Some (_, old) \<Rightarrow>
               let addr = (case cl_addr c of Some a \<Rightarrow> a | None \<Rightarrow> old)
               in Some (s\<lparr>px_blocks := (px_blocks s)(b \<mapsto> (cl_fd c, addr)), px_clients := px_clients s @ [c],
                    px_open := insert (cl_fd c) (px_open s), px_main := At_Create b\<rparr>))
     | (At_Create b, Create_ok) \<Rightarrow>
         Some (s\<lparr>px_workers := px_workers s @ [\<lparr>wk_at = Started b, wk_result = None\<rparr>], px_main := At_Malloc\<rparr>)
     | (_, Wrapper_fails) \<Rightarrow> Some (s\<lparr>px_exited := True\<rparr>)
     | _ \<Rightarrow> None)"

definition put_stage :: "nat \<Rightarrow> stage \<Rightarrow> proxy \<Rightarrow> proxy" where
  "put_stage k st s = s\<lparr>px_workers := (px_workers s)[k := (px_workers s ! k)\<lparr>wk_at := st\<rparr>]\<rparr>"

text \<open>One step of thread \<open>k\<close>; \<^term>\<open>None\<close> when it waits at \<^verbatim>\<open>P\<close> or has ended.\<close>

definition thread_step ::
  "nat \<Rightarrow> (string \<Rightarrow> string \<Rightarrow> connection attempt list option) \<Rightarrow> string \<Rightarrow> frame \<Rightarrow> proxy \<Rightarrow> proxy option" where
  "thread_step k net time_str fr s = (case wk_at (px_workers s ! k) of
       Started b \<Rightarrow> (case px_blocks s b of
           None \<Rightarrow> Some (s\<lparr>px_fault := Some Dead_block\<rparr>)
         | Some (connfd, addr) \<Rightarrow> Some (put_stage k (Read b connfd addr) s))
     | Read b connfd addr \<Rightarrow>
         (if px_blocks s b = None then Some (s\<lparr>px_fault := Some Dead_block\<rparr>)
          else Some (put_stage k (Ready connfd addr) (s\<lparr>px_blocks := (px_blocks s)(b := None)\<rparr>)))
     | Ready connfd addr \<Rightarrow> (case doit net time_str addr fr (cl_in (px_clients s ! k)) (cl_out (px_clients s ! k)) of
           None \<Rightarrow> Some (s\<lparr>px_fault := Some In_doit\<rparr>)
         | Some ex \<Rightarrow> Some (s\<lparr>px_workers := (px_workers s)[k := \<lparr>wk_at = (case logged ex of Some l \<Rightarrow> At_P connfd (l @ [NL]) | None \<Rightarrow> Closing connfd),
               wk_result = Some ex\<rparr>]\<rparr>))
     | At_P connfd l \<Rightarrow> (if px_sem s > 0 then Some (put_stage k (Printing connfd l) (s\<lparr>px_sem := px_sem s - 1\<rparr>)) else None)
     | Printing connfd l \<Rightarrow> (case l of
           c # l \<Rightarrow> Some (put_stage k (Printing connfd l) (s\<lparr>px_out := px_out s @ [c]\<rparr>))
         | [] \<Rightarrow> Some (put_stage k (Closing connfd) (s\<lparr>px_sem := px_sem s + 1\<rparr>)))
     | Closing connfd \<Rightarrow> Some (put_stage k Ended (s\<lparr>px_open := px_open s - {connfd}\<rparr>))
     | Ended \<Rightarrow> None)"

definition proxy_step :: "action \<Rightarrow> proxy \<Rightarrow> proxy option" where
  "proxy_step a s =
     (if px_exited s \<or> px_fault s \<noteq> None then None
      else (case a of
          Work k net time_str fr \<Rightarrow> if k < length (px_workers s) then thread_step k net time_str fr s else None
        | _ \<Rightarrow> main_step a s))"

inductive runs :: "proxy \<Rightarrow> proxy \<Rightarrow> bool" where
  start: "runs s s"
| step: "runs s t \<Longrightarrow> proxy_step a t = Some u \<Longrightarrow> runs s u"

inductive_cases runsE: "runs s t"

section \<open>The steps one by one\<close>

lemma proxy_stepE:
  assumes "proxy_step a s = Some u"
  obtains
    (malloc) b old where "px_main s = At_Malloc" "px_blocks s b = None"
      "u = s\<lparr>px_blocks := (px_blocks s)(b \<mapsto> old), px_main := At_Accept b\<rparr>"
  | (accept) b c v old where "px_main s = At_Accept b" "cl_fd c \<notin> px_open s" "px_blocks s b = Some (v, old)"
      "u = s\<lparr>px_blocks := (px_blocks s)(b \<mapsto> (cl_fd c, case cl_addr c of Some a \<Rightarrow> a | None \<Rightarrow> old)), px_clients := px_clients s @ [c],
         px_open := insert (cl_fd c) (px_open s), px_main := At_Create b\<rparr>"
  | (lost) b where "px_main s = At_Accept b" "px_blocks s b = None" "u = s\<lparr>px_fault := Some Dead_block\<rparr>"
  | (create) b where "px_main s = At_Create b"
      "u = s\<lparr>px_workers := px_workers s @ [\<lparr>wk_at = Started b, wk_result = None\<rparr>], px_main := At_Malloc\<rparr>"
  | (exits) "u = s\<lparr>px_exited := True\<rparr>"
  | (dead) k b where "k < length (px_workers s)" "wk_at (px_workers s ! k) = Started b \<or> (\<exists>x y. wk_at (px_workers s ! k) = Read b x y)"
      "px_blocks s b = None" "u = s\<lparr>px_fault := Some Dead_block\<rparr>"
  | (reads) k b connfd addr where "k < length (px_workers s)" "wk_at (px_workers s ! k) = Started b"
      "px_blocks s b = Some (connfd, addr)" "u = put_stage k (Read b connfd addr) s"
  | (frees) k b connfd addr where "k < length (px_workers s)" "wk_at (px_workers s ! k) = Read b connfd addr"
      "u = put_stage k (Ready connfd addr) (s\<lparr>px_blocks := (px_blocks s)(b := None)\<rparr>)"
  | (breaks) k where "k < length (px_workers s)" "u = s\<lparr>px_fault := Some In_doit\<rparr>"
  | (does) k connfd addr net time_str fr ex where "k < length (px_workers s)" "wk_at (px_workers s ! k) = Ready connfd addr"
      "doit net time_str addr fr (cl_in (px_clients s ! k)) (cl_out (px_clients s ! k)) = Some ex"
      "u = s\<lparr>px_workers := (px_workers s)[k := \<lparr>wk_at = (case logged ex of Some l \<Rightarrow> At_P connfd (l @ [NL]) | None \<Rightarrow> Closing connfd),
         wk_result = Some ex\<rparr>]\<rparr>"
  | (enters) k connfd l where "k < length (px_workers s)" "wk_at (px_workers s ! k) = At_P connfd l" "px_sem s > 0"
      "u = put_stage k (Printing connfd l) (s\<lparr>px_sem := px_sem s - 1\<rparr>)"
  | (prints) k connfd c l where "k < length (px_workers s)" "wk_at (px_workers s ! k) = Printing connfd (c # l)"
      "u = put_stage k (Printing connfd l) (s\<lparr>px_out := px_out s @ [c]\<rparr>)"
  | (leaves) k connfd where "k < length (px_workers s)" "wk_at (px_workers s ! k) = Printing connfd []"
      "u = put_stage k (Closing connfd) (s\<lparr>px_sem := px_sem s + 1\<rparr>)"
  | (closes) k connfd where "k < length (px_workers s)" "wk_at (px_workers s ! k) = Closing connfd"
      "u = put_stage k Ended (s\<lparr>px_open := px_open s - {connfd}\<rparr>)"
proof (cases a)
  case (Work k net time_str fr)
  then have k: "k < length (px_workers s)" and t: "thread_step k net time_str fr s = Some u"
    using assms by (simp_all add: proxy_step_def split: if_splits)
  show ?thesis
  proof (cases "wk_at (px_workers s ! k)")
    case (Started b)
    then show ?thesis using t dead [OF k] reads [OF k] by (auto simp: thread_step_def split: option.splits)
  next
    case (Read b connfd addr)
    then show ?thesis using t dead [OF k] frees [OF k] by (auto simp: thread_step_def split: if_splits)
  next
    case (Ready connfd addr)
    then show ?thesis using t breaks [OF k] does [OF k Ready] by (auto simp: thread_step_def split: option.splits)
  next
    case (At_P connfd l)
    then show ?thesis using t enters [OF k At_P] by (auto simp: thread_step_def split: if_splits)
  next
    case (Printing connfd l)
    then show ?thesis using t leaves [OF k] prints [OF k] by (auto simp: thread_step_def split: list.splits)
  next
    case (Closing connfd)
    then show ?thesis using t closes [OF k Closing] by (auto simp: thread_step_def)
  next
    case Ended
    then show ?thesis using t by (simp add: thread_step_def)
  qed
next
  case (Malloc_ok b old)
  then have m: "px_main s = At_Malloc" "px_blocks s b = None"
      "u = s\<lparr>px_blocks := (px_blocks s)(b \<mapsto> old), px_main := At_Accept b\<rparr>"
    using assms by (cases "px_main s"; auto simp: proxy_step_def main_step_def split: if_splits)+
  show ?thesis by (rule malloc [OF m])
next
  case (Accept_ok c)
  then obtain b where m: "px_main s = At_Accept b" "cl_fd c \<notin> px_open s"
    using assms by (cases "px_main s") (auto simp: proxy_step_def main_step_def split: if_splits)
  then show ?thesis using assms Accept_ok accept [OF m] lost [OF m(1)]
    by (cases "px_blocks s b") (auto simp: proxy_step_def main_step_def Let_def split: if_splits)
next
  case Create_ok
  then show ?thesis using assms create
    by (cases "px_main s") (auto simp: proxy_step_def main_step_def split: if_splits)
next
  case Wrapper_fails
  then show ?thesis using assms exits
    by (cases "px_main s") (auto simp: proxy_step_def main_step_def split: if_splits)
qed

section \<open>The argument of a thread\<close>

fun main_block :: "main_stage \<Rightarrow> nat option" where
  "main_block At_Malloc = None"
| "main_block (At_Accept b) = Some b"
| "main_block (At_Create b) = Some b"

fun stage_block :: "stage \<Rightarrow> nat option" where
  "stage_block (Started b) = Some b"
| "stage_block (Read b _ _) = Some b"
| "stage_block _ = None"

abbreviation at :: "proxy \<Rightarrow> nat \<Rightarrow> stage" where "at s k \<equiv> wk_at (px_workers s ! k)"

definition thread_block :: "proxy \<Rightarrow> nat \<Rightarrow> nat option" where
  "thread_block s k = (if k < length (px_workers s) then stage_block (at s k) else None)"

text \<open>The allocated blocks are those of \<^verbatim>\<open>main\<close> and of threads that have not yet freed theirs, and no two share one.\<close>

definition owned :: "(nat \<Rightarrow> 'v option) \<Rightarrow> nat option \<Rightarrow> (nat \<Rightarrow> nat option) \<Rightarrow> bool" where
  "owned B m f \<longleftrightarrow> dom B = set_option m \<union> ran f \<and> set_option m \<inter> ran f = {} \<and> inj_on f (dom f)"

definition blocks_owned :: "proxy \<Rightarrow> bool" where
  "blocks_owned s \<longleftrightarrow> owned (px_blocks s) (main_block (px_main s)) (thread_block s)"

lemma owned_new: "owned B None f \<Longrightarrow> B b = None \<Longrightarrow> owned (B(b \<mapsto> v)) (Some b) f"
  by (auto simp: owned_def)

lemma owned_set: "owned B (Some b) f \<Longrightarrow> owned (B(b \<mapsto> v)) (Some b) f"
  by (auto simp: owned_def)

lemma owned_hand:
  assumes "owned B (Some b) f" and "f k = None"
  shows "owned B None (f(k \<mapsto> b))"
proof -
  have "b \<notin> ran f" using assms(1) by (simp add: owned_def)
  then have "inj_on (f(k \<mapsto> b)) (dom (f(k \<mapsto> b)))"
    using assms unfolding owned_def inj_on_def by (auto simp: ran_def)
  then show ?thesis using assms by (auto simp: owned_def)
qed

lemma owned_free:
  assumes "owned B m f" and "f k = Some b"
  shows "owned (B(b := None)) m (f(k := None))"
proof -
  have i: "inj_on f (dom f)" using assms(1) by (simp add: owned_def)
  then have "ran (f(k := None)) = ran f - {b}" using assms(2) by (force simp: ran_def inj_on_def dom_def)
  moreover have "b \<in> ran f" using assms(2) by (rule ranI)
  moreover have "inj_on (f(k := None)) (dom (f(k := None)))" using i unfolding inj_on_def by auto
  ultimately show ?thesis using assms(1) unfolding owned_def by auto
qed

lemma owned_alive: "owned B m f \<Longrightarrow> m = Some b \<or> f k = Some b \<Longrightarrow> B b \<noteq> None"
  by (auto simp: owned_def dom_def ran_def)

lemma at_put [simp]:
  "length (px_workers (put_stage k st s)) = length (px_workers s)" "px_main (put_stage k st s) = px_main s"
  "px_blocks (put_stage k st s) = px_blocks s" "px_clients (put_stage k st s) = px_clients s" "px_open (put_stage k st s) = px_open s"
  "px_sem (put_stage k st s) = px_sem s" "px_out (put_stage k st s) = px_out s" "px_fault (put_stage k st s) = px_fault s"
  "k < length (px_workers s) \<Longrightarrow> at (put_stage k st s) j = (if j = k then st else at s j)"
  "k < length (px_workers s) \<Longrightarrow> wk_result (px_workers (put_stage k st s) ! j) = wk_result (px_workers s ! j)"
  by (auto simp: put_stage_def nth_list_update)

lemma thread_block_put [simp]:
  "k < length (px_workers s) \<Longrightarrow> thread_block (put_stage k st s) = (thread_block s)(k := stage_block st)"
  by (auto simp: thread_block_def fun_eq_iff)

lemma thread_block_at: "k < length (px_workers s) \<Longrightarrow> thread_block s k = stage_block (at s k)"
  by (simp add: thread_block_def)

lemma thread_block_fields [simp]:
  "thread_block (s\<lparr>px_blocks := B\<rparr>) = thread_block s" "thread_block (s\<lparr>px_main := m\<rparr>) = thread_block s"
  "thread_block (s\<lparr>px_clients := cs\<rparr>) = thread_block s" "thread_block (s\<lparr>px_open := fs\<rparr>) = thread_block s"
  "thread_block (s\<lparr>px_sem := z\<rparr>) = thread_block s" "thread_block (s\<lparr>px_out := out\<rparr>) = thread_block s"
  "thread_block (s\<lparr>px_exited := e\<rparr>) = thread_block s" "thread_block (s\<lparr>px_fault := f\<rparr>) = thread_block s"
  by (simp_all add: thread_block_def fun_eq_iff)

lemma thread_block_new:
  "thread_block (s\<lparr>px_workers := px_workers s @ [w]\<rparr>) = (thread_block s)(length (px_workers s) := stage_block (wk_at w))"
  by (auto simp: thread_block_def fun_eq_iff nth_append)

lemma thread_block_update:
  "k < length (px_workers s) \<Longrightarrow> thread_block (s\<lparr>px_workers := (px_workers s)[k := w]\<rparr>) = (thread_block s)(k := stage_block (wk_at w))"
  by (auto simp: thread_block_def fun_eq_iff nth_list_update)

lemma blocks_owned_step:
  assumes inv: "blocks_owned s" and "proxy_step a s = Some u"
  shows "blocks_owned u \<and> (px_fault u = px_fault s \<or> px_fault u = Some In_doit)"
  using assms(2)
proof (cases rule: proxy_stepE)
  case (malloc b old)
  then show ?thesis using inv owned_new by (simp add: blocks_owned_def)
next
  case (accept b c v old)
  then show ?thesis using inv owned_set by (simp add: blocks_owned_def)
next
  case (lost b)
  then show ?thesis using inv owned_alive [of "px_blocks s" "Some b" "thread_block s" b] by (simp add: blocks_owned_def)
next
  case (create b)
  have "thread_block s (length (px_workers s)) = None" by (simp add: thread_block_def)
  then show ?thesis using inv create owned_hand by (simp add: blocks_owned_def thread_block_new)
next
  case (dead k b)
  then have "thread_block s k = Some b" by (auto simp: thread_block_at)
  then show ?thesis using inv dead(3) owned_alive unfolding blocks_owned_def by blast
next
  case (reads k b connfd addr)
  then have "thread_block s k = Some b" by (simp add: thread_block_at)
  then have "(thread_block s)(k \<mapsto> b) = thread_block s" by (simp add: fun_upd_idem)
  then show ?thesis using inv reads by (simp add: blocks_owned_def)
next
  case (frees k b connfd addr)
  then have "thread_block s k = Some b" by (simp add: thread_block_at)
  then show ?thesis using inv frees owned_free by (simp add: blocks_owned_def)
next
  case (does k connfd addr net time_str fr ex)
  have "stage_block (case logged ex of Some l \<Rightarrow> At_P connfd (l @ [NL]) | None \<Rightarrow> Closing connfd) = None" by (simp split: option.splits)
  moreover have "(thread_block s)(k := None) = thread_block s" using does by (simp add: thread_block_at fun_upd_idem)
  ultimately show ?thesis using inv does by (simp add: blocks_owned_def thread_block_update)
next
  case (enters k connfd l)
  then have "(thread_block s)(k := None) = thread_block s" by (simp add: thread_block_at fun_upd_idem)
  then show ?thesis using inv enters by (simp add: blocks_owned_def)
next
  case (prints k connfd c l)
  then have "(thread_block s)(k := None) = thread_block s" by (simp add: thread_block_at fun_upd_idem)
  then show ?thesis using inv prints by (simp add: blocks_owned_def)
next
  case (leaves k connfd)
  then have "(thread_block s)(k := None) = thread_block s" by (simp add: thread_block_at fun_upd_idem)
  then show ?thesis using inv leaves by (simp add: blocks_owned_def)
next
  case (closes k connfd)
  then have "(thread_block s)(k := None) = thread_block s" by (simp add: thread_block_at fun_upd_idem)
  then show ?thesis using inv closes by (simp add: blocks_owned_def)
qed (use inv in \<open>simp_all add: blocks_owned_def\<close>)

section \<open>The client of a thread\<close>

text \<open>What a thread was handed for its client, and that an exchange was done with it.\<close>

definition handed :: "client \<Rightarrow> int \<Rightarrow> i32 \<Rightarrow> bool" where
  "handed c connfd addr \<longleftrightarrow> connfd = cl_fd c \<and> (\<forall>x. cl_addr c = Some x \<longrightarrow> addr = x)"

definition served :: "client \<Rightarrow> exchange \<Rightarrow> bool" where
  "served c ex \<longleftrightarrow> (\<exists>net time_str addr fr. handed c (cl_fd c) addr \<and> doit net time_str addr fr (cl_in c) (cl_out c) = Some ex)"

definition block_for :: "(nat \<Rightarrow> (int \<times> i32) option) \<Rightarrow> nat \<Rightarrow> client \<Rightarrow> bool" where
  "block_for B b c \<longleftrightarrow> (\<exists>connfd addr. B b = Some (connfd, addr) \<and> handed c connfd addr)"

fun stage_ok :: "(nat \<Rightarrow> (int \<times> i32) option) \<Rightarrow> client \<Rightarrow> stage \<Rightarrow> exchange option \<Rightarrow> bool" where
  "stage_ok B c (Started b) r \<longleftrightarrow> block_for B b c \<and> r = None"
| "stage_ok B c (Read b fd a) r \<longleftrightarrow> handed c fd a \<and> r = None"
| "stage_ok B c (Ready fd a) r \<longleftrightarrow> handed c fd a \<and> r = None"
| "stage_ok B c (At_P fd l) r \<longleftrightarrow> fd = cl_fd c \<and> (\<exists>ex e. r = Some ex \<and> served c ex \<and> logged ex = Some e \<and> l = e @ [NL])"
| "stage_ok B c (Printing fd l) r \<longleftrightarrow> fd = cl_fd c \<and> (\<exists>ex e p. r = Some ex \<and> served c ex \<and> logged ex = Some e \<and> e @ [NL] = p @ l)"
| "stage_ok B c (Closing fd) r \<longleftrightarrow> fd = cl_fd c \<and> (\<exists>ex. r = Some ex \<and> served c ex)"
| "stage_ok B c Ended r \<longleftrightarrow> (\<exists>ex. r = Some ex \<and> served c ex)"

definition clients_ok :: "proxy \<Rightarrow> bool" where
  "clients_ok s \<longleftrightarrow>
     (case px_main s of
        At_Create b \<Rightarrow> length (px_clients s) = Suc (length (px_workers s)) \<and> block_for (px_blocks s) b (last (px_clients s))
      | _ \<Rightarrow> length (px_clients s) = length (px_workers s)) \<and>
     (\<forall>k < length (px_workers s). stage_ok (px_blocks s) (px_clients s ! k) (at s k) (wk_result (px_workers s ! k)))"

lemma stage_ok_blocks:
  "stage_ok B c st r \<Longrightarrow> (\<And>b. stage_block st = Some b \<Longrightarrow> B' b = B b) \<Longrightarrow> stage_ok B' c st r"
  by (cases st) (auto simp: block_for_def)

lemma clients_ok_thread:
  assumes "clients_ok s" and "k < length (px_workers s)" and "px_blocks u = px_blocks s" and "px_main u = px_main s"
    and "px_clients u = px_clients s" and "px_workers u = (px_workers s)[k := w]"
    and "stage_ok (px_blocks s) (px_clients s ! k) (wk_at w) (wk_result w)"
  shows "clients_ok u"
  using assms by (auto simp: clients_ok_def nth_list_update split: main_stage.splits)

lemma clients_ok_put:
  assumes "clients_ok s" and "k < length (px_workers s)" and "px_blocks t = px_blocks s" and "px_main t = px_main s"
    and "px_clients t = px_clients s" and "px_workers t = px_workers s"
    and "stage_ok (px_blocks s) (px_clients s ! k) st (wk_result (px_workers s ! k))"
  shows "clients_ok (put_stage k st t)"
  using clients_ok_thread [OF assms(1,2), of "put_stage k st t" "(px_workers s ! k)\<lparr>wk_at := st\<rparr>"] assms(3-7)
  by (simp add: put_stage_def)

lemma clients_ok_at:
  "clients_ok s \<Longrightarrow> k < length (px_workers s) \<Longrightarrow> stage_ok (px_blocks s) (px_clients s ! k) (at s k) (wk_result (px_workers s ! k))"
  by (simp add: clients_ok_def)

lemma thread_block_other:
  assumes "blocks_owned s" and "k < length (px_workers s)" and "stage_block (at s k) = Some b'"
  shows "main_block (px_main s) \<noteq> Some b'" "px_blocks s b' \<noteq> None"
    "thread_block s j = Some b' \<Longrightarrow> j = k"
proof -
  have t: "thread_block s k = Some b'" using assms(2,3) by (simp add: thread_block_def)
  then show "main_block (px_main s) \<noteq> Some b'" using assms(1) by (auto simp: blocks_owned_def owned_def ran_def)
  show "px_blocks s b' \<noteq> None" using owned_alive [of "px_blocks s" _ "thread_block s" b' k] assms(1) t unfolding blocks_owned_def by simp
  show "j = k" if "thread_block s j = Some b'"
    using assms(1) t that unfolding blocks_owned_def owned_def inj_on_def by (metis domI)
qed

lemma clients_ok_step:
  assumes own: "blocks_owned s" and inv: "clients_ok s" and "proxy_step a s = Some u"
  shows "clients_ok u"
  using assms(3)
proof (cases rule: proxy_stepE)
  case (malloc b old)
  have "b' \<noteq> b" if "k < length (px_workers s)" "stage_block (at s k) = Some b'" for k b'
    using thread_block_other(2) [OF own that] malloc(2) by auto
  then show ?thesis using inv malloc unfolding clients_ok_def by (auto intro: stage_ok_blocks)
next
  case (accept b c v old)
  have "b' \<noteq> b" if "k < length (px_workers s)" "stage_block (at s k) = Some b'" for k b'
    using thread_block_other(1) [OF own that] accept(1) by auto
  then have "stage_ok ((px_blocks s)(b \<mapsto> x)) (px_clients s ! k) (at s k) (wk_result (px_workers s ! k))" if "k < length (px_workers s)" for k x
    using clients_ok_at [OF inv that] that by (auto intro: stage_ok_blocks)
  then show ?thesis using inv accept unfolding clients_ok_def by (auto simp: nth_append block_for_def handed_def split: option.splits)
next
  case (create b)
  have "last (px_clients s) = px_clients s ! length (px_workers s)"
    using inv create(1) last_conv_nth [of "px_clients s"] by (cases "px_clients s = []") (simp_all add: clients_ok_def)
  then show ?thesis using inv create unfolding clients_ok_def by (auto simp: nth_append less_Suc_eq)
next
  case (reads k b connfd addr)
  show ?thesis
    unfolding reads(4)
    by (rule clients_ok_put [OF inv reads(1)]) (use clients_ok_at [OF inv reads(1)] reads(2,3) in \<open>auto simp: block_for_def\<close>)
next
  case (frees k b connfd addr)
  have sk: "stage_block (at s k) = Some b" using frees(2) by simp
  have "stage_ok ((px_blocks s)(b := None)) (px_clients s ! j) (at s j) (wk_result (px_workers s ! j))"
    if "j < length (px_workers s)" "j \<noteq> k" for j
  proof (rule stage_ok_blocks [OF clients_ok_at [OF inv that(1)]])
    fix b' assume "stage_block (at s j) = Some b'"
    then have "thread_block s j = Some b'" using that(1) by (simp add: thread_block_def)
    then have "b' \<noteq> b" using thread_block_other(3) [OF own frees(1) sk, of j] that(2) by blast
    then show "((px_blocks s)(b := None)) b' = px_blocks s b'" by simp
  qed
  moreover have "stage_ok B (px_clients s ! k) (Ready connfd addr) (wk_result (px_workers s ! k))" for B
    using clients_ok_at [OF inv frees(1)] frees(2) by simp
  ultimately have "\<forall>j < length (px_workers u). stage_ok (px_blocks u) (px_clients u ! j) (at u j) (wk_result (px_workers u ! j))"
    using frees(1,3) by simp
  moreover have "main_block (px_main s) \<noteq> Some b" using thread_block_other(1) [OF own frees(1) sk] .
  ultimately show ?thesis
    using inv frees(3) unfolding clients_ok_def by (cases "px_main s") (auto simp: block_for_def)
next
  case (does k connfd addr net time_str fr ex)
  have h: "handed (px_clients s ! k) connfd addr" using clients_ok_at [OF inv does(1)] does(2) by simp
  then have "served (px_clients s ! k) ex" using does(3) by (auto simp: served_def handed_def)
  then show ?thesis
    using clients_ok_thread [OF inv does(1), of u "\<lparr>wk_at = (case logged ex of Some l \<Rightarrow> At_P connfd (l @ [NL]) | None \<Rightarrow> Closing connfd),
         wk_result = Some ex\<rparr>"] does(4) h by (auto simp: handed_def split: option.splits)
next
  case (enters k connfd l)
  show ?thesis
    unfolding enters(4) by (rule clients_ok_put [OF inv enters(1)]) (use clients_ok_at [OF inv enters(1)] enters(2) in auto)
next
  case (prints k connfd c l)
  obtain ex e p where "wk_result (px_workers s ! k) = Some ex" "served (px_clients s ! k) ex" "logged ex = Some e" "e @ [NL] = (p @ [c]) @ l"
      "connfd = cl_fd (px_clients s ! k)"
    using clients_ok_at [OF inv prints(1)] prints(2) by auto
  then have "stage_ok (px_blocks s) (px_clients s ! k) (Printing connfd l) (wk_result (px_workers s ! k))"
    unfolding stage_ok.simps by blast
  then show ?thesis unfolding prints(3) by (intro clients_ok_put [OF inv prints(1)]) simp_all
next
  case (leaves k connfd)
  show ?thesis
    unfolding leaves(3) by (rule clients_ok_put [OF inv leaves(1)]) (use clients_ok_at [OF inv leaves(1)] leaves(2) in auto)
next
  case (closes k connfd)
  show ?thesis
    unfolding closes(3) by (rule clients_ok_put [OF inv closes(1)]) (use clients_ok_at [OF inv closes(1)] closes(2) in auto)
qed (use inv in \<open>simp_all add: clients_ok_def split: main_stage.splits\<close>)

section \<open>Descriptors\<close>

definition finished :: "proxy \<Rightarrow> nat \<Rightarrow> bool" where
  "finished s k \<longleftrightarrow> k < length (px_workers s) \<and> at s k = Ended"

definition fds_ok :: "proxy \<Rightarrow> bool" where
  "fds_ok s \<longleftrightarrow> (let live = {k. k < length (px_clients s) \<and> \<not> finished s k}
     in px_open s = (\<lambda>k. cl_fd (px_clients s ! k)) ` live \<and> inj_on (\<lambda>k. cl_fd (px_clients s ! k)) live)"

lemma fds_ok_same:
  assumes "fds_ok s" and "px_clients u = px_clients s" and "px_open u = px_open s" and "\<And>k. finished u k = finished s k"
  shows "fds_ok u"
  using assms by (simp add: fds_ok_def)

lemma finished_put: "k < length (px_workers s) \<Longrightarrow> finished (put_stage k st s) j = (if j = k then st = Ended else finished s j)"
  by (simp add: finished_def)

lemma finished_fields [simp]:
  "finished (s\<lparr>px_blocks := B\<rparr>) = finished s" "finished (s\<lparr>px_main := m\<rparr>) = finished s" "finished (s\<lparr>px_clients := cs\<rparr>) = finished s"
  "finished (s\<lparr>px_open := fs\<rparr>) = finished s" "finished (s\<lparr>px_sem := z\<rparr>) = finished s" "finished (s\<lparr>px_out := out\<rparr>) = finished s"
  "finished (s\<lparr>px_exited := e\<rparr>) = finished s" "finished (s\<lparr>px_fault := f\<rparr>) = finished s"
  by (simp_all add: finished_def fun_eq_iff)

lemma fds_ok_step:
  assumes cl: "clients_ok s" and inv: "fds_ok s" and "proxy_step a s = Some u"
  shows "fds_ok u"
  using assms(3)
proof (cases rule: proxy_stepE)
  case (accept b c v old)
  let ?L = "{k. k < length (px_clients s) \<and> \<not> finished s k}" and ?n = "length (px_clients s)"
  have n: "\<not> finished s ?n" using cl accept(1) by (auto simp: clients_ok_def finished_def)
  have "{k. k < length (px_clients u) \<and> \<not> finished u k} = insert ?n ?L" using accept n by (auto simp: less_Suc_eq)
  moreover have "(\<lambda>k. cl_fd (px_clients u ! k)) ` ?L = (\<lambda>k. cl_fd (px_clients s ! k)) ` ?L"
    using accept by (intro image_cong) (auto simp: nth_append)
  moreover have "inj_on (\<lambda>k. cl_fd (px_clients u ! k)) ?L = inj_on (\<lambda>k. cl_fd (px_clients s ! k)) ?L"
    using accept by (intro inj_on_cong) (auto simp: nth_append)
  moreover have "cl_fd (px_clients u ! ?n) = cl_fd c" "px_open u = insert (cl_fd c) (px_open s)" using accept by simp_all
  moreover have "?L - {?n} = ?L" by auto
  ultimately show ?thesis using inv accept(2) by (simp add: fds_ok_def Let_def)
next
  case (create b)
  have "length (px_workers s) < length (px_clients s)" using cl create(1) by (simp add: clients_ok_def)
  then show ?thesis
    using create by (intro fds_ok_same [OF inv]) (auto simp: finished_def nth_append less_Suc_eq)
next
  case (does k connfd addr net time_str fr ex)
  have "\<not> finished s k" using does(2) by (simp add: finished_def)
  then show ?thesis
    using does by (intro fds_ok_same [OF inv]) (auto simp: finished_def nth_list_update split: option.splits)
next
  case (closes k connfd)
  let ?L = "{k. k < length (px_clients s) \<and> \<not> finished s k}" and ?f = "\<lambda>k. cl_fd (px_clients s ! k)"
  have k: "k \<in> ?L" using closes(1,2) cl by (auto simp: finished_def clients_ok_def split: main_stage.splits)
  have "connfd = ?f k" using clients_ok_at [OF cl closes(1)] closes(2) by simp
  moreover have "{k. k < length (px_clients u) \<and> \<not> finished u k} = ?L - {k}" using closes by (auto simp: finished_put)
  moreover have "?f ` (?L - {k}) = ?f ` ?L - {?f k}" using inv k by (subst inj_on_image_set_diff [of ?f ?L]) (auto simp: fds_ok_def Let_def)
  ultimately show ?thesis using inv closes by (auto simp: fds_ok_def Let_def intro: inj_on_diff)
next
  case (reads k b connfd addr)
  then show ?thesis by (intro fds_ok_same [OF inv]) (auto simp: finished_put finished_def)
next
  case (frees k b connfd addr)
  then show ?thesis by (intro fds_ok_same [OF inv]) (auto simp: finished_put finished_def)
next
  case (enters k connfd l)
  then show ?thesis by (intro fds_ok_same [OF inv]) (auto simp: finished_put finished_def)
next
  case (prints k connfd c l)
  then show ?thesis by (intro fds_ok_same [OF inv]) (auto simp: finished_put finished_def)
next
  case (leaves k connfd)
  then show ?thesis by (intro fds_ok_same [OF inv]) (auto simp: finished_put finished_def)
qed (use inv in \<open>simp_all add: fds_ok_def\<close>)

section \<open>The log\<close>

definition log_line :: "proxy \<Rightarrow> nat \<Rightarrow> string" where
  "log_line s k = (case wk_result (px_workers s ! k) of
     Some ex \<Rightarrow> (case logged ex of Some e \<Rightarrow> e @ [NL] | None \<Rightarrow> []) | None \<Rightarrow> [])"

text \<open>Threads behind \<^verbatim>\<open>P\<close>, and the rest that the one inside still has to write.\<close>

definition is_printing :: "stage \<Rightarrow> bool" where "is_printing st \<longleftrightarrow> (\<exists>fd l. st = Printing fd l)"

definition past_P :: "proxy \<Rightarrow> nat set" where
  "past_P s = {k. k < length (px_workers s) \<and> (is_printing (at s k) \<or>
     ((at s k = Ended \<or> (\<exists>fd. at s k = Closing fd)) \<and> log_line s k \<noteq> []))}"

definition log_ok :: "proxy \<Rightarrow> bool" where
  "log_ok s \<longleftrightarrow> (\<exists>order. distinct order \<and> set order = past_P s \<and>
     (px_sem s = 1 \<and> (\<forall>k < length (px_workers s). \<not> is_printing (at s k)) \<and> px_out s = concat (map (log_line s) order) \<or>
      (\<exists>k fd l. px_sem s = 0 \<and> k < length (px_workers s) \<and> at s k = Printing fd l \<and>
         (\<forall>j < length (px_workers s). is_printing (at s j) \<longrightarrow> j = k) \<and> order \<noteq> [] \<and> last order = k \<and>
         px_out s @ l = concat (map (log_line s) order))))"

lemma log_line_put [simp]: "k < length (px_workers s) \<Longrightarrow> log_line (put_stage k st s) = log_line s"
  by (auto simp: log_line_def fun_eq_iff)

lemma log_line_fields [simp]:
  "log_line (s\<lparr>px_blocks := B\<rparr>) = log_line s" "log_line (s\<lparr>px_main := m\<rparr>) = log_line s" "log_line (s\<lparr>px_clients := cs\<rparr>) = log_line s"
  "log_line (s\<lparr>px_open := fs\<rparr>) = log_line s" "log_line (s\<lparr>px_sem := z\<rparr>) = log_line s" "log_line (s\<lparr>px_out := out\<rparr>) = log_line s"
  "log_line (s\<lparr>px_exited := e\<rparr>) = log_line s" "log_line (s\<lparr>px_fault := f\<rparr>) = log_line s"
  by (simp_all add: log_line_def fun_eq_iff)

lemma log_ok_same:
  assumes "log_ok s" and "px_sem u = px_sem s" and "px_out u = px_out s" and "past_P u = past_P s"
    and "\<And>k. k \<in> past_P s \<Longrightarrow> log_line u k = log_line s k"
    and "\<And>k fd l. k < length (px_workers u) \<and> at u k = Printing fd l \<longleftrightarrow> k < length (px_workers s) \<and> at s k = Printing fd l"
  shows "log_ok u"
proof -
  have p: "k < length (px_workers u) \<and> is_printing (at u k) \<longleftrightarrow> k < length (px_workers s) \<and> is_printing (at s k)" for k
    unfolding is_printing_def using assms(6) by blast
  obtain order where o: "distinct order" "set order = past_P s"
      "px_sem s = 1 \<and> (\<forall>k < length (px_workers s). \<not> is_printing (at s k)) \<and> px_out s = concat (map (log_line s) order) \<or>
      (\<exists>k fd l. px_sem s = 0 \<and> k < length (px_workers s) \<and> at s k = Printing fd l \<and>
         (\<forall>j < length (px_workers s). is_printing (at s j) \<longrightarrow> j = k) \<and> order \<noteq> [] \<and> last order = k \<and>
         px_out s @ l = concat (map (log_line s) order))"
    using assms(1) unfolding log_ok_def by blast
  have m: "map (log_line u) order = map (log_line s) order" using assms(5) o(2) by simp
  from o(3) have "px_sem u = 1 \<and> (\<forall>k < length (px_workers u). \<not> is_printing (at u k)) \<and> px_out u = concat (map (log_line u) order) \<or>
      (\<exists>k fd l. px_sem u = 0 \<and> k < length (px_workers u) \<and> at u k = Printing fd l \<and>
         (\<forall>j < length (px_workers u). is_printing (at u j) \<longrightarrow> j = k) \<and> order \<noteq> [] \<and> last order = k \<and>
         px_out u @ l = concat (map (log_line u) order))"
  proof
    assume "px_sem s = 1 \<and> (\<forall>k < length (px_workers s). \<not> is_printing (at s k)) \<and> px_out s = concat (map (log_line s) order)"
    then show ?thesis using assms(2,3) p unfolding m by auto
  next
    assume "\<exists>k fd l. px_sem s = 0 \<and> k < length (px_workers s) \<and> at s k = Printing fd l \<and>
         (\<forall>j < length (px_workers s). is_printing (at s j) \<longrightarrow> j = k) \<and> order \<noteq> [] \<and> last order = k \<and>
         px_out s @ l = concat (map (log_line s) order)"
    then obtain k fd l where k: "px_sem s = 0" "k < length (px_workers s) \<and> at s k = Printing fd l"
         "\<forall>j < length (px_workers s). is_printing (at s j) \<longrightarrow> j = k" "order \<noteq> []" "last order = k"
         "px_out s @ l = concat (map (log_line s) order)" by blast
    then have "k < length (px_workers u) \<and> at u k = Printing fd l" using assms(6) by blast
    moreover have "\<forall>j < length (px_workers u). is_printing (at u j) \<longrightarrow> j = k" using k(3) p by blast
    ultimately show ?thesis using k(1,4-6) assms(2,3) m by (intro disjI2) (metis (no_types, lifting))
  qed
  then show ?thesis unfolding log_ok_def using o(1,2) assms(4) by blast
qed

lemma past_P_put:
  assumes "k < length (px_workers s)"
  shows "past_P (put_stage k st s) = (if is_printing st \<or> (st = Ended \<or> (\<exists>fd. st = Closing fd)) \<and> log_line s k \<noteq> []
    then insert k (past_P s) else past_P s - {k})"
  using assms by (auto simp: past_P_def)

lemma past_P_fields [simp]:
  "past_P (s\<lparr>px_blocks := B\<rparr>) = past_P s" "past_P (s\<lparr>px_main := m\<rparr>) = past_P s" "past_P (s\<lparr>px_clients := cs\<rparr>) = past_P s"
  "past_P (s\<lparr>px_open := fs\<rparr>) = past_P s" "past_P (s\<lparr>px_sem := z\<rparr>) = past_P s" "past_P (s\<lparr>px_out := out\<rparr>) = past_P s"
  "past_P (s\<lparr>px_exited := e\<rparr>) = past_P s" "past_P (s\<lparr>px_fault := f\<rparr>) = past_P s"
  by (simp_all add: past_P_def)

lemma is_printing_simps [simp]:
  "is_printing (Printing fd l)" "\<not> is_printing (Started b)" "\<not> is_printing (Read b fd a)" "\<not> is_printing (Ready fd a)"
  "\<not> is_printing (At_P fd l)" "\<not> is_printing (Closing fd)" "\<not> is_printing Ended"
  by (simp_all add: is_printing_def)

lemma past_P_at: "k < length (px_workers s) \<Longrightarrow> k \<in> past_P s \<longleftrightarrow> is_printing (at s k) \<or>
    (at s k = Ended \<or> (\<exists>fd. at s k = Closing fd)) \<and> log_line s k \<noteq> []"
  by (simp add: past_P_def)

text \<open>A thread that moves outside the log.\<close>

lemma log_ok_outside:
  assumes "log_ok s" and "k < length (px_workers s)" and "\<not> is_printing (at s k)" and "\<not> is_printing st"
    and "k \<in> past_P s \<longleftrightarrow> (st = Ended \<or> (\<exists>fd. st = Closing fd)) \<and> log_line s k \<noteq> []"
    and "px_workers t = px_workers s" and "px_sem t = px_sem s" and "px_out t = px_out s"
  shows "log_ok (put_stage k st t)"
proof -
  have t: "past_P t = past_P s" "log_line t = log_line s" using assms(6) by (simp_all add: past_P_def log_line_def fun_eq_iff)
  have "past_P (put_stage k st t) = past_P s" using assms(2,4,5,6) t by (auto simp: past_P_put)
  moreover have "at s k \<noteq> Printing fd l" "st \<noteq> Printing fd l" for fd l using assms(3,4) by (auto simp: is_printing_def)
  ultimately show ?thesis using assms(2,6-8) t by (intro log_ok_same [OF assms(1)]) auto
qed

lemma log_ok_printing:
  assumes "log_ok s" and "k < length (px_workers s)" and "at s k = Printing fd l"
  obtains order where "distinct order" "set order = past_P s" "px_sem s = 0"
    "\<forall>j < length (px_workers s). is_printing (at s j) \<longrightarrow> j = k" "order \<noteq> []" "last order = k"
    "px_out s @ l = concat (map (log_line s) order)"
proof -
  have p: "is_printing (at s k)" using assms(3) by simp
  obtain order where o: "distinct order" "set order = past_P s"
      "px_sem s = 1 \<and> (\<forall>k < length (px_workers s). \<not> is_printing (at s k)) \<and> px_out s = concat (map (log_line s) order) \<or>
      (\<exists>k fd l. px_sem s = 0 \<and> k < length (px_workers s) \<and> at s k = Printing fd l \<and>
         (\<forall>j < length (px_workers s). is_printing (at s j) \<longrightarrow> j = k) \<and> order \<noteq> [] \<and> last order = k \<and>
         px_out s @ l = concat (map (log_line s) order))"
    using assms(1) unfolding log_ok_def by blast
  then obtain k' fd' l' where k': "px_sem s = 0" "at s k' = Printing fd' l'"
      "\<forall>j < length (px_workers s). is_printing (at s j) \<longrightarrow> j = k'" "order \<noteq> []" "last order = k'"
      "px_out s @ l' = concat (map (log_line s) order)"
    using p assms(2) by blast
  have "k' = k" using k'(3) p assms(2) by simp
  then have "l' = l" using k'(2) assms(3) by simp
  then show thesis using that [OF o(1,2)] k' \<open>k' = k\<close> by blast
qed

lemma log_ok_step:
  assumes cl: "clients_ok s" and inv: "log_ok s" and "proxy_step a s = Some u"
  shows "log_ok u"
  using assms(3)
proof (cases rule: proxy_stepE)
  case (create b)
  have l: "log_line u k = log_line s k" if "k < length (px_workers s)" for k
    using that create by (simp add: log_line_def nth_append)
  have "past_P u = past_P s" using create l by (auto simp: past_P_def nth_append less_Suc_eq)
  then show ?thesis using create l by (intro log_ok_same [OF inv]) (auto simp: past_P_def nth_append less_Suc_eq)
next
  case (reads k b connfd addr)
  then show ?thesis by (auto intro!: log_ok_outside [OF inv] simp: past_P_at)
next
  case (frees k b connfd addr)
  then show ?thesis by (auto intro!: log_ok_outside [OF inv] simp: past_P_at)
next
  case (does k connfd addr net time_str fr ex)
  have l: "log_line u j = log_line s j" if "j \<noteq> k" for j using does that by (simp add: log_line_def)
  have k: "k \<notin> past_P s" using does by (simp add: past_P_at)
  have "log_line u k = (case logged ex of Some e \<Rightarrow> e @ [NL] | None \<Rightarrow> [])" using does by (simp add: log_line_def)
  then have "k \<notin> past_P u" using does by (auto simp: past_P_def split: option.splits)
  then have "past_P u = past_P s" using does l k by (auto simp: past_P_def nth_list_update split: option.splits if_splits)
  moreover have "log_line u j = log_line s j" if "j \<in> past_P s" for j using l [of j] k that by blast
  ultimately show ?thesis using does(1,2,4) by (intro log_ok_same [OF inv]) (auto simp: nth_list_update split: option.splits)
next
  case (enters k connfd l)
  have l: "log_line s k = l" using clients_ok_at [OF cl enters(1)] enters(2) by (auto simp: log_line_def)
  have k: "k \<notin> past_P s" using enters by (simp add: past_P_at)
  obtain order where o: "distinct order" "set order = past_P s" "px_sem s = 1"
      "\<forall>k < length (px_workers s). \<not> is_printing (at s k)" "px_out s = concat (map (log_line s) order)"
    using inv enters(3) unfolding log_ok_def by auto
  have "past_P u = insert k (past_P s)" using enters by (simp add: past_P_put)
  then show ?thesis
    unfolding log_ok_def using o k l enters(1,4)
    by (intro exI [of _ "order @ [k]"] conjI disjI2 exI [of _ k] exI [of _ connfd] exI [of _ l]) simp_all
next
  case (prints k connfd c l)
  note o = log_ok_printing [OF inv prints(1,2)]
  have "past_P u = past_P s" using prints by (auto simp: past_P_put past_P_at)
  show ?thesis
  proof (rule o)
    fix order assume o: "distinct order" "set order = past_P s" "px_sem s = 0" "\<forall>j < length (px_workers s). is_printing (at s j) \<longrightarrow> j = k"
      "order \<noteq> []" "last order = k" "px_out s @ c # l = concat (map (log_line s) order)"
    have "k < length (px_workers u) \<and> at u k = Printing connfd l \<and> (\<forall>j < length (px_workers u). is_printing (at u j) \<longrightarrow> j = k)"
      using o(4) prints(1,3) by simp
    moreover have "px_out u @ l = concat (map (log_line u) order)" "px_sem u = 0" using o(3,7) prints(1,3) by simp_all
    ultimately show ?thesis unfolding log_ok_def using o \<open>past_P u = past_P s\<close> by blast
  qed
next
  case (leaves k connfd)
  have "log_line s k \<noteq> []" using clients_ok_at [OF cl leaves(1)] leaves(2) by (auto simp: log_line_def)
  then have "past_P u = past_P s" using leaves by (auto simp: past_P_put past_P_at)
  show ?thesis
  proof (rule log_ok_printing [OF inv leaves(1,2)])
    fix order assume o: "distinct order" "set order = past_P s" "px_sem s = 0" "\<forall>j < length (px_workers s). is_printing (at s j) \<longrightarrow> j = k"
      "px_out s @ [] = concat (map (log_line s) order)"
    have "\<forall>j < length (px_workers u). \<not> is_printing (at u j)" using o(4) leaves(1,3) by auto
    moreover have "px_out u = concat (map (log_line u) order)" "px_sem u = 1" using o(3,5) leaves(1,3) by simp_all
    ultimately show ?thesis unfolding log_ok_def using o(1,2) \<open>past_P u = past_P s\<close> by blast
  qed
next
  case (closes k connfd)
  then show ?thesis by (auto intro!: log_ok_outside [OF inv] simp: past_P_at)
qed (use inv in \<open>auto intro!: log_ok_same [OF inv]\<close>)

section \<open>Reachable states\<close>

definition proxy_inv :: "proxy \<Rightarrow> bool" where
  "proxy_inv s \<longleftrightarrow> blocks_owned s \<and> clients_ok s \<and> fds_ok s \<and> log_ok s \<and> px_fault s \<noteq> Some Dead_block"

lemma proxy_inv_start:
  assumes "proxy_start argc addresses listens = Some s"
  shows "proxy_inv s"
proof -
  have s: "px_main s = At_Malloc" "px_sem s = 1" "px_blocks s = (\<lambda>_. None)" "px_clients s = []" "px_workers s = []"
      "px_open s = {}" "px_out s = []" "px_fault s = None"
    using assms by (auto simp: proxy_start_def split: if_splits sum.splits)
  have "thread_block s = (\<lambda>_. None)" using s by (simp add: thread_block_def fun_eq_iff)
  then have "blocks_owned s" using s by (simp add: blocks_owned_def owned_def)
  moreover have "clients_ok s" "fds_ok s" "log_ok s" using s by (simp_all add: clients_ok_def fds_ok_def log_ok_def past_P_def)
  ultimately show ?thesis using s by (simp add: proxy_inv_def)
qed

lemma proxy_inv_step:
  assumes "proxy_inv s" and "proxy_step a s = Some u"
  shows "proxy_inv u"
proof -
  have i: "blocks_owned s" "clients_ok s" "fds_ok s" "log_ok s" "px_fault s \<noteq> Some Dead_block" using assms(1) by (simp_all add: proxy_inv_def)
  then show ?thesis
    using blocks_owned_step [OF i(1) assms(2)] clients_ok_step [OF i(1,2) assms(2)] fds_ok_step [OF i(2,3) assms(2)]
      log_ok_step [OF i(2,4) assms(2)] by (auto simp: proxy_inv_def)
qed

lemma proxy_inv_runs: "runs s t \<Longrightarrow> proxy_inv s \<Longrightarrow> proxy_inv t"
  by (induction rule: runs.induct) (auto intro: proxy_inv_step)

text \<open>C39: In every state the proxy can reach, however its threads interleave: no thread uses a block of storage that is not its
  own; a thread that has been through \<^verbatim>\<open>doit\<close> did so with the connection and the address of its own client; the open
  connections are exactly those of clients whose thread has not ended; at most one thread is inside the log, and the log
  is whole lines of different threads, in some order, of which at most the last is still being written.\<close>

theorem proxy_threads_safe:
  assumes "proxy_start argc addresses listens = Some s" and "runs s t"
  shows "px_fault t \<noteq> Some Dead_block \<and>
    (\<forall>k < length (px_workers t). \<forall>ex. wk_result (px_workers t ! k) = Some ex \<longrightarrow> served (px_clients t ! k) ex) \<and>
    px_open t = (\<lambda>k. cl_fd (px_clients t ! k)) ` {k. k < length (px_clients t) \<and> \<not> finished t k} \<and>
    (\<forall>j < length (px_workers t). \<forall>k < length (px_workers t). is_printing (at t j) \<longrightarrow> is_printing (at t k) \<longrightarrow> j = k) \<and>
    (\<exists>order rest. distinct order \<and> set order = past_P t \<and> px_out t @ rest = concat (map (log_line t) order) \<and>
       ((\<forall>k < length (px_workers t). \<not> is_printing (at t k)) \<longrightarrow> rest = []))"
proof -
  have inv: "blocks_owned t" "clients_ok t" "fds_ok t" "log_ok t" "px_fault t \<noteq> Some Dead_block"
    using proxy_inv_runs [OF assms(2) proxy_inv_start [OF assms(1)]] by (simp_all add: proxy_inv_def)
  have "served (px_clients t ! k) ex" if "k < length (px_workers t)" "wk_result (px_workers t ! k) = Some ex" for k ex
    using clients_ok_at [OF inv(2) that(1)] that(2) by (cases "at t k") auto
  moreover have "j = k" if "j < length (px_workers t)" "k < length (px_workers t)" "is_printing (at t j)" "is_printing (at t k)" for j k
    using inv(4) that unfolding log_ok_def by metis
  moreover have "\<exists>order rest. distinct order \<and> set order = past_P t \<and> px_out t @ rest = concat (map (log_line t) order) \<and>
       ((\<forall>k < length (px_workers t). \<not> is_printing (at t k)) \<longrightarrow> rest = [])"
    using inv(4) unfolding log_ok_def is_printing_def by (metis append_Nil2)
  ultimately show ?thesis using inv(3,5) by (simp add: fds_ok_def Let_def)
qed

section \<open>The threads finish\<close>

fun steps_left :: "stage \<Rightarrow> nat" where
  "steps_left (Started b) = MAXLINE_csapp + 6"
| "steps_left (Read b fd a) = MAXLINE_csapp + 5"
| "steps_left (Ready fd a) = MAXLINE_csapp + 4"
| "steps_left (At_P fd l) = length l + 3"
| "steps_left (Printing fd l) = length l + 2"
| "steps_left (Closing fd) = 1"
| "steps_left Ended = 0"

definition remaining :: "proxy \<Rightarrow> nat" where
  "remaining s = (\<Sum>w\<leftarrow>px_workers s. steps_left (wk_at w))"

lemma relay_log:
  assumes "relay time_str s_addr fr uri request n clientio buf cout conn = Some ex" and "logged ex = Some e"
  shows "length e < MAXLINE_csapp"
  using assms by (auto simp: relay_def Let_def format_log_entry_def sprintf_def bind_eq_Some_conv split: prod.splits if_splits)

lemma doit_log: "doit net time_str s_addr fr cin cout = Some ex \<Longrightarrow> logged ex = Some e \<Longrightarrow> length e < MAXLINE_csapp"
  by (auto simp: doit_def Let_def bind_eq_Some_conv split: prod.split_asm if_split_asm option.split_asm)
    (auto split: sum.split_asm if_split_asm dest: relay_log)

lemma remaining_update:
  assumes "k < length (px_workers s)" and "px_workers u = (px_workers s)[k := w]"
  shows "remaining u + steps_left (at s k) = remaining s + steps_left (wk_at w)"
proof -
  have "px_workers s = take k (px_workers s) @ px_workers s ! k # drop (Suc k) (px_workers s)" using assms(1) by (rule id_take_nth_drop)
  moreover have "px_workers u = take k (px_workers s) @ w # drop (Suc k) (px_workers s)" unfolding assms(2) using assms(1) by (rule upd_conv_take_nth_drop)
  ultimately show ?thesis unfolding remaining_def by (smt (verit) add.assoc add.commute list.simps(9) map_append sum_list.Cons sum_list_append)
qed

lemma work_step:
  assumes "proxy_step (Work k net time_str fr) s = Some u" and "px_fault u = None"
  shows "remaining u < remaining s"
proof -
  have k: "k < length (px_workers s)" and t: "thread_step k net time_str fr s = Some u" and f: "px_fault s = None"
    using assms(1) by (simp_all add: proxy_step_def split: if_splits)
  have put: "remaining (put_stage k st v) < remaining s"
    if "px_workers v = px_workers s" "steps_left st < steps_left (at s k)" for st v
    using remaining_update [OF k, of "put_stage k st v" "(px_workers s ! k)\<lparr>wk_at := st\<rparr>"] that by (simp add: put_stage_def)
  show ?thesis
  proof (cases "at s k")
    case (Ready fd a)
    then obtain ex where ex: "doit net time_str a fr (cl_in (px_clients s ! k)) (cl_out (px_clients s ! k)) = Some ex"
        "px_workers u = (px_workers s)[k := \<lparr>wk_at = (case logged ex of Some l \<Rightarrow> At_P fd (l @ [NL]) | None \<Rightarrow> Closing fd), wk_result = Some ex\<rparr>]"
      using t assms(2) by (auto simp: thread_step_def split: option.splits)
    then show ?thesis
      using remaining_update [OF k ex(2)] Ready doit_log [OF ex(1)] by (auto split: option.splits)
  next
    case (Started b)
    then show ?thesis using t assms(2) by (auto simp: thread_step_def intro: put split: option.splits)
  next
    case (Read b fd a)
    then show ?thesis using t assms(2) by (auto simp: thread_step_def intro: put split: if_splits)
  next
    case (At_P fd l)
    then show ?thesis using t by (auto simp: thread_step_def intro: put split: if_splits)
  next
    case (Printing fd l)
    then show ?thesis using t by (auto simp: thread_step_def intro: put split: list.splits)
  next
    case (Closing fd)
    then show ?thesis using t by (auto simp: thread_step_def intro: put)
  next
    case Ended
    then show ?thesis using t by (simp add: thread_step_def)
  qed
qed

text \<open>Steps of threads only.\<close>

inductive threads_run :: "nat \<Rightarrow> proxy \<Rightarrow> proxy \<Rightarrow> bool" where
  none: "threads_run 0 s s"
| more: "threads_run n s t \<Longrightarrow> proxy_step (Work k net time_str fr) t = Some u \<Longrightarrow> threads_run (Suc n) s u"

lemma threads_run_remaining: "threads_run n s t \<Longrightarrow> px_fault t = None \<Longrightarrow> n + remaining t \<le> remaining s"
proof (induction rule: threads_run.induct)
  case (more n s t k net time_str fr u)
  have "px_fault t = None" using more(2) by (simp add: proxy_step_def split: if_splits)
  then show ?case using more work_step [OF more(2)] by simp
qed simp

lemma threads_run_runs: "threads_run n s t \<Longrightarrow> runs s t"
  by (induction rule: threads_run.induct) (auto intro: runs.intros)

lemma runs_trans: "runs t u \<Longrightarrow> runs s t \<Longrightarrow> runs s u"
  by (induction rule: runs.induct) (auto intro: runs.intros)

lemma threads_exited: "threads_run n s t \<Longrightarrow> px_exited t = px_exited s"
  by (induction rule: threads_run.induct)
    (auto simp: proxy_step_def thread_step_def put_stage_def split: if_splits stage.splits option.splits list.splits)

lemma remaining_le: "remaining s \<le> (MAXLINE_csapp + 6) * length (px_workers s)"
  if "\<forall>k < length (px_workers s). steps_left (at s k) \<le> MAXLINE_csapp + 6"
proof -
  have "remaining s \<le> (\<Sum>w\<leftarrow>px_workers s. MAXLINE_csapp + 6)"
    unfolding remaining_def using that by (intro sum_list_mono) (auto simp: in_set_conv_nth)
  then show ?thesis by (simp add: sum_list_triv mult.commute)
qed

lemma log_ok_held:
  assumes "log_ok s" and "px_sem s \<le> 0"
  shows "\<exists>j fd l. j < length (px_workers s) \<and> at s j = Printing fd l"
proof -
  have "px_sem s \<noteq> 1" using assms(2) by simp
  then show ?thesis using assms(1) unfolding log_ok_def by blast
qed

lemma can_step:
  assumes inv: "proxy_inv s" and "\<not> px_exited s" and "px_fault s = None" and k: "k < length (px_workers s)" "at s k \<noteq> Ended"
  shows "\<exists>j net time_str fr u. proxy_step (Work j net time_str fr) s = Some u"
proof -
  have step: "?thesis" if "j < length (px_workers s)" "thread_step j net time_str fr s = Some u" for j net time_str fr u
  proof -
    have "proxy_step (Work j net time_str fr) s = Some u" using that assms(2,3) by (simp add: proxy_step_def)
    then show ?thesis by blast
  qed
  show ?thesis
  proof (cases "(\<exists>fd l. at s k = At_P fd l) \<and> px_sem s \<le> 0")
    case True
    have "log_ok s" using inv by (simp add: proxy_inv_def)
    then obtain j fd l where j: "j < length (px_workers s)" "at s j = Printing fd l" using log_ok_held True by blast
    then have "\<exists>u. thread_step j net time_str fr s = Some u" for net time_str fr by (cases l) (simp_all add: thread_step_def)
    then show ?thesis using step [OF j(1)] by blast
  next
    case False
    have "\<exists>u. thread_step k net time_str fr s = Some u" for net time_str fr
    proof (cases "at s k")
      case (Started b)
      then show ?thesis by (cases "px_blocks s b") (auto simp: thread_step_def)
    next
      case (Read b fd a)
      then show ?thesis by (cases "px_blocks s b") (auto simp: thread_step_def)
    next
      case (Ready fd a)
      then show ?thesis
        by (cases "doit net time_str a fr (cl_in (px_clients s ! k)) (cl_out (px_clients s ! k))") (auto simp: thread_step_def)
    next
      case (At_P fd l)
      then show ?thesis using False by (auto simp: thread_step_def)
    next
      case (Printing fd l)
      then show ?thesis by (cases l) (auto simp: thread_step_def)
    qed (use k(2) in \<open>simp_all add: thread_step_def\<close>)
    then show ?thesis using step [OF k(1)] by blast
  qed
qed

lemma steps_left_le:
  assumes "clients_ok s" and "k < length (px_workers s)"
  shows "steps_left (at s k) \<le> MAXLINE_csapp + 6"
proof -
  have short: "length e < MAXLINE_csapp" if "served c ex" "logged ex = Some e" for c ex e
    using that doit_log by (auto simp: served_def)
  have "length l \<le> MAXLINE_csapp" if "e @ [NL] = p @ l" "length e < MAXLINE_csapp" for e p l :: string
    using arg_cong [OF that(1), of length] that(2) by simp
  then show ?thesis using clients_ok_at [OF assms] short by (cases "at s k") fastforce+
qed


section \<open>A run\<close>

text \<open>A client that connects and says nothing.\<close>

fun act :: "action list \<Rightarrow> proxy \<Rightarrow> proxy option" where
  "act [] s = Some s"
| "act (a # as) s = do { s \<leftarrow> proxy_step a s; act as s }"

lemma act_runs: "act as t = Some u \<Longrightarrow> runs s t \<Longrightarrow> runs s u"
  by (induction as arbitrary: t) (auto simp: bind_eq_Some_conv intro: runs.step)

definition silent :: client where
  "silent = \<lparr>cl_fd = 4, cl_addr = Some 0x0100007F, cl_in = [], cl_out = \<lparr>sk_events = [], sk_out = []\<rparr>\<rparr>"

definition first_state :: proxy where
  "first_state = \<lparr>px_main = At_Malloc, px_sem = 1, px_blocks = (\<lambda>_. None), px_clients = [], px_workers = [], px_open = {},
     px_out = [], px_exited = False, px_fault = None\<rparr>"

definition work :: action where
  "work = Work 0 (\<lambda>_ _. None) ''now'' \<lparr>fr_client_buf = [], fr_server_buf = [], fr_client_rio = [], fr_server_rio = []\<rparr>"

definition one_thread :: proxy where
  "one_thread = first_state\<lparr>px_blocks := [0 \<mapsto> (4, 0x0100007F)], px_clients := [silent], px_open := {4},
     px_workers := [\<lparr>wk_at = Started 0, wk_result = None\<rparr>]\<rparr>"

definition no_exchange :: exchange where
  "no_exchange = \<lparr>to_client = \<lparr>sk_events = [], sk_out = []\<rparr>, to_server = None, server_closed = False, logged = None\<rparr>"

definition after_thread :: proxy where
  "after_thread = first_state\<lparr>px_clients := [silent], px_workers := [\<lparr>wk_at = Ended, wk_result = Some no_exchange\<rparr>]\<rparr>"

lemma start_first: "proxy_start 2 (Some [Connected ()]) True = Some first_state"
  by (simp add: proxy_start_def open_listenfd_def first_state_def)

lemma reach_one_thread: "runs first_state one_thread"
proof -
  have "act [Malloc_ok 0 (0, 0), Accept_ok silent, Create_ok] first_state = Some one_thread"
    by (simp add: first_state_def one_thread_def proxy_step_def main_step_def silent_def)
  then show ?thesis using act_runs runs.start by blast
qed

lemma silent_doit: "doit (\<lambda>_ _. None) ''now'' 0x0100007F \<lparr>fr_client_buf = [], fr_server_buf = [], fr_client_rio = [], fr_server_rio = []\<rparr>
    [] \<lparr>sk_events = [], sk_out = []\<rparr> = Some no_exchange"
  unfolding no_exchange_def by code_simp

lemma thread_alone: "threads_run 4 one_thread after_thread"
proof -
  let ?s = "\<lambda>B st r fs. first_state\<lparr>px_blocks := B, px_clients := [silent], px_open := fs, px_workers := [\<lparr>wk_at = st, wk_result = r\<rparr>]\<rparr>"
  let ?B = "[0 \<mapsto> (4, 0x0100007F)]" and ?r = "Some no_exchange"
  have 0: "one_thread = ?s ?B (Started 0) None {4}" "after_thread = ?s Map.empty Ended ?r {}"
    by (simp_all add: one_thread_def after_thread_def first_state_def)
  have "proxy_step work (?s ?B (Started 0) None {4}) = Some (?s ?B (Read 0 4 0x0100007F) None {4})"
    by (simp add: work_def proxy_step_def thread_step_def put_stage_def first_state_def)
  moreover have "proxy_step work (?s ?B (Read 0 4 0x0100007F) None {4}) = Some (?s Map.empty (Ready 4 0x0100007F) None {4})"
    by (simp add: work_def proxy_step_def thread_step_def put_stage_def first_state_def)
  moreover have "proxy_step work (?s Map.empty (Ready 4 0x0100007F) None {4}) = Some (?s Map.empty (Closing 4) ?r {4})"
    using silent_doit by (simp add: work_def proxy_step_def thread_step_def put_stage_def first_state_def silent_def no_exchange_def)
  moreover have "proxy_step work (?s Map.empty (Closing 4) ?r {4}) = Some (?s Map.empty Ended ?r {})"
    by (simp add: work_def proxy_step_def thread_step_def put_stage_def first_state_def)
  ultimately have "threads_run (Suc (Suc (Suc (Suc 0)))) (?s ?B (Started 0) None {4}) (?s Map.empty Ended ?r {})"
    unfolding work_def by (blast intro: threads_run.intros)
  then show ?thesis unfolding 0 by (simp add: numeral_eq_Suc)
qed

theorem proxy_threads_safe_witness:
  "served silent no_exchange \<and> px_open after_thread = {} \<and> px_fault after_thread \<noteq> Some Dead_block"
proof -
  have "runs first_state after_thread" using runs_trans [OF threads_run_runs [OF thread_alone] reach_one_thread] .
  from proxy_threads_safe [OF start_first this] show ?thesis
    by (simp add: after_thread_def first_state_def finished_def)
qed


end
