(* ===== verification/Spec2Isabelle.thy ===== *)
theory Spec2Isabelle
  imports Y64_Props Y64_AsmProps Yat Btest Test_Trans Tsh_Props Mdriver_Main Fcyc Clock Proxy_Threads
begin

text \<open>
  A verification library for the programs of the ICS course laboratories (the C sources under \<^verbatim>\<open>src/\<close>).

  The repository holds independent programs, one directory per laboratory.  Each is modelled by its own
  theories; what C programs share (integers at their width, arrays, strings, conversions of the C library)
  is in \<^theory_text>\<open>Prelude\<close> and \<^theory_text>\<open>CStdio\<close>.

  \<^bold>\<open>Conventions.\<close>  A definition has the name of the C function it models; a loop or a case of a function that
  is a definition of its own has the function's name with a suffix.  Machine integers are words where the code
  computes with their bits (\<^verbatim>\<open>long\<close> in the Y64 tools, \<^verbatim>\<open>int\<close> in the data lab, the words of the heap) and
  integers with the range written out where it computes within it.  State is passed explicitly, as a record with
  the fields of the C structure or with the globals of the file.  A result of type \<^theory_text>\<open>'a ub\<close> is \<^theory_text>\<open>None\<close> when the
  execution leaves the defined part of C: an access outside an array, a signed overflow, a division by zero, a
  conversion out of range.  Errors the code reports are values inside of it.  What a program gets from outside
  is an argument: the contents of files, parsed options, uninitialised storage, random draws, what the kernel
  delivers on a descriptor.

  \<^bold>\<open>Y64 simulator\<close> (\<^verbatim>\<open>lab4/y64sim.c\<close>).  \<^theory_text>\<open>Y64_Mem\<close>: \<^verbatim>\<open>mem_t\<close> as length and bytes, the accessors
  \<^verbatim>\<open>get_byte_val\<close>, \<^verbatim>\<open>get_long_val\<close>, \<^verbatim>\<open>set_byte_val\<close>, \<^verbatim>\<open>set_long_val\<close> with the code's bounds checks, the register
  file.  \<^theory_text>\<open>Y64_Sim\<close>: \<^verbatim>\<open>compute_alu\<close>, \<^verbatim>\<open>compute_cc\<close>, \<^verbatim>\<open>cond_doit\<close>, \<^verbatim>\<open>nexti\<close> with one definition for each instruction,
  \<^verbatim>\<open>load_binfile\<close> and the loop and report of \<^verbatim>\<open>main\<close>.  The loop ends because it counts up to the given number of steps.  \<^theory_text>\<open>Y64_Isa\<close> is the specification, an instruction decoder and a step function on a register
  function and a byte list; \<^theory_text>\<open>Y64_Props\<close> has the refinement for one step and for whole runs, the exact condition
  for a step to be undefined, and the condition codes.

  \<^bold>\<open>Y64 assembler\<close> (\<^verbatim>\<open>lab5/y64asm.c\<close>).  \<^theory_text>\<open>Y64_Lex\<close>: the register and instruction tables and the \<^verbatim>\<open>parse_xxx\<close>
  functions, under one locale \<^theory_text>\<open>token_parser\<close> that says what every parser does to the text.  \<^theory_text>\<open>Y64_Asm\<close>: symbol and
  relocation tables (locale \<^theory_text>\<open>symbol_table\<close>), \<^verbatim>\<open>parse_line\<close>, \<^verbatim>\<open>assemble\<close>, \<^verbatim>\<open>relocate\<close>, \<^verbatim>\<open>binfile\<close>, the listing and
  \<^verbatim>\<open>main\<close>.  \<^theory_text>\<open>Y64_Text\<close> gives each instruction a canonical text and its machine code; \<^theory_text>\<open>Y64_AsmProps\<close> proves the
  round trip from the text through \<^verbatim>\<open>main\<close> to the image the simulator decodes, relocation, the layout of the
  image, the invariant of the tables, and the error cases.  \<^theory_text>\<open>Yat\<close>: the drivers \<^verbatim>\<open>lab5/yat.c\<close> and
  \<^verbatim>\<open>lab4/yat.c\<close>, which test both tools through the shell, a parameter; they end whatever the commands do, count
  every test once (locale \<^theory_text>\<open>test_counter\<close>), and the assembler's does not notice a wrong listing.

  \<^bold>\<open>Data lab\<close> (\<^verbatim>\<open>lab1\<close>).  \<^theory_text>\<open>Bits\<close>: the fifteen solutions of \<^verbatim>\<open>bits.c\<close> and the references of \<^verbatim>\<open>tests.c\<close> on 32-bit
  words.  \<^theory_text>\<open>Btest\<close>: the table of \<^verbatim>\<open>decl.c\<close> and the test loops of \<^verbatim>\<open>btest.c\<close>: every puzzle equals its reference on the
  table's ranges, and the harness therefore gives all points for all random draws.

  \<^bold>\<open>Cache lab\<close> (\<^verbatim>\<open>lab8\<close>).  \<^theory_text>\<open>Csim\<close>: the simulator \<^verbatim>\<open>csim.c\<close>, its array of tags and ages, the loops of
  \<^verbatim>\<open>addressCache\<close> and the reading of a trace file.  The ageing loop may run past the array: the memory behind it is
  an argument.  \<^theory_text>\<open>Csim_Lru\<close>: the simulator refines a set-associative cache whose sets are lists in the order of
  their last use.  \<^theory_text>\<open>Trans\<close>: the transposes of \<^verbatim>\<open>trans.c\<close>, the comparison and the registration of \<^verbatim>\<open>cachelab.c\<close> and
  \<^verbatim>\<open>tracegen.c\<close>; the blocked transposes equal the plain one.  \<^theory_text>\<open>Cache_Files\<close>: the files the programs hand to each
  other, the numbers in them, \<^verbatim>\<open>tracegen\<close> with its options, and the locale \<^theory_text>\<open>simulator\<close>, what users of a reference
  simulator rely on, interpreted on \<^verbatim>\<open>csim.c\<close>.  \<^theory_text>\<open>Test_Trans\<close>: \<^verbatim>\<open>test-trans.c\<close>, which cuts the trace of a
  transpose at the markers and has its misses counted; what valgrind and the simulator leave behind is an argument.
  End to end, it reports the misses of a cache with least-recently-used replacement.

  \<^bold>\<open>Shell\<close> (\<^verbatim>\<open>lab9/tsh.c\<close>).  \<^theory_text>\<open>Tsh\<close>: the job table, \<^verbatim>\<open>parseline\<close>, \<^verbatim>\<open>eval\<close>, \<^verbatim>\<open>do_bgfg\<close>, \<^verbatim>\<open>waitfg\<close> and the
  signal handlers as steps of an inductive relation in which handlers run between the statements of the main
  program wherever signals are not blocked; the kernel (children, their reports, group identifiers) is
  nondeterministic.  \<^theory_text>\<open>Tsh_Props\<close>: the table as a map (locale \<^theory_text>\<open>pid_table\<close>), the invariant of every reachable
  state, the round trip of the command line, and the two races.

  \<^bold>\<open>Malloc lab\<close> (\<^verbatim>\<open>lab7\<close>).  \<^theory_text>\<open>Mm\<close>: the break of \<^verbatim>\<open>memlib.c\<close> and the allocator \<^verbatim>\<open>mm.c\<close> on a heap of 32-bit
  words; an address is the distance in bytes from the start of the heap.  The search of \<^verbatim>\<open>find_fit\<close> follows links
  in the heap, is a partial function, and is proved to end on every well-formed heap.  \<^theory_text>\<open>Mm_Inv\<close> states the invariant (blocks
  tile the heap, boundary tags agree, the free list links exactly the free blocks, no two of them are
  neighbours); \<^theory_text>\<open>Mm_Core\<close>, \<^theory_text>\<open>Mm_Ops\<close> and \<^theory_text>\<open>Mm_Realloc\<close> prove that it is kept; \<^theory_text>\<open>Mm_Props\<close> has the contracts
  of the exported functions, and \<^theory_text>\<open>Mm_Types\<close> that every word of the heap keeps to 32 bits and the break never moves back.  \<^theory_text>\<open>Mdriver\<close>: the range list, the trace reader and the runs of \<^verbatim>\<open>mdriver.c\<close>
  over a package of four functions; the reader ends because every turn takes a word
  of the file.  \<^theory_text>\<open>Mdriver_Props\<close>: the locale \<^theory_text>\<open>mm_contract\<close> with the promises a package makes to the driver, its
  interpretation on \<^verbatim>\<open>mm.c\<close>, that the driver accepts such a package on every well-formed trace, and what the
  driver's checks get wrong.  \<^theory_text>\<open>Mdriver_Trace\<close>: the text of a trace is read back.
  \<^theory_text>\<open>Mdriver_Util\<close>: the space utilisation is the largest live payload over the size of the heap, at most one (locale
  \<^theory_text>\<open>mm_growing\<close>).  \<^theory_text>\<open>Timers\<close>: \<^verbatim>\<open>ftimer.c\<close> and \<^verbatim>\<open>fsecs.c\<close> over the times the system shows; a \<^verbatim>\<open>double\<close> is an exact
  rational number, an infinity or not a number, without rounding.  \<^theory_text>\<open>Mdriver_Main\<close>: \<^verbatim>\<open>main\<close> with its options, the tables and
  the performance index; on well-formed traces \<^verbatim>\<open>mm.c\<close> gets no error and the grade the formula says.  \<^theory_text>\<open>Clock\<close>: the
  cycle counter of \<^verbatim>\<open>clock.c\<close>, which measures exactly up to \<open>2\<^sup>6\<^sup>4\<close> cycles, the clock rate and the
  calibration.  \<^theory_text>\<open>Fcyc\<close>: the K-best measurement of \<^verbatim>\<open>fcyc.c\<close> over the results of the runs, which are
  elements of a linear order; the loop ends because it counts the samples up to their limit.

  \<^bold>\<open>Proxy lab\<close> (\<^verbatim>\<open>lab10\<close>).  \<^theory_text>\<open>Rio\<close>: the robust I/O package and the signal-safe output of \<^verbatim>\<open>csapp.c\<close>; a descriptor
  is a list of chunks, interruptions and failures, and the loops end because every turn uses some of it up.
  \<^theory_text>\<open>Rio_Props\<close>: the buffered readers read one stream of bytes (locale \<^theory_text>\<open>buffered_input\<close>).  \<^theory_text>\<open>Proxy\<close>:
  \<^verbatim>\<open>open_clientfd\<close>, \<^verbatim>\<open>open_listenfd\<close>, \<^verbatim>\<open>parse_uri\<close>, \<^verbatim>\<open>format_log_entry\<close> and \<^verbatim>\<open>doit\<close> of \<^verbatim>\<open>proxy.c\<close>, with
  the old contents of its buffers.  \<^theory_text>\<open>Proxy_Props\<close>: a well-formed exchange is relayed byte for byte, and what is sent
  when a body ends early.  \<^theory_text>\<open>Proxy_Threads\<close>: the accept loop of \<^verbatim>\<open>main\<close>, its threads and the semaphore around the
  log as an interleaving step relation.  In every reachable state each block handed to a thread has one owner,
  each connection descriptor one user, and at most one thread prints; every thread ends within the number of its
  remaining steps, which is bounded by the length of a log line.

  \<^bold>\<open>Not modelled.\<close>  The test programs of \<^verbatim>\<open>lab9\<close>, which only sleep, fork or send signals; the option parsing and reports
  of \<^verbatim>\<open>btest.c\<close>; usage messages, and the text \<^verbatim>\<open>printf\<close> makes of a \<^verbatim>\<open>double\<close>; the rounding of \<^verbatim>\<open>double\<close>; the cycle
  counter of the Alpha, in machine instructions; the wrappers of \<^verbatim>\<open>csapp.c\<close>, which call a function of the system and
  exit on an error; \<^verbatim>\<open>lab2/bomb.c\<close>, whose phases are not in the repository; \<^verbatim>\<open>lab3/farm.c\<close>, whose functions are there for
  the bytes they compile to; \<^verbatim>\<open>lab8/csim1.c\<close>, an earlier copy of \<^verbatim>\<open>csim.c\<close>.
\<close>

end
